(* ===== verification/Prelude.thy ===== *)
theory Prelude
  imports Complex_Main "HOL-Library.Word" "HOL-Library.Signed_Division"
begin

text \<open>
  Shared vocabulary of the development: the two error types (a Python exception and a Go
  panic, both carried in the left summand of a result), the names of the machine types the
  Go sources use, and the generic lemmas on lists, words and results that more than one
  component needs.
\<close>

unbundle bit_operations_syntax

subsection \<open>Results\<close>

datatype py_error =
    ValueError
  | KeyError
  | IndexError
  | ZeroDivisionError
  | UnicodeEncodeError
  | AttributeError
  | TypeError
  | OSError

datatype go_panic =
    DivideByZero
  | IndexOutOfRange
  | NilMapWrite
  | NilDereference

type_synonym 'a py_result = "py_error + 'a"
type_synonym 'a go_result = "go_panic + 'a"
type_synonym uint64 = "64 word"

text \<open>Sequencing of computations that may raise: the first error is the result.\<close>

fun bind_result :: "'e + 'a \<Rightarrow> ('a \<Rightarrow> 'e + 'b) \<Rightarrow> 'e + 'b" where
  "bind_result (Inl e) f = Inl e"
| "bind_result (Inr x) f = f x"

fun map_result :: "('a \<Rightarrow> 'e + 'b) \<Rightarrow> 'a list \<Rightarrow> 'e + 'b list" where
  "map_result f [] = Inr []"
| "map_result f (x # xs) =
     bind_result (f x) (\<lambda>y. bind_result (map_result f xs) (\<lambda>ys. Inr (y # ys)))"

lemma bind_result_Inr_iff [simp]:
  "bind_result r f = Inr y \<longleftrightarrow> (\<exists>x. r = Inr x \<and> f x = Inr y)"
  by (cases r) auto

lemma bind_result_Inl_iff:
  "bind_result r f = Inl e \<longleftrightarrow> r = Inl e \<or> (\<exists>x. r = Inr x \<and> f x = Inl e)"
  by (cases r) auto

lemma map_result_length: "map_result f xs = Inr ys \<Longrightarrow> length ys = length xs"
  by (induction xs arbitrary: ys) auto

lemma map_result_nth:
  "map_result f xs = Inr ys \<Longrightarrow> i < length xs \<Longrightarrow> f (xs ! i) = Inr (ys ! i)"
proof (induction xs arbitrary: ys i)
  case Nil
  then show ?case by simp
next
  case (Cons x xs)
  then show ?case by (cases i) auto
qed

subsection \<open>Words read as integers\<close>

lemma uint_mult_32: "uint (a * b :: 32 word) = (uint a * uint b) mod 2 ^ 32"
  by (simp add: uint_word_ariths)

lemma int_and_mask32: "(x :: int) AND 0xFFFFFFFF = x mod 2 ^ 32"
proof -
  have "(0xFFFFFFFF :: int) = mask 32"
    by (simp add: mask_eq_exp_minus_1)
  then show ?thesis
    by (simp only: take_bit_eq_mask [symmetric] take_bit_eq_mod)
qed

end
