(* ===== verification/Py_Builtins.thy ===== *)
theory Py_Builtins
  imports Prelude
begin

text \<open>
  The Python built-ins the experiment scripts use on text. A \<^verbatim>\<open>str\<close> is the list of its
  code points; \<^verbatim>\<open>str.encode\<close> gives UTF-8 bytes (as HOL characters) and raises on a lone
  surrogate; \<^verbatim>\<open>str.strip\<close>, \<^verbatim>\<open>str.split\<close>, \<^verbatim>\<open>int\<close> and \<^verbatim>\<open>str\<close> of an integer are written
  out with the tables CPython uses for white space and decimal digits.
\<close>

type_synonym pystr = "nat list"

definition lit :: "string \<Rightarrow> pystr" where
  "lit s = map of_char s"

lemma lit_eq_iff [simp]: "lit s = lit t \<longleftrightarrow> s = t"
  unfolding lit_def by (rule inj_map_eq_map) (rule inj_of_char)

lemma lit_Nil_iff [simp]: "lit s = [] \<longleftrightarrow> s = []" "[] = lit s \<longleftrightarrow> s = []"
  by (auto simp: lit_def)

subsection \<open>UTF-8\<close>

definition utf8_char :: "nat \<Rightarrow> string py_result" where
  "utf8_char c =
     (if c < 0x80 then Inr [char_of c]
      else if c < 0x800 then Inr [char_of (0xC0 + c div 64), char_of (0x80 + c mod 64)]
      else if 0xD800 \<le> c \<and> c < 0xE000 then Inl UnicodeEncodeError
      else if c < 0x10000 then
        Inr [char_of (0xE0 + c div 4096), char_of (0x80 + c div 64 mod 64),
             char_of (0x80 + c mod 64)]
      else if c < 0x110000 then
        Inr [char_of (0xF0 + c div 262144), char_of (0x80 + c div 4096 mod 64),
             char_of (0x80 + c div 64 mod 64), char_of (0x80 + c mod 64)]
      else Inl UnicodeEncodeError)"

definition encode :: "pystr \<Rightarrow> string py_result" where
  "encode s = bind_result (map_result utf8_char s) (\<lambda>bs. Inr (concat bs))"

text \<open>The strings that have an encoding: scalar values only, no surrogates.\<close>

definition encodable :: "pystr \<Rightarrow> bool" where
  "encodable s \<longleftrightarrow> list_all (\<lambda>c. c < 0xD800 \<or> (0xE000 \<le> c \<and> c < 0x110000)) s"

lemma encode_Cons:
  "encode (c # s) = bind_result (utf8_char c) (\<lambda>b. bind_result (encode s) (\<lambda>bs. Inr (b @ bs)))"
  by (cases "utf8_char c"; cases "map_result utf8_char s") (auto simp: encode_def)

lemma encode_Nil [simp]: "encode [] = Inr []"
  by (simp add: encode_def)

lemma encode_total: "encodable s \<Longrightarrow> \<exists>bs. encode s = Inr bs"
proof (induction s)
  case Nil
  then show ?case by simp
next
  case (Cons c s)
  then obtain bs where "encode s = Inr bs"
    by (auto simp: encodable_def)
  moreover from Cons.prems have "\<exists>b. utf8_char c = Inr b"
    by (auto simp: encodable_def utf8_char_def)
  then obtain b where "utf8_char c = Inr b" ..
  ultimately show ?case
    by (simp add: encode_Cons)
qed

text \<open>ASCII text encodes to itself, byte for byte.\<close>

lemma encode_lit: "list_all (\<lambda>c. of_char c < (0x80 :: nat)) s \<Longrightarrow> encode (lit s) = Inr s"
proof (induction s)
  case Nil
  then show ?case by (simp add: lit_def)
next
  case (Cons c s)
  then show ?case
    by (simp add: lit_def encode_Cons utf8_char_def)
qed

subsection \<open>White space, splitting, stripping\<close>

definition is_space :: "nat \<Rightarrow> bool" where
  "is_space c \<longleftrightarrow>
     (9 \<le> c \<and> c \<le> 13) \<or> (28 \<le> c \<and> c \<le> 32) \<or> c = 0x85 \<or> c = 0xA0 \<or> c = 0x1680 \<or>
     (0x2000 \<le> c \<and> c \<le> 0x200A) \<or> c = 0x2028 \<or> c = 0x2029 \<or> c = 0x202F \<or> c = 0x205F \<or>
     c = 0x3000"

definition strip :: "pystr \<Rightarrow> pystr" where
  "strip s = rev (dropWhile is_space (rev (dropWhile is_space s)))"

text \<open>\<^verbatim>\<open>s.split(sep)\<close> for a one-character separator: always at least one piece.\<close>

fun split_on :: "nat \<Rightarrow> pystr \<Rightarrow> pystr list" where
  "split_on sep [] = [[]]"
| "split_on sep (c # s) =
     (if c = sep then [] # split_on sep s
      else (case split_on sep s of [] \<Rightarrow> [[c]] | p # ps \<Rightarrow> (c # p) # ps))"

lemma split_on_ne [simp]: "split_on sep s \<noteq> []"
  by (induction s) (auto split: list.splits)

lemma split_on_no_sep: "p \<in> set (split_on sep s) \<Longrightarrow> sep \<notin> set p"
  by (induction s arbitrary: p) (auto split: list.splits if_splits)

subsection \<open>Integers as text\<close>

text \<open>The code points of digit zero in each run of ten decimal digits (category Nd).\<close>

definition nd_zeros :: "nat list" where
  "nd_zeros =
     [48, 1632, 1776, 1984, 2406, 2534, 2662, 2790, 2918, 3046, 3174, 3302, 3430, 3558, 3664,
      3792, 3872, 4160, 4240, 6112, 6160, 6470, 6608, 6784, 6800, 6992, 7088, 7232, 7248,
      42528, 43216, 43264, 43472, 43504, 43600, 44016, 65296, 66720, 68912, 69734, 69872,
      69942, 70096, 70384, 70736, 70864, 71248, 71360, 71472, 71904, 72016, 72784, 73040,
      73120, 92768, 92864, 93008, 120782, 120792, 120802, 120812, 120822, 123200, 123632,
      125264, 130032]"

definition digit_val :: "nat \<Rightarrow> nat option" where
  "digit_val c =
     (case find (\<lambda>z. z \<le> c \<and> c < z + 10) nd_zeros of
        None \<Rightarrow> None
      | Some z \<Rightarrow> Some (c - z))"

text \<open>
  A digit string: digits, with single underscores allowed between two digits. The result is
  the list of digit values.
\<close>

fun digit_run :: "pystr \<Rightarrow> nat list option" where
  "digit_run [] = None"
| "digit_run [c] = (case digit_val c of None \<Rightarrow> None | Some d \<Rightarrow> Some [d])"
| "digit_run (c # c' # s) =
     (case digit_val c of
        None \<Rightarrow> None
      | Some d \<Rightarrow> map_option ((#) d) (digit_run (if c' = 95 then s else c' # s)))"

definition of_digits :: "nat list \<Rightarrow> nat" where
  "of_digits ds = foldl (\<lambda>a d. 10 * a + d) 0 ds"

text \<open>CPython refuses to convert more than 4300 digits.\<close>

definition max_str_digits :: nat where
  "max_str_digits = 4300"

definition int_of_str :: "pystr \<Rightarrow> int py_result" where
  "int_of_str s =
     (let t = strip s;
          (neg, body) = (case t of
              [] \<Rightarrow> (False, [])
            | c # r \<Rightarrow> if c = 45 then (True, r) else if c = 43 then (False, r) else (False, t))
      in case digit_run body of
           None \<Rightarrow> Inl ValueError
         | Some ds \<Rightarrow>
             if max_str_digits < length ds then Inl ValueError
             else Inr (if neg then - int (of_digits ds) else int (of_digits ds)))"

fun nat_digits :: "nat \<Rightarrow> pystr" where
  "nat_digits n = (if n < 10 then [48 + n] else nat_digits (n div 10) @ [48 + n mod 10])"

declare nat_digits.simps [simp del]

definition str_of_int :: "int \<Rightarrow> pystr" where
  "str_of_int i = (if i < 0 then 45 # nat_digits (nat (- i)) else nat_digits (nat i))"

lemma nat_digits_ne [simp]: "nat_digits n \<noteq> []"
  by (subst nat_digits.simps) simp

lemma nat_digits_ascii: "c \<in> set (nat_digits n) \<Longrightarrow> 48 \<le> c \<and> c \<le> 57"
proof (induction n rule: nat_digits.induct)
  case (1 n)
  then show ?case
    by (subst (asm) (2) nat_digits.simps) (auto split: if_splits)
qed

lemma digit_val_ascii: "48 \<le> c \<Longrightarrow> c \<le> 57 \<Longrightarrow> digit_val c = Some (c - 48)"
  by (simp add: digit_val_def nd_zeros_def)

lemma digit_run_ascii:
  "s \<noteq> [] \<Longrightarrow> (\<And>c. c \<in> set s \<Longrightarrow> 48 \<le> c \<and> c \<le> 57) \<Longrightarrow> digit_run s = Some (map (\<lambda>c. c - 48) s)"
proof (induction s rule: digit_run.induct)
  case 1
  then show ?case by simp
next
  case (2 c)
  then show ?case by (simp add: digit_val_ascii)
next
  case (3 c c' s)
  from "3.prems"(2) [of c] have c: "digit_val c = Some (c - 48)"
    by (intro digit_val_ascii) auto
  from "3.prems"(2) [of c'] have c': "c' \<noteq> 95"
    by auto
  from "3.IH" [OF c] "3.prems" c' have "digit_run (c' # s) = Some (map (\<lambda>c. c - 48) (c' # s))"
    by auto
  with c c' show ?case by simp
qed

lemma of_digits_snoc: "of_digits (ds @ [d]) = 10 * of_digits ds + d"
  by (simp add: of_digits_def)

lemma of_digits_nat_digits: "of_digits (map (\<lambda>c. c - 48) (nat_digits n)) = n"
proof (induction n rule: nat_digits.induct)
  case (1 n)
  show ?case
  proof (cases "n < 10")
    case True
    then show ?thesis by (subst nat_digits.simps) (simp add: of_digits_def)
  next
    case False
    with 1 show ?thesis
      by (subst nat_digits.simps) (simp add: of_digits_snoc)
  qed
qed

lemma length_nat_digits: "n < 10 ^ k \<Longrightarrow> length (nat_digits n) \<le> max 1 k"
proof (induction n arbitrary: k rule: nat_digits.induct)
  case (1 n)
  show ?case
  proof (cases "n < 10")
    case True
    then show ?thesis by (subst nat_digits.simps) simp
  next
    case False
    with "1.prems" obtain k' where k: "k = Suc k'"
      by (cases k) auto
    with "1.prems" False have "n div 10 < 10 ^ k'"
      by auto
    with "1.IH" False have "length (nat_digits (n div 10)) \<le> max 1 k'"
      by simp
    moreover from \<open>n div 10 < 10 ^ k'\<close> False have "0 < k'"
      by (cases k') auto
    ultimately show ?thesis
      using False k by (subst nat_digits.simps) simp
  qed
qed

lemma strip_no_space: "(\<And>c. c \<in> set s \<Longrightarrow> \<not> is_space c) \<Longrightarrow> strip s = s"
proof -
  assume *: "\<And>c. c \<in> set s \<Longrightarrow> \<not> is_space c"
  then have "dropWhile is_space s = s" "dropWhile is_space (rev s) = rev s"
    by (cases s; auto) (cases "rev s"; auto simp: * dest: arg_cong [where f = set])
  then show ?thesis by (simp add: strip_def)
qed

lemma ascii_digit_not_space: "48 \<le> c \<Longrightarrow> c \<le> 57 \<Longrightarrow> \<not> is_space c"
  by (auto simp: is_space_def)

lemma encodable_append: "encodable (s @ t) \<longleftrightarrow> encodable s \<and> encodable t"
  by (simp add: encodable_def)

lemma encodable_ascii: "\<forall>c \<in> set s. c < 0x80 \<Longrightarrow> encodable s"
  by (induction s) (simp_all add: encodable_def)

lemma encodable_nat_digits: "encodable (nat_digits n)"
proof (rule encodable_ascii, rule ballI)
  fix c assume "c \<in> set (nat_digits n)"
  then have "c \<le> 57" using nat_digits_ascii by blast
  then show "c < 0x80" by simp
qed

lemma encodable_str_of_int: "encodable (str_of_int i)"
proof -
  have "encodable (45 # nat_digits n)" for n
    using encodable_nat_digits [of n] by (simp add: encodable_def)
  then show ?thesis by (simp add: str_of_int_def encodable_nat_digits)
qed

text \<open>Parsing inverts printing, for every integer short enough for the digit limit.\<close>

lemma int_of_str_of_int: "\<bar>i\<bar> < 10 ^ max_str_digits \<Longrightarrow> int_of_str (str_of_int i) = Inr i"
proof -
  assume i: "\<bar>i\<bar> < 10 ^ max_str_digits"
  define n where "n = nat \<bar>i\<bar>"
  have n: "n < 10 ^ max_str_digits"
    using i unfolding n_def by (simp add: nat_less_iff)
  have len: "length (nat_digits n) \<le> max_str_digits"
    using length_nat_digits [OF n] by (simp add: max_str_digits_def)
  have run: "digit_run (nat_digits n) = Some (map (\<lambda>c. c - 48) (nat_digits n))"
    by (rule digit_run_ascii) (auto dest: nat_digits_ascii)
  have nospace: "strip (nat_digits n) = nat_digits n"
    "strip (45 # nat_digits n) = 45 # nat_digits n"
    by (rule strip_no_space; auto dest!: nat_digits_ascii simp: ascii_digit_not_space is_space_def)+
  obtain d ds where d: "nat_digits n = d # ds"
    by (cases "nat_digits n") auto
  then have "48 \<le> d"
    using nat_digits_ascii [of d n] by simp
  show ?thesis
  proof (cases "i < 0")
    case True
    then have "str_of_int i = 45 # nat_digits n" "int n = - i"
      by (auto simp: str_of_int_def n_def)
    with run nospace len show ?thesis
      by (simp add: int_of_str_def Let_def of_digits_nat_digits)
  next
    case False
    then have "str_of_int i = nat_digits n" "int n = i"
      by (auto simp: str_of_int_def n_def)
    with run nospace len d \<open>48 \<le> d\<close> show ?thesis
      using of_digits_nat_digits [of n] by (simp add: int_of_str_def Let_def)
  qed
qed

end
