(* ===== verification/Shard_Hash.thy ===== *)
theory Shard_Hash
  imports Py_Builtins
begin

text \<open>
  Key placement. The Go side is \<^verbatim>\<open>shard/hashing.go\<close> (with the 32-bit FNV-1a of
  \<^verbatim>\<open>hash/fnv\<close>); the Python side is \<^verbatim>\<open>fnv1a_32\<close> and \<^verbatim>\<open>key_to_shard\<close> of the horizontal
  scaling experiment, which is documented to match it. Routing works without a directory
  only because both compute the same shard for a key.
\<close>

subsection \<open>Go: \<^verbatim>\<open>shard.KeyToShard\<close>\<close>

text \<open>
  \<^verbatim>\<open>fnv.New32a\<close> starts from the offset basis; \<^verbatim>\<open>Write\<close> xors each byte in and multiplies
  by the FNV prime, in 32-bit arithmetic; \<^verbatim>\<open>Sum32\<close> reads the state.
\<close>

definition fnv32a :: "string \<Rightarrow> 32 word" where
  "fnv32a bs = foldl (\<lambda>h b. (h XOR of_char b) * 16777619) 2166136261 bs"

text \<open>
  A \<^verbatim>\<open>uint32\<close> always fits the 64-bit \<^verbatim>\<open>int\<close>; \<^verbatim>\<open>%\<close> truncates towards zero and panics on a
  zero divisor.
\<close>

definition KeyToShard :: "string \<Rightarrow> int \<Rightarrow> int go_result" where
  "KeyToShard key totalShards =
     (if totalShards = 0 then Inl DivideByZero
      else Inr (uint (fnv32a key) smod totalShards))"

subsection \<open>Python: \<^verbatim>\<open>fnv1a_32\<close> and \<^verbatim>\<open>key_to_shard\<close>\<close>

definition FNV_OFFSET :: int where "FNV_OFFSET = 0x811C9DC5"

definition FNV_PRIME :: int where "FNV_PRIME = 0x01000193"

definition fnv_loop :: "int \<Rightarrow> string \<Rightarrow> int" where
  "fnv_loop h bs = foldl (\<lambda>h b. ((h XOR of_char b) * FNV_PRIME) AND 0xFFFFFFFF) h bs"

definition fnv1a_32 :: "pystr \<Rightarrow> int py_result" where
  "fnv1a_32 s = bind_result (encode s) (\<lambda>bs. Inr (fnv_loop FNV_OFFSET bs))"

definition key_to_shard :: "pystr \<Rightarrow> int \<Rightarrow> int py_result" where
  "key_to_shard key total_shards =
     bind_result (fnv1a_32 key)
       (\<lambda>h. if total_shards = 0 then Inl ZeroDivisionError else Inr (h mod total_shards))"

subsection \<open>The two hashes agree\<close>

lemma uint_of_char_32: "uint (of_char b :: 32 word) = of_char b"
proof -
  have "(of_char b :: 32 word) = word_of_int (of_char b)"
    by (metis of_int_of_char)
  moreover have "0 \<le> (of_char b :: int)" "(of_char b :: int) < 256"
    by (metis of_nat_0_le_iff of_nat_of_char)
       (metis nat_of_char_less_256 of_nat_less_iff of_nat_numeral of_nat_of_char)
  ultimately show ?thesis
    by (simp add: uint_word_of_int)
qed

lemma fnv_step: "uint ((h XOR of_char b) * 16777619 :: 32 word) =
    ((uint h XOR of_char b) * FNV_PRIME) AND 0xFFFFFFFF"
  by (simp add: uint_mult_32 int_and_mask32 uint_xor uint_of_char_32 FNV_PRIME_def)

lemma fnv_loop_word: "uint (foldl (\<lambda>h b. (h XOR of_char b) * 16777619) h bs :: 32 word) =
    fnv_loop (uint h) bs"
proof (induction bs arbitrary: h)
  case Nil
  then show ?case by (simp add: fnv_loop_def)
next
  case (Cons b bs)
  then show ?case by (simp add: fnv_loop_def fnv_step)
qed

lemma fnv_loop_offset: "fnv_loop FNV_OFFSET bs = uint (fnv32a bs)"
  by (simp add: fnv32a_def fnv_loop_word FNV_OFFSET_def)

lemma KeyToShard_pos: "0 < n \<Longrightarrow> KeyToShard bs n = Inr (uint (fnv32a bs) mod n)"
  by (cases "uint (fnv32a bs) = 0") (simp_all add: KeyToShard_def smod_int_alt_def sgn_if order_less_le)

text \<open>
  C30. For every key that has a UTF-8 encoding and every positive number of shards, the Python
  \<^verbatim>\<open>key_to_shard\<close> and the Go \<^verbatim>\<open>KeyToShard\<close> on the encoded key return the same shard, without
  error, and it lies in \<open>[0, n)\<close>.
\<close>

theorem key_to_shard_matches_go:
  assumes "encode key = Inr bytes" and "0 < n"
  shows "\<exists>k. key_to_shard key n = Inr k \<and> KeyToShard bytes n = Inr k \<and> 0 \<le> k \<and> k < n"
  using assms by (simp add: key_to_shard_def fnv1a_32_def KeyToShard_pos fnv_loop_offset)

theorem key_to_shard_matches_go_witness:
  "encode [107, 0xE9] = Inr [CHR ''k'', CHR 0xC3, CHR 0xA9] \<and>
   (\<exists>k. key_to_shard [107, 0xE9] 4 = Inr k \<and>
        KeyToShard [CHR ''k'', CHR 0xC3, CHR 0xA9] 4 = Inr k \<and> 0 \<le> k \<and> k < 4)"
proof -
  have e: "encode [107, 0xE9] = Inr [CHR ''k'', CHR 0xC3, CHR 0xA9]"
    by code_simp
  show ?thesis
    using e key_to_shard_matches_go [OF e, of 4] by simp
qed

end
