(* ===== verification/Load_Clients.thy ===== *)
theory Load_Clients
  imports Shard_Hash
begin

text \<open>
  The Locust load generators: \<^verbatim>\<open>horizontal_scaling/experiment.py\<close> (\<^verbatim>\<open>ShardedUser\<close> with its
  shard map) and \<^verbatim>\<open>replication_overhead/experiment.py\<close> (\<^verbatim>\<open>_write\<close>, \<^verbatim>\<open>_read\<close>).

  Requests go through Locust's HTTP client, which yields to the other users while it waits.
  A write is therefore two atomic pieces, the code up to the request and the code after the
  response; the response is an argument of the second. A random draw is an argument too,
  reduced to the range the call asks for, so that the arguments range over every draw the
  library can make and no other.
\<close>

record http_response =
  resp_ok :: bool
  status_code :: int

subsection \<open>The random module\<close>

definition randint :: "int \<Rightarrow> int \<Rightarrow> nat \<Rightarrow> int" where
  "randint lo hi pick = lo + int pick mod (hi - lo + 1)"

definition choice :: "'a list \<Rightarrow> nat \<Rightarrow> 'a py_result" where
  "choice xs pick = (if xs = [] then Inl IndexError else Inr (xs ! (pick mod length xs)))"

definition ascii_lowercase :: pystr where
  "ascii_lowercase = lit ''abcdefghijklmnopqrstuvwxyz''"

definition random_value :: "nat \<Rightarrow> (nat \<Rightarrow> nat) \<Rightarrow> pystr" where
  "random_value n picks = map (\<lambda>i. ascii_lowercase ! (picks i mod 26)) [0..<n]"

lemma randint_bounds: "lo \<le> hi \<Longrightarrow> lo \<le> randint lo hi p \<and> randint lo hi p \<le> hi"
proof -
  assume "lo \<le> hi"
  then show ?thesis
    using pos_mod_bound [of "hi - lo + 1" "int p"] pos_mod_sign [of "hi - lo + 1" "int p"]
    unfolding randint_def by linarith
qed

lemma choice_mem: "choice xs p = Inr x \<Longrightarrow> x \<in> set xs"
  by (auto simp: choice_def split: if_splits)

lemma choice_total: "xs \<noteq> [] \<Longrightarrow> \<exists>x. choice xs p = Inr x"
  by (simp add: choice_def)

subsection \<open>The shard map of the horizontal scaling experiment\<close>

definition shard_var :: "nat \<Rightarrow> pystr" where
  "shard_var i = lit ''CLIENT_SHARD_'' @ str_of_int (int i) @ lit ''_ADDRS''"

definition shard_addrs :: "(pystr \<rightharpoonup> pystr) \<Rightarrow> nat \<Rightarrow> pystr list" where
  "shard_addrs environ i =
     (let addrs = split_on 44 (case environ (shard_var i) of None \<Rightarrow> [] | Some v \<Rightarrow> v)
      in map strip (filter (\<lambda>a. strip a \<noteq> []) addrs))"

definition build_shard_map :: "(pystr \<rightharpoonup> pystr) \<Rightarrow> (int \<times> (int \<rightharpoonup> pystr list)) py_result" where
  "build_shard_map environ =
     bind_result
       (int_of_str (case environ (lit ''CLIENT_SHARDS_TOTAL'') of None \<Rightarrow> lit ''1'' | Some v \<Rightarrow> v))
       (\<lambda>total. Inr (total,
          fold (\<lambda>i m. m(int i \<mapsto> shard_addrs environ i)) [0..<nat total] Map.empty))"

subsection \<open>\<^verbatim>\<open>ShardedUser\<close>\<close>

record shard_config =
  TOTAL_SHARDS :: int
  SHARD_MAP :: "int \<rightharpoonup> pystr list"

record write_picks =
  key_pick :: nat
  addr_pick :: nat
  value_picks :: "nat \<Rightarrow> nat"
  slot_pick :: nat

definition MAX_TRACKED_KEYS :: nat where
  "MAX_TRACKED_KEYS = 5000"

definition random_key :: "nat \<Rightarrow> pystr" where
  "random_key pick = lit ''key-'' @ str_of_int (randint 0 9999 pick)"

text \<open>
  \<^verbatim>\<open>SHARD_MAP.get(shard_id, SHARD_MAP[0])\<close>: the default is evaluated first, so a map without
  shard 0 raises even when \<^verbatim>\<open>shard_id\<close> is present.
\<close>

definition lookup_addrs :: "shard_config \<Rightarrow> int \<Rightarrow> pystr list py_result" where
  "lookup_addrs cfg shard_id =
     (case SHARD_MAP cfg 0 of
        None \<Rightarrow> Inl KeyError
      | Some d \<Rightarrow> Inr (case SHARD_MAP cfg shard_id of None \<Rightarrow> d | Some a \<Rightarrow> a))"

definition target_for :: "shard_config \<Rightarrow> pystr \<Rightarrow> nat \<Rightarrow> pystr py_result" where
  "target_for cfg key pick =
     bind_result (key_to_shard key (TOTAL_SHARDS cfg)) (\<lambda>shard_id.
     bind_result (lookup_addrs cfg shard_id) (\<lambda>addrs.
     choice addrs pick))"

definition track_key :: "pystr \<Rightarrow> nat \<Rightarrow> pystr list \<Rightarrow> pystr list" where
  "track_key key pick written =
     (if length written < MAX_TRACKED_KEYS then written @ [key]
      else written[nat (randint 0 (int MAX_TRACKED_KEYS - 1) pick) := key])"

definition key_url :: "pystr \<Rightarrow> pystr \<Rightarrow> pystr" where
  "key_url base key = base @ lit ''/v1/keys/'' @ key"

text \<open>\<^verbatim>\<open>write\<close> up to the request: the key, the URL and the value of the PUT.\<close>

definition write_request :: "shard_config \<Rightarrow> write_picks \<Rightarrow> (pystr \<times> pystr \<times> pystr) py_result" where
  "write_request cfg p =
     (let key = random_key (key_pick p) in
      bind_result (target_for cfg key (addr_pick p)) (\<lambda>target.
        Inr (key, key_url target key, random_value 8 (value_picks p))))"

text \<open>\<^verbatim>\<open>write\<close> after the response.\<close>

definition write_response :: "pystr \<Rightarrow> nat \<Rightarrow> http_response \<Rightarrow> pystr list \<Rightarrow> pystr list" where
  "write_response key pick resp written =
     (if resp_ok resp \<and> status_code resp = 200 then track_key key pick written else written)"

text \<open>\<^verbatim>\<open>read\<close>: the URL of the GET, or no request while nothing has been written.\<close>

definition sharded_read :: "shard_config \<Rightarrow> nat \<Rightarrow> nat \<Rightarrow> pystr list \<Rightarrow> pystr option py_result" where
  "sharded_read cfg kp ap written =
     (if written = [] then Inr None
      else bind_result (choice written kp) (\<lambda>key.
           bind_result (target_for cfg key ap) (\<lambda>target. Inr (Some (key_url target key)))))"

subsection \<open>The replication overhead experiment\<close>

text \<open>The same request mix and tracking against one host: the client gets a path only.\<close>

definition repl_write_request :: "write_picks \<Rightarrow> pystr \<times> pystr \<times> pystr" where
  "repl_write_request p =
     (let key = random_key (key_pick p)
      in (key, lit ''/v1/keys/'' @ key, random_value 8 (value_picks p)))"

definition repl_write_response :: "pystr \<Rightarrow> nat \<Rightarrow> http_response \<Rightarrow> pystr list \<Rightarrow> pystr list" where
  "repl_write_response key pick resp written =
     (if resp_ok resp \<and> status_code resp = 200
      then (if length written < MAX_TRACKED_KEYS then written @ [key]
            else written[nat (randint 0 (int MAX_TRACKED_KEYS - 1) pick) := key])
      else written)"

definition repl_read :: "nat \<Rightarrow> pystr list \<Rightarrow> pystr option py_result" where
  "repl_read kp written =
     (if written = [] then Inr None
      else bind_result (choice written kp) (\<lambda>key. Inr (Some (lit ''/v1/keys/'' @ key))))"

subsection \<open>A pool of concurrent users\<close>

text \<open>
  The users share \<^verbatim>\<open>WRITTEN_KEYS\<close>. \<open>inflight\<close> are the keys of the writes waiting for their
  response; \<open>acked\<close> and \<open>reads\<close> are history: the keys some PUT was answered 200 for, and the
  URLs of the GETs.
\<close>

record load_state =
  written :: "pystr list"
  inflight :: "pystr list"
  acked :: "pystr set"
  reads :: "pystr list"

definition load_init :: load_state where
  "load_init = \<lparr>written = [], inflight = [], acked = {}, reads = []\<rparr>"

inductive load_step :: "shard_config \<Rightarrow> load_state \<Rightarrow> load_state \<Rightarrow> bool" for cfg where
  issue: "write_request cfg p = Inr (key, url, val) \<Longrightarrow>
     load_step cfg s (s\<lparr>inflight := key # inflight s\<rparr>)"
| respond: "key \<in> set (inflight s) \<Longrightarrow>
     load_step cfg s
       (s\<lparr>inflight := remove1 key (inflight s),
          written := write_response key pick resp (written s),
          acked := (if resp_ok resp \<and> status_code resp = 200 then insert key (acked s)
                    else acked s)\<rparr>)"
| read: "sharded_read cfg kp ap (written s) = Inr (Some url) \<Longrightarrow>
     load_step cfg s (s\<lparr>reads := url # reads s\<rparr>)"

inductive load_reachable :: "shard_config \<Rightarrow> load_state \<Rightarrow> bool" for cfg where
  start: "load_reachable cfg load_init"
| step: "load_reachable cfg s \<Longrightarrow> load_step cfg s t \<Longrightarrow> load_reachable cfg t"

subsection \<open>Lemmas\<close>

lemma length_track_key:
  "length ws \<le> MAX_TRACKED_KEYS \<Longrightarrow> length (track_key key pick ws) \<le> MAX_TRACKED_KEYS"
  by (auto simp: track_key_def)

lemma set_track_key: "set (track_key key pick ws) \<subseteq> insert key (set ws)"
  by (auto simp: track_key_def dest: subsetD [OF set_update_subset_insert])

lemma target_for_choice:
  "target_for cfg key pick = Inr a \<longleftrightarrow>
     (\<exists>k addrs. key_to_shard key (TOTAL_SHARDS cfg) = Inr k \<and>
        lookup_addrs cfg k = Inr addrs \<and> choice addrs pick = Inr a)"
  by (auto simp: target_for_def)

definition load_inv :: "shard_config \<Rightarrow> load_state \<Rightarrow> bool" where
  "load_inv cfg s \<longleftrightarrow>
     length (written s) \<le> MAX_TRACKED_KEYS \<and> set (written s) \<subseteq> acked s \<and>
     (\<forall>url \<in> set (reads s). \<exists>key pick target.
        key \<in> acked s \<and> target_for cfg key pick = Inr target \<and> url = key_url target key)"

lemma load_inv_init: "load_inv cfg load_init"
  by (simp add: load_inv_def load_init_def)

lemma load_step_inv: "load_step cfg s t \<Longrightarrow> load_inv cfg s \<Longrightarrow> load_inv cfg t"
proof (induction rule: load_step.induct)
  case (issue p key url val s)
  then show ?case by (simp add: load_inv_def)
next
  case (respond key s resp pick)
  have len: "length (write_response key pick resp (written s)) \<le> MAX_TRACKED_KEYS"
    using respond.prems length_track_key [of "written s" key pick]
    by (simp add: load_inv_def write_response_def)
  have tracked: "set (write_response key pick resp (written s)) \<subseteq>
      (if resp_ok resp \<and> status_code resp = 200 then insert key (acked s) else acked s)"
    using respond.prems set_track_key [of key pick "written s"]
    by (auto simp: load_inv_def write_response_def)
  from respond.prems len tracked show ?case
    unfolding load_inv_def by simp blast
next
  case (read kp ap s url)
  then obtain key target where "key \<in> set (written s)"
    "target_for cfg key ap = Inr target" "url = key_url target key"
    by (auto simp: sharded_read_def split: if_splits dest: choice_mem)
  with read show ?case
    by (auto simp: load_inv_def)
qed

lemma load_reachable_inv: "load_reachable cfg s \<Longrightarrow> load_inv cfg s"
  by (induction rule: load_reachable.induct) (auto intro: load_inv_init load_step_inv)

lemma fold_shard_map:
  "fold (\<lambda>i m. m(int i \<mapsto> f i)) [0..<n] Map.empty k =
     (if 0 \<le> k \<and> k < int n then Some (f (nat k)) else None)"
  by (induction n) (auto simp: nat_less_iff le_less_Suc_eq)

lemma random_key_ascii:
  "\<exists>bs. encode (random_key p) = Inr bs"
proof -
  have "encodable (random_key p)"
    by (simp add: random_key_def encodable_append encodable_str_of_int) (simp add: encodable_def lit_def)
  then show ?thesis by (rule encode_total)
qed

subsection \<open>Properties\<close>

text \<open>
  C31. When the environment names at least one shard and every shard has an address, no write
  of \<^verbatim>\<open>ShardedUser\<close> raises: whatever is drawn, the request goes to an address configured for
  the shard that the Go servers' \<^verbatim>\<open>KeyToShard\<close> assigns to the key.
\<close>

theorem write_request_routes:
  assumes map: "build_shard_map environ = Inr (n, m)" and "1 \<le> n"
    and addrs: "\<forall>i < nat n. shard_addrs environ i \<noteq> []"
  shows "\<exists>key k target bytes.
      write_request \<lparr>TOTAL_SHARDS = n, SHARD_MAP = m\<rparr> p =
        Inr (key, key_url target key, random_value 8 (value_picks p)) \<and>
      encode key = Inr bytes \<and> KeyToShard bytes n = Inr k \<and>
      target \<in> set (shard_addrs environ (nat k))"
proof -
  let ?key = "random_key (key_pick p)"
  let ?cfg = "\<lparr>TOTAL_SHARDS = n, SHARD_MAP = m\<rparr>"
  obtain bytes where b: "encode ?key = Inr bytes"
    using random_key_ascii by blast
  obtain k where k: "key_to_shard ?key n = Inr k" "KeyToShard bytes n = Inr k"
    "0 \<le> k" "k < n"
    using b \<open>1 \<le> n\<close> by (auto simp: key_to_shard_def fnv1a_32_def KeyToShard_pos fnv_loop_offset)
  have m: "m j = (if 0 \<le> j \<and> j < n then Some (shard_addrs environ (nat j)) else None)" for j
    using map \<open>1 \<le> n\<close> by (auto simp: build_shard_map_def fold_shard_map)
  have l: "lookup_addrs ?cfg k = Inr (shard_addrs environ (nat k))"
    using k \<open>1 \<le> n\<close> by (simp add: lookup_addrs_def m)
  obtain target where t: "choice (shard_addrs environ (nat k)) (addr_pick p) = Inr target"
    using choice_total addrs k by (metis nat_mono_iff order_le_less_trans)
  have "write_request ?cfg p = Inr (?key, key_url target ?key, random_value 8 (value_picks p))"
    using k l t by (simp add: write_request_def Let_def target_for_def)
  with b k t show ?thesis
    by (blast dest: choice_mem)
qed

theorem write_request_routes_witness:
  "\<exists>environ m key k target bytes. build_shard_map environ = Inr (1, m) \<and>
      shard_addrs environ 0 = [lit ''http://a:8000'', lit ''http://b:8000''] \<and>
      write_request \<lparr>TOTAL_SHARDS = 1, SHARD_MAP = m\<rparr>
          \<lparr>key_pick = 17, addr_pick = 1, value_picks = (\<lambda>i. i), slot_pick = 0\<rparr> =
        Inr (key, key_url target key, random_value 8 (\<lambda>i. i)) \<and>
      encode key = Inr bytes \<and> KeyToShard bytes 1 = Inr k \<and>
      target \<in> set (shard_addrs environ (nat k))"
proof -
  let ?e = "[lit ''CLIENT_SHARDS_TOTAL'' \<mapsto> lit ''1'',
             lit ''CLIENT_SHARD_0_ADDRS'' \<mapsto> lit ''http://a:8000 , http://b:8000'']"
  let ?p = "\<lparr>key_pick = 17, addr_pick = 1, value_picks = (\<lambda>i. i), slot_pick = 0\<rparr>"
  have one: "int_of_str (lit ''1'') = Inr 1"
    by (simp add: int_of_str_def lit_def strip_def is_space_def digit_val_ascii of_digits_def
        max_str_digits_def)
  have "lit ''CLIENT_SHARDS_TOTAL'' \<noteq> lit ''CLIENT_SHARD_0_ADDRS''"
    by (simp add: lit_def)
  with one obtain m where m: "build_shard_map ?e = Inr (1, m)"
    by (simp add: build_shard_map_def)
  have v: "shard_var 0 = lit ''CLIENT_SHARD_0_ADDRS''"
    by (simp add: shard_var_def lit_def str_of_int_def nat_digits.simps)
  have "map strip (filter (\<lambda>a. strip a \<noteq> []) (split_on 44 (lit ''http://a:8000 , http://b:8000'')))
      = [lit ''http://a:8000'', lit ''http://b:8000'']"
    by (simp add: lit_def strip_def is_space_def)
  then have a: "shard_addrs ?e 0 = [lit ''http://a:8000'', lit ''http://b:8000'']"
    by (simp add: shard_addrs_def v)
  then have "\<forall>i < nat 1. shard_addrs ?e i \<noteq> []"
    by simp
  from write_request_routes [OF m order_refl this, of ?p] obtain key k target bytes where
    "write_request \<lparr>TOTAL_SHARDS = 1, SHARD_MAP = m\<rparr> ?p =
       Inr (key, key_url target key, random_value 8 (\<lambda>i. i))"
    "encode key = Inr bytes" "KeyToShard bytes 1 = Inr k" "target \<in> set (shard_addrs ?e (nat k))"
    by (auto simp only: write_picks.simps)
  with m a show ?thesis by blast
qed

text \<open>
  C32. However the users interleave, every GET ever issued is for a key that some PUT was
  answered 200 for, at an address its own shard lookup gives, and the shared list of tracked
  keys never exceeds its bound.
\<close>

theorem load_reads_acked:
  assumes "load_reachable cfg s"
  shows "length (written s) \<le> MAX_TRACKED_KEYS \<and>
    (\<forall>url \<in> set (reads s). \<exists>key pick target.
       key \<in> acked s \<and> target_for cfg key pick = Inr target \<and> url = key_url target key)"
  using load_reachable_inv [OF assms] by (simp add: load_inv_def)

theorem load_reads_acked_witness:
  "let cfg = \<lparr>TOTAL_SHARDS = 1, SHARD_MAP = [0 \<mapsto> [lit ''http://a'']]\<rparr>
   in \<exists>s. load_reachable cfg s \<and> reads s \<noteq> [] \<and> length (written s) \<le> MAX_TRACKED_KEYS \<and>
     (\<forall>url \<in> set (reads s). \<exists>key pick target.
        key \<in> acked s \<and> target_for cfg key pick = Inr target \<and> url = key_url target key)"
proof -
  let ?cfg = "\<lparr>TOTAL_SHARDS = 1, SHARD_MAP = [0 \<mapsto> [lit ''http://a'']]\<rparr>"
  let ?p = "\<lparr>key_pick = 7, addr_pick = 0, value_picks = (\<lambda>_. 0), slot_pick = 0\<rparr>"
  let ?k = "random_key 7"
  let ?s1 = "load_init\<lparr>inflight := ?k # inflight load_init\<rparr>"
  let ?s2 = "?s1\<lparr>inflight := remove1 ?k (inflight ?s1),
    written := write_response ?k 0 \<lparr>resp_ok = True, status_code = 200\<rparr> (written ?s1),
    acked := (if resp_ok \<lparr>resp_ok = True, status_code = 200\<rparr> \<and>
      status_code \<lparr>resp_ok = True, status_code = 200\<rparr> = 200 then insert ?k (acked ?s1) else acked ?s1)\<rparr>"
  have t: "target_for ?cfg ?k 0 = Inr (lit ''http://a'')"
    using random_key_ascii [of 7]
    by (auto simp: target_for_def key_to_shard_def fnv1a_32_def lookup_addrs_def choice_def)
  have w: "written ?s2 = [?k]"
    by (simp add: load_init_def write_response_def track_key_def MAX_TRACKED_KEYS_def)
  have "load_reachable ?cfg ?s1"
    by (rule load_reachable.step [OF load_reachable.start], rule load_step.issue [of _ ?p])
       (simp add: write_request_def t Let_def)
  then have "load_reachable ?cfg ?s2"
    by (rule load_reachable.step, intro load_step.respond) simp
  then have "load_reachable ?cfg (?s2\<lparr>reads := key_url (lit ''http://a'') ?k # reads ?s2\<rparr>)"
    by (rule load_reachable.step, intro load_step.read [where kp = 0 and ap = 0])
       (simp only: w, simp add: sharded_read_def choice_def t)
  from this load_reads_acked [OF this] show ?thesis
    unfolding Let_def by (intro exI conjI) (assumption, simp, blast, blast)
qed

end
