(* ===== verification/Py_Numbers.thy ===== *)
theory Py_Numbers
  imports Py_Builtins
begin

text \<open>
  Python numbers and the \<^verbatim>\<open>statistics\<close> functions the reports use. A \<^verbatim>\<open>float\<close> is a real number:
  rounding of the last bit and the three non-finite values are outside the model, so a cell
  spelled \<^verbatim>\<open>nan\<close> or \<^verbatim>\<open>inf\<close> counts here as text that \<^verbatim>\<open>float\<close> rejects. \<^verbatim>\<open>float(s)\<close> follows
  CPython's grammar (white space, sign, digits with underscores, fraction, exponent), and
  \<^verbatim>\<open>f"{x:.2f}"\<close> rounds half to even.
\<close>

subsection \<open>Indexing\<close>

text \<open>\<^verbatim>\<open>xs[i]\<close>: negative indices count from the end, anything else out of range raises.\<close>

definition py_nth :: "'a list \<Rightarrow> int \<Rightarrow> 'a py_result" where
  "py_nth xs i =
     (let j = (if i < 0 then i + int (length xs) else i)
      in if 0 \<le> j \<and> j < int (length xs) then Inr (xs ! nat j) else Inl IndexError)"

lemma py_nth_in_range [simp]: "i < length xs \<Longrightarrow> py_nth xs (int i) = Inr (xs ! i)"
  by (simp add: py_nth_def)

text \<open>\<^verbatim>\<open>int(x)\<close> of a float truncates towards zero.\<close>

definition int_of_float :: "real \<Rightarrow> int" where
  "int_of_float x = (if 0 \<le> x then \<lfloor>x\<rfloor> else \<lceil>x\<rceil>)"

subsection \<open>Cells\<close>

text \<open>The values a cell of a result row can hold.\<close>

datatype pyval = VNone | VStr pystr | VInt int | VFloat real

type_synonym row = "pystr \<rightharpoonup> pyval"

subsection \<open>Parsing\<close>

text \<open>An underscore is skipped only where a digit follows.\<close>

definition skip_underscore :: "pystr \<Rightarrow> pystr" where
  "skip_underscore s =
     (case s of
        u # v # r \<Rightarrow> if u = 95 \<and> digit_val v \<noteq> None then v # r else s
      | _ \<Rightarrow> s)"

lemma length_skip_underscore [termination_simp]: "length (skip_underscore s) < Suc (length s)"
  by (auto simp: skip_underscore_def split: list.splits)

fun span_digits :: "pystr \<Rightarrow> nat list \<times> pystr" where
  "span_digits [] = ([], [])"
| "span_digits (c # s) =
     (case digit_val c of
        None \<Rightarrow> ([], c # s)
      | Some d \<Rightarrow> (let (ds, r) = span_digits (skip_underscore s) in (d # ds, r)))"

definition exponent_of :: "pystr \<Rightarrow> int option" where
  "exponent_of s =
     (case s of
        [] \<Rightarrow> Some 0
      | c # r \<Rightarrow>
          if c = 101 \<or> c = 69 then
            (let (neg, body) = (case r of
                   [] \<Rightarrow> (False, [])
                 | d # r' \<Rightarrow> if d = 45 then (True, r') else if d = 43 then (False, r') else (False, r));
                 (ds, rest) = span_digits body
             in if ds = [] \<or> rest \<noteq> [] then None
                else Some (if neg then - int (of_digits ds) else int (of_digits ds)))
          else None)"

definition float_of_str :: "pystr \<Rightarrow> real py_result" where
  "float_of_str s =
     (let t = strip s;
          (neg, body) = (case t of
              [] \<Rightarrow> (False, [])
            | c # r \<Rightarrow> if c = 45 then (True, r) else if c = 43 then (False, r) else (False, t));
          (ip, r1) = span_digits body;
          (fp, r2) = (case r1 of
              [] \<Rightarrow> ([], [])
            | c # r \<Rightarrow> if c = 46 then span_digits r else ([], r1))
      in case exponent_of r2 of
           None \<Rightarrow> Inl ValueError
         | Some e \<Rightarrow>
             if ip = [] \<and> fp = [] then Inl ValueError
             else (let v = real (of_digits (ip @ fp)) * 10 powi (e - int (length fp))
                   in Inr (if neg then - v else v)))"

subsection \<open>Formatting\<close>

definition round_half_even :: "real \<Rightarrow> int" where
  "round_half_even y =
     (let f = \<lfloor>y\<rfloor>; d = y - of_int f
      in if d < 1/2 then f else if 1/2 < d then f + 1 else if even f then f else f + 1)"

definition fmt_2f :: "real \<Rightarrow> pystr" where
  "fmt_2f x =
     (let n = nat (round_half_even (\<bar>x\<bar> * 100))
      in (if x < 0 then [45] else []) @ nat_digits (n div 100) @ [46, 48 + n div 10 mod 10, 48 + n mod 10])"

definition ljust :: "nat \<Rightarrow> pystr \<Rightarrow> pystr" where
  "ljust n s = s @ replicate (n - length s) 32"

definition rjust :: "nat \<Rightarrow> pystr \<Rightarrow> pystr" where
  "rjust n s = replicate (n - length s) 32 @ s"

fun join :: "pystr \<Rightarrow> pystr list \<Rightarrow> pystr" where
  "join sep [] = []"
| "join sep [s] = s"
| "join sep (s # ss) = s @ sep @ join sep ss"

subsection \<open>The statistics module\<close>

text \<open>Both raise \<^verbatim>\<open>StatisticsError\<close>, a \<^verbatim>\<open>ValueError\<close>, on no data.\<close>

definition mean :: "real list \<Rightarrow> real py_result" where
  "mean xs = (if xs = [] then Inl ValueError else Inr (sum_list xs / real (length xs)))"

definition median :: "real list \<Rightarrow> real py_result" where
  "median data =
     (let xs = sort data; n = length xs
      in if n = 0 then Inl ValueError
         else if n mod 2 = 1 then Inr (xs ! (n div 2))
         else Inr ((xs ! (n div 2 - 1) + xs ! (n div 2)) / 2))"

definition py_min :: "real list \<Rightarrow> real py_result" where
  "py_min xs = (case xs of [] \<Rightarrow> Inl ValueError | y # ys \<Rightarrow> Inr (fold min ys y))"

definition py_max :: "real list \<Rightarrow> real py_result" where
  "py_max xs = (case xs of [] \<Rightarrow> Inl ValueError | y # ys \<Rightarrow> Inr (fold max ys y))"

lemma fold_min_bounds: "fold min ys y \<le> (y :: real) \<and> (\<forall>z \<in> set ys. fold min ys y \<le> z) \<and>
    fold min ys y \<in> insert y (set ys)"
  by (induction ys arbitrary: y) (fastforce simp: min_def)+

lemma fold_max_bounds: "(y :: real) \<le> fold max ys y \<and> (\<forall>z \<in> set ys. z \<le> fold max ys y) \<and>
    fold max ys y \<in> insert y (set ys)"
  by (induction ys arbitrary: y) (fastforce simp: max_def)+

lemma py_min_Inr: "xs \<noteq> [] \<Longrightarrow> \<exists>m. py_min xs = Inr m \<and> m \<in> set xs \<and> (\<forall>x \<in> set xs. m \<le> x)"
  using fold_min_bounds by (cases xs) (auto simp: py_min_def)

lemma py_max_Inr: "xs \<noteq> [] \<Longrightarrow> \<exists>m. py_max xs = Inr m \<and> m \<in> set xs \<and> (\<forall>x \<in> set xs. x \<le> m)"
  using fold_max_bounds by (cases xs) (auto simp: py_max_def)

lemma mean_bounds:
  assumes "xs \<noteq> []" "\<forall>x \<in> set xs. l \<le> x \<and> x \<le> u"
  shows "\<exists>m. mean xs = Inr m \<and> l \<le> m \<and> m \<le> u"
proof -
  have "real (length xs) * l \<le> sum_list xs \<and> sum_list xs \<le> real (length xs) * u"
    using assms(2) by (induction xs) (auto simp: algebra_simps)
  then show ?thesis
    using assms(1) by (intro exI [of _ "sum_list xs / real (length xs)"])
      (simp add: mean_def divide_le_eq le_divide_eq mult.commute)
qed

lemma median_total: "xs \<noteq> [] \<Longrightarrow> \<exists>m. median xs = Inr m"
proof -
  assume "xs \<noteq> []"
  then have "length (sort xs) \<noteq> 0"
    by simp
  then show ?thesis
    unfolding median_def Let_def by metis
qed

end
