(* ===== verification/Compare_Geo.thy ===== *)
theory Compare_Geo
  imports Py_Numbers
begin

text \<open>
  \<^verbatim>\<open>infrastructure/experiments/compare_geo_results.py\<close>: the rows of the two result files, the
  latency and staleness summaries, and the console and Markdown reports. Rows come from
  \<^verbatim>\<open>csv.DictReader\<close>, which maps every header field to a string, or to \<^verbatim>\<open>None\<close> in a short row.
\<close>

definition NUMERIC_FIELDS :: "pystr list" where
  "NUMERIC_FIELDS =
     [lit ''write_latency_ms'', lit ''read_latency_avg_ms'', lit ''read_latency_min_ms'',
      lit ''read_latency_max_ms'', lit ''convergence_ms'', lit ''immediate_stale_reads'',
      lit ''replica_count'']"

subsection \<open>Loading\<close>

fun to_float :: "pyval \<Rightarrow> real option" where
  "to_float VNone = None"
| "to_float (VStr s) = (if s = [] then None else
     (case float_of_str s of Inl _ \<Rightarrow> None | Inr x \<Rightarrow> Some x))"
| "to_float (VInt i) = Some (of_int i)"
| "to_float (VFloat x) = Some x"

definition parse_field :: "pystr \<Rightarrow> row \<Rightarrow> row" where
  "parse_field field parsed =
     (case parsed field of
        None \<Rightarrow> parsed
      | Some v \<Rightarrow> parsed(field \<mapsto> (case to_float v of None \<Rightarrow> VNone | Some x \<Rightarrow> VFloat x)))"

definition load_rows :: "row list \<Rightarrow> row list" where
  "load_rows reader = map (\<lambda>r. fold parse_field NUMERIC_FIELDS r) reader"

definition field_values :: "row list \<Rightarrow> pystr \<Rightarrow> real list" where
  "field_values rows field =
     List.map_filter (\<lambda>r. case r field of Some (VFloat x) \<Rightarrow> Some x | _ \<Rightarrow> None) rows"

subsection \<open>Percentiles and summaries\<close>

definition percentile :: "real list \<Rightarrow> real \<Rightarrow> real option py_result" where
  "percentile sorted_values pct =
     (if sorted_values = [] then Inr None
      else if length sorted_values = 1 then Inr (Some (sorted_values ! 0))
      else
        (let rank = real (length sorted_values - 1) * pct;
             lower = int_of_float rank;
             upper = min (lower + 1) (int (length sorted_values) - 1);
             weight = rank - of_int lower
         in bind_result (py_nth sorted_values lower) (\<lambda>a.
            bind_result (py_nth sorted_values upper) (\<lambda>b.
              Inr (Some (a * (1 - weight) + b * weight))))))"

record latency_summary =
  lcount :: nat
  avg :: "real option"
  p50 :: "real option"
  p95 :: "real option"
  lmin :: "real option"
  lmax :: "real option"

definition summarize_latency :: "row list \<Rightarrow> pystr \<Rightarrow> latency_summary py_result" where
  "summarize_latency rows field =
     (let vals = sort (field_values rows field)
      in if vals = [] then
           Inr \<lparr>lcount = 0, avg = None, p50 = None, p95 = None, lmin = None, lmax = None\<rparr>
         else
           bind_result (mean vals) (\<lambda>a.
           bind_result (percentile vals (50 / 100)) (\<lambda>q50.
           bind_result (percentile vals (95 / 100)) (\<lambda>q95.
           bind_result (py_min vals) (\<lambda>mn.
           bind_result (py_max vals) (\<lambda>mx.
             Inr \<lparr>lcount = length vals, avg = Some a, p50 = q50, p95 = q95,
                  lmin = Some mn, lmax = Some mx\<rparr>))))))"

record staleness_summary =
  stale_total :: real
  read_total :: real
  rate :: "real option"

definition summarize_staleness :: "row list \<Rightarrow> staleness_summary" where
  "summarize_staleness rows =
     (let st = sum_list (field_values rows (lit ''immediate_stale_reads''));
          rt = sum_list (field_values rows (lit ''replica_count''))
      in \<lparr>stale_total = st, read_total = rt,
          rate = (if rt \<noteq> 0 then Some (st / rt) else None)\<rparr>)"

definition successful_rounds :: "row list \<Rightarrow> row list" where
  "successful_rounds rows =
     filter (\<lambda>r. r (lit ''write_status'') \<in> {Some (VStr (lit ''200'')), Some (VInt 200), Some (VFloat 200)}) rows"

record summary =
  sname :: pystr
  srows :: "row list"
  successful_rows :: "row list"
  write_lat :: latency_summary
  read_lat :: latency_summary
  conv_lat :: latency_summary
  staleness :: staleness_summary

definition build_summary :: "pystr \<Rightarrow> row list \<Rightarrow> summary py_result" where
  "build_summary name rows =
     (let ok_rows = successful_rounds rows in
      bind_result (summarize_latency ok_rows (lit ''write_latency_ms'')) (\<lambda>w.
      bind_result (summarize_latency ok_rows (lit ''read_latency_avg_ms'')) (\<lambda>r.
      bind_result (summarize_latency ok_rows (lit ''convergence_ms'')) (\<lambda>c.
        Inr \<lparr>sname = name, srows = rows, successful_rows = ok_rows, write_lat = w, read_lat = r,
             conv_lat = c, staleness = summarize_staleness ok_rows\<rparr>))))"

subsection \<open>Reports\<close>

definition fmt_ms :: "real option \<Rightarrow> pystr" where
  "fmt_ms v = (case v of None \<Rightarrow> lit ''n/a'' | Some x \<Rightarrow> fmt_2f x @ lit '' ms'')"

definition fmt_rate :: "real option \<Rightarrow> pystr" where
  "fmt_rate v = (case v of None \<Rightarrow> lit ''n/a'' | Some x \<Rightarrow> fmt_2f (x * 100) @ lit ''%'')"

definition ratio :: "real option \<Rightarrow> real option \<Rightarrow> pystr" where
  "ratio distributed colocated =
     (case distributed of
        None \<Rightarrow> lit ''n/a''
      | Some d \<Rightarrow>
          (case colocated of
             None \<Rightarrow> lit ''n/a''
           | Some c \<Rightarrow> if c = 0 then lit ''n/a'' else fmt_2f (d / c) @ lit ''x''))"

definition report_table :: "summary \<Rightarrow> pystr list list" where
  "report_table s =
     [[sname s, str_of_int (int (length (successful_rows s))), fmt_ms (avg (write_lat s)),
       fmt_ms (p95 (write_lat s)), fmt_ms (avg (read_lat s)), fmt_ms (avg (conv_lat s)),
       fmt_rate (rate (staleness s))]]"

definition markdown_lines :: "summary \<Rightarrow> summary \<Rightarrow> pystr list" where
  "markdown_lines colocated distributed =
     (let c_write = avg (write_lat colocated); d_write = avg (write_lat distributed);
          c_read = avg (read_lat colocated); d_read = avg (read_lat distributed);
          c_conv = avg (conv_lat colocated); d_conv = avg (conv_lat distributed)
      in [lit ''# Geo-Distribution Tradeoff Results'',
          [],
          lit ''| Deployment | Successful rounds | Avg write | P95 write | Avg read | Avg convergence | Immediate stale rate |'',
          lit ''|---|---:|---:|---:|---:|---:|---:|''] @
         map (\<lambda>r. lit ''| '' @ join (lit '' | '') r @ lit '' |'')
           (report_table colocated @ report_table distributed) @
         [[],
          lit ''## Comparison'',
          [],
          lit ''- Geo-distributed avg write latency ratio: '' @ ratio d_write c_write,
          lit ''- Geo-distributed avg read latency ratio: '' @ ratio d_read c_read,
          lit ''- Geo-distributed avg convergence ratio: '' @ ratio d_conv c_conv,
          [],
          lit ''## Interpretation Guide'',
          [],
          lit ''- Higher write latency in the geo-distributed setup indicates the cost of cross-region Raft consensus.'',
          lit ''- Lower read latency on nearby replicas would indicate the benefit of client proximity.'',
          lit ''- A higher immediate stale rate means followers are more likely to lag right after a write.'',
          lit ''- Higher convergence time means replicas take longer to observe the latest committed value.'',
          []])"

definition markdown_report :: "summary \<Rightarrow> summary \<Rightarrow> pystr" where
  "markdown_report colocated distributed = join [10] (markdown_lines colocated distributed)"

text \<open>The console report, as the list of printed lines.\<close>

definition print_console_report :: "summary \<Rightarrow> summary \<Rightarrow> pystr list" where
  "print_console_report colocated distributed =
     [replicate 80 61,
      lit ''Geo-Distribution Tradeoff Results'',
      replicate 80 61,
      [],
      lit ''Deployment           Rounds  Avg Write   P95 Write   Avg Read    Avg Conv.   Stale'',
      replicate 80 45] @
     map (\<lambda>s. ljust 20 (sname s) @ [32] @
              rjust 6 (str_of_int (int (length (successful_rows s)))) @ [32, 32] @
              rjust 10 (fmt_ms (avg (write_lat s))) @ [32, 32] @
              rjust 10 (fmt_ms (p95 (write_lat s))) @ [32, 32] @
              rjust 10 (fmt_ms (avg (read_lat s))) @ [32, 32] @
              rjust 10 (fmt_ms (avg (conv_lat s))) @ [32, 32] @
              rjust 8 (fmt_rate (rate (staleness s))))
       [colocated, distributed] @
     [[],
      lit ''Ratios: geo-distributed / co-located'',
      lit ''- Avg write latency: '' @ ratio (avg (write_lat distributed)) (avg (write_lat colocated)),
      lit ''- Avg read latency: '' @ ratio (avg (read_lat distributed)) (avg (read_lat colocated)),
      lit ''- Avg convergence: '' @ ratio (avg (conv_lat distributed)) (avg (conv_lat colocated))]"

text \<open>
  \<^verbatim>\<open>main\<close>: from the readers of the two files and the \<^verbatim>\<open>--output\<close> path to the printed lines
  and the file that is written, if any.
\<close>

definition compare_main ::
  "row list \<Rightarrow> row list \<Rightarrow> pystr \<Rightarrow> (pystr list \<times> (pystr \<times> pystr) option) py_result" where
  "compare_main colocated_reader distributed_reader out =
     bind_result (build_summary (lit ''Co-located'') (load_rows colocated_reader)) (\<lambda>c.
     bind_result (build_summary (lit ''Geo-distributed'') (load_rows distributed_reader)) (\<lambda>d.
       Inr (if out \<noteq> [] then
              (print_console_report c d @ [[], lit ''Wrote report: '' @ out],
               Some (out, markdown_report c d))
            else (print_console_report c d, None))))"

subsection \<open>Interpolation\<close>

definition interp :: "real list \<Rightarrow> real \<Rightarrow> real" where
  "interp xs p =
     (let r = real (length xs - 1) * p; k = nat \<lfloor>r\<rfloor>; w = r - real k
      in xs ! k * (1 - w) + xs ! (min (Suc k) (length xs - 1)) * w)"

lemma rank_bounds:
  assumes "0 \<le> p" "p \<le> 1" "xs \<noteq> []"
  shows "nat \<lfloor>real (length xs - 1) * p\<rfloor> \<le> length xs - 1"
    and "real (nat \<lfloor>real (length xs - 1) * p\<rfloor>) \<le> real (length xs - 1) * p"
    and "real (length xs - 1) * p < real (nat \<lfloor>real (length xs - 1) * p\<rfloor>) + 1"
proof -
  have r: "0 \<le> real (length xs - 1) * p" "real (length xs - 1) * p \<le> real (length xs - 1)"
    using assms by (auto intro: mult_left_le)
  then have "\<lfloor>real (length xs - 1) * p\<rfloor> \<le> int (length xs - 1)"
    by linarith
  then show "nat \<lfloor>real (length xs - 1) * p\<rfloor> \<le> length xs - 1"
    by simp
  have "real (nat \<lfloor>real (length xs - 1) * p\<rfloor>) = of_int \<lfloor>real (length xs - 1) * p\<rfloor>"
    using r(1) by simp
  then show "real (nat \<lfloor>real (length xs - 1) * p\<rfloor>) \<le> real (length xs - 1) * p"
    and "real (length xs - 1) * p < real (nat \<lfloor>real (length xs - 1) * p\<rfloor>) + 1"
    by linarith+
qed

lemma upper_index: "1 \<le> n \<Longrightarrow> min (int k + 1) (int n - 1) = int (min (Suc k) (n - 1))"
  by (auto simp: min_def)

lemma percentile_interp:
  assumes "xs \<noteq> []" "0 \<le> p" "p \<le> 1"
  shows "percentile xs p = Inr (Some (interp xs p))"
proof (cases "length xs = 1")
  case True
  with assms show ?thesis
    by (simp add: percentile_def interp_def)
next
  case False
  define r where "r = real (length xs - 1) * p"
  define k where "k = nat \<lfloor>r\<rfloor>"
  have len: "1 \<le> length xs" "k < length xs"
    using assms rank_bounds(1) [of p xs] by (cases xs; simp add: k_def r_def less_Suc_eq_le)+
  have "int_of_float r = int k"
    using assms by (simp add: int_of_float_def k_def r_def)
  moreover have "min (Suc k) (length xs - 1) < length xs"
    using len by auto
  ultimately show ?thesis
    using assms(1) False len
    unfolding percentile_def interp_def Let_def r_def [symmetric] k_def [symmetric]
    by (simp add: upper_index)
qed

lemma interp_between:
  assumes "sorted xs" "xs \<noteq> []" "0 \<le> p" "p \<le> 1"
  shows "xs ! nat \<lfloor>real (length xs - 1) * p\<rfloor> \<le> interp xs p"
    and "interp xs p \<le> xs ! min (Suc (nat \<lfloor>real (length xs - 1) * p\<rfloor>)) (length xs - 1)"
proof -
  define r where "r = real (length xs - 1) * p"
  define k where "k = nat \<lfloor>r\<rfloor>"
  define a where "a = xs ! k"
  define b where "b = xs ! min (Suc k) (length xs - 1)"
  have k: "k \<le> length xs - 1" "real k \<le> r" "r < real k + 1"
    using rank_bounds [OF assms(3,4,2)] by (simp_all add: k_def r_def)
  have "length xs - 1 < length xs"
    using assms(2) by simp
  then have ab: "a \<le> b"
    using assms(1) k(1) unfolding a_def b_def by (intro sorted_nth_mono) auto
  have i: "interp xs p = a + (b - a) * (r - real k)"
    unfolding interp_def Let_def r_def [symmetric] k_def [symmetric] a_def b_def
    by (simp add: algebra_simps)
  have "0 \<le> (b - a) * (r - real k)" "(b - a) * (r - real k) \<le> b - a"
    using ab k by (auto intro: mult_left_le)
  with i show "xs ! nat \<lfloor>real (length xs - 1) * p\<rfloor> \<le> interp xs p"
    and "interp xs p \<le> xs ! min (Suc (nat \<lfloor>real (length xs - 1) * p\<rfloor>)) (length xs - 1)"
    unfolding r_def [symmetric] k_def [symmetric] a_def [symmetric] b_def [symmetric] by linarith+
qed

lemma interp_mono:
  assumes "sorted xs" "xs \<noteq> []" "0 \<le> p" "p \<le> q" "q \<le> 1"
  shows "interp xs p \<le> interp xs q"
proof -
  define n where "n = length xs - 1"
  define k where "k = (\<lambda>p. nat \<lfloor>real n * p\<rfloor>)"
  have q: "0 \<le> q" and p: "p \<le> 1"
    using assms by auto
  have n: "n < length xs"
    using assms(2) by (simp add: n_def)
  have rp: "real n * p \<le> real n * q"
    using assms(4) by (simp add: mult_left_mono)
  then have kk: "k p \<le> k q"
    unfolding k_def by (intro nat_mono floor_mono)
  show ?thesis
  proof (cases "k p = k q")
    case True
    let ?a = "xs ! k q" and ?b = "xs ! min (Suc (k q)) n"
    have "?a \<le> ?b"
      using assms(1) n rank_bounds(1) [OF q assms(5) assms(2)]
      by (intro sorted_nth_mono) (auto simp: k_def n_def)
    then have "(?b - ?a) * (real n * p - real (k q)) \<le> (?b - ?a) * (real n * q - real (k q))"
      using rp by (intro mult_left_mono) auto
    moreover have "interp xs x = xs ! k x + (xs ! min (Suc (k x)) n - xs ! k x) * (real n * x - real (k x))"
      for x
      unfolding interp_def Let_def k_def n_def by (simp add: algebra_simps)
    ultimately show ?thesis
      using True by simp
  next
    case False
    with kk have "min (Suc (k p)) n \<le> k q"
      by simp
    moreover have "k q < length xs"
      using rank_bounds(1) [OF q assms(5,2)] n by (simp add: k_def n_def)
    ultimately have "xs ! min (Suc (k p)) n \<le> xs ! k q"
      using assms(1) by (intro sorted_nth_mono)
    then show ?thesis
      using interp_between(2) [OF assms(1-3) p] interp_between(1) [OF assms(1,2) q assms(5)]
      by (simp add: k_def n_def)
  qed
qed

lemma interp_half: "xs \<noteq> [] \<Longrightarrow> sorted xs \<Longrightarrow> median xs = Inr (interp xs (50 / 100))"
proof -
  assume ne: "xs \<noteq> []" and srt: "sorted xs"
  define n where "n = length xs"
  have s: "sort xs = xs" and n: "0 < n"
    using ne srt by (simp_all add: sorted_sort_id n_def)
  show ?thesis
  proof (cases "even n")
    case True
    define m where "m = n div 2 - 1"
    have m: "n = 2 * Suc m"
      using True n unfolding m_def by (auto elim!: evenE)
    then have r: "real (length xs - 1) * (50 / 100) = real m + 1 / 2"
      by (simp add: n_def)
    have k: "nat \<lfloor>real m + 1 / 2\<rfloor> = m"
      by linarith
    have "interp xs (50 / 100) = (xs ! m + xs ! Suc m) / 2"
      unfolding interp_def Let_def r k using m by (simp add: n_def field_simps)
    moreover have "median xs = Inr ((xs ! m + xs ! Suc m) / 2)"
      using m unfolding median_def Let_def s n_def [symmetric] by simp
    ultimately show ?thesis
      by simp
  next
    case False
    then obtain m where m: "n = 2 * m + 1"
      by (rule oddE)
    then have r: "real (length xs - 1) * (50 / 100) = real m"
      by (simp add: n_def)
    have "interp xs (50 / 100) = xs ! m"
      unfolding interp_def Let_def r by simp
    moreover have "median xs = Inr (xs ! m)"
      using m unfolding median_def Let_def s n_def [symmetric] by simp
    ultimately show ?thesis
      by simp
  qed
qed

subsection \<open>Lemmas on rows\<close>

lemma parse_field_other: "f \<noteq> g \<Longrightarrow> parse_field g r f = r f"
  by (auto simp: parse_field_def split: option.splits)

lemma parse_field_same:
  "parse_field f r f = map_option (\<lambda>v. case to_float v of None \<Rightarrow> VNone | Some x \<Rightarrow> VFloat x) (r f)"
  by (auto simp: parse_field_def split: option.splits)

lemma fold_parse_field:
  "distinct fs \<Longrightarrow> fold parse_field fs r f =
     (if f \<in> set fs then map_option (\<lambda>v. case to_float v of None \<Rightarrow> VNone | Some x \<Rightarrow> VFloat x) (r f)
      else r f)"
proof (induction fs arbitrary: r)
  case Nil
  then show ?case by simp
next
  case (Cons g fs)
  then show ?case
    by (cases "f = g") (auto simp: parse_field_other parse_field_same)
qed

lemma NUMERIC_FIELDS_distinct: "distinct NUMERIC_FIELDS"
  by (simp add: NUMERIC_FIELDS_def lit_def)

lemma summarize_latency_nonempty:
  assumes "field_values rows f \<noteq> []"
  shows "\<exists>mn q50 q95 mx m.
    summarize_latency rows f =
      Inr \<lparr>lcount = length (field_values rows f), avg = Some m, p50 = Some q50, p95 = Some q95,
           lmin = Some mn, lmax = Some mx\<rparr> \<and>
    mn \<le> q50 \<and> q50 \<le> q95 \<and> q95 \<le> mx \<and> mn \<le> m \<and> m \<le> mx"
proof -
  define vals where "vals = sort (field_values rows f)"
  have srt: "sorted vals" and len: "length vals = length (field_values rows f)"
    by (simp_all add: vals_def)
  then have ne: "vals \<noteq> []"
    using assms by (metis length_0_conv)
  obtain mn where mn: "py_min vals = Inr mn" "\<forall>x \<in> set vals. mn \<le> x"
    using py_min_Inr [OF ne] by blast
  obtain mx where mx: "py_max vals = Inr mx" "\<forall>x \<in> set vals. x \<le> mx"
    using py_max_Inr [OF ne] by blast
  obtain m where m: "mean vals = Inr m" "mn \<le> m" "m \<le> mx"
    using mean_bounds [OF ne, of mn mx] mn mx by blast
  have last: "length vals - 1 < length vals"
    using ne by simp
  have "mn \<le> vals ! nat \<lfloor>real (length vals - 1) * (50 / 100)\<rfloor>"
    using mn(2) rank_bounds(1) [of "50 / 100" vals] ne last by (intro bspec [OF mn(2)] nth_mem) linarith
  then have lo: "mn \<le> interp vals (50 / 100)"
    using interp_between(1) [OF srt ne, of "50 / 100"] by linarith
  have "vals ! min (Suc (nat \<lfloor>real (length vals - 1) * (95 / 100)\<rfloor>)) (length vals - 1) \<le> mx"
    using last by (intro bspec [OF mx(2)] nth_mem) linarith
  then have hi: "interp vals (95 / 100) \<le> mx"
    using interp_between(2) [OF srt ne, of "95 / 100"] by linarith
  have mid: "interp vals (50 / 100) \<le> interp vals (95 / 100)"
    by (rule interp_mono [OF srt ne]) simp_all
  have "summarize_latency rows f =
      Inr \<lparr>lcount = length (field_values rows f), avg = Some m, p50 = Some (interp vals (50 / 100)),
           p95 = Some (interp vals (95 / 100)), lmin = Some mn, lmax = Some mx\<rparr>"
    using ne mn(1) mx(1) m(1) percentile_interp [OF ne]
    unfolding summarize_latency_def Let_def vals_def [symmetric] by (simp add: len)
  with lo mid hi m show ?thesis by blast
qed

lemma summarize_latency_empty:
  "field_values rows f = [] \<Longrightarrow> summarize_latency rows f =
     Inr \<lparr>lcount = 0, avg = None, p50 = None, p95 = None, lmin = None, lmax = None\<rparr>"
  by (simp add: summarize_latency_def)

lemma summarize_latency_total: "\<exists>s. summarize_latency rows f = Inr s"
  using summarize_latency_nonempty [of rows f] summarize_latency_empty [of rows f] by blast

lemma build_summary_total:
  "\<exists>s. build_summary name rows = Inr s \<and> sname s = name \<and>
       successful_rows s = successful_rounds rows"
proof -
  let ?ok = "successful_rounds rows"
  obtain w r c where "summarize_latency ?ok (lit ''write_latency_ms'') = Inr w"
    "summarize_latency ?ok (lit ''read_latency_avg_ms'') = Inr r"
    "summarize_latency ?ok (lit ''convergence_ms'') = Inr c"
    using summarize_latency_total by metis
  then show ?thesis
    by (simp add: build_summary_def Let_def)
qed

subsection \<open>Properties\<close>



text \<open>
  The 50th percentile of the comparison script is the median that the measurement script
  takes from \<^verbatim>\<open>statistics\<close>, for every non-empty list of latencies.
\<close>

lemma percentile_half_is_median:
  assumes "xs \<noteq> []"
  shows "\<exists>m. percentile (sort xs) (50 / 100) = Inr (Some m) \<and> median xs = Inr m"
proof -
  have ne: "sort xs \<noteq> []"
    using assms by (metis length_0_conv length_sort)
  have "median xs = median (sort xs)"
    by (simp add: median_def sorted_sort_id)
  then show ?thesis
    using percentile_interp [OF ne, of "50 / 100"] interp_half [OF ne] by simp
qed

text \<open>
  \<^verbatim>\<open>summarize_latency\<close> never raises. Without data every statistic is \<^verbatim>\<open>None\<close>; with data
  the count is the number of values and minimum, median, 95th percentile and maximum are in
  that order, with the mean between minimum and maximum.
\<close>

lemma summarize_latency_ordered:
  "(field_values rows f = [] \<longrightarrow> summarize_latency rows f =
      Inr \<lparr>lcount = 0, avg = None, p50 = None, p95 = None, lmin = None, lmax = None\<rparr>) \<and>
   (field_values rows f \<noteq> [] \<longrightarrow>
     (\<exists>mn q50 q95 mx m.
        summarize_latency rows f =
          Inr \<lparr>lcount = length (field_values rows f), avg = Some m, p50 = Some q50,
               p95 = Some q95, lmin = Some mn, lmax = Some mx\<rparr> \<and>
        mn \<le> q50 \<and> q50 \<le> q95 \<and> q95 \<le> mx \<and> mn \<le> m \<and> m \<le> mx))"
  using summarize_latency_empty summarize_latency_nonempty by blast

text \<open>
  If in every row the number of stale reads is between 0 and the number of replicas, the
  stale rate is a fraction between 0 and 1, and it is \<^verbatim>\<open>None\<close> exactly when no reads were
  counted (the division is never by zero).
\<close>

lemma staleness_rate_is_fraction:
  assumes "\<forall>r \<in> set rows. \<exists>st n. r (lit ''immediate_stale_reads'') = Some (VFloat st) \<and>
      r (lit ''replica_count'') = Some (VFloat n) \<and> 0 \<le> st \<and> st \<le> n"
  shows "(read_total (summarize_staleness rows) = 0 \<and> rate (summarize_staleness rows) = None) \<or>
    (\<exists>x. read_total (summarize_staleness rows) > 0 \<and>
       rate (summarize_staleness rows) = Some x \<and> 0 \<le> x \<and> x \<le> 1)"
proof -
  have "0 \<le> sum_list (field_values rows (lit ''immediate_stale_reads'')) \<and>
    sum_list (field_values rows (lit ''immediate_stale_reads''))
      \<le> sum_list (field_values rows (lit ''replica_count''))"
    using assms by (induction rows) (fastforce simp: field_values_def)+
  then show ?thesis
    by (auto simp: summarize_staleness_def Let_def)
qed


text \<open>
  \<^verbatim>\<open>load_rows\<close> turns exactly the numeric columns that are present into floats (or \<^verbatim>\<open>None\<close>
  when the cell is empty, missing or not a number), keeps every other cell, and keeps the
  rows in order.
\<close>

lemma load_rows_fields:
  assumes "i < length reader"
  shows "length (load_rows reader) = length reader \<and>
    (load_rows reader ! i) f =
      (if f \<in> set NUMERIC_FIELDS
       then map_option (\<lambda>v. case to_float v of None \<Rightarrow> VNone | Some x \<Rightarrow> VFloat x) ((reader ! i) f)
       else (reader ! i) f)"
  using assms by (simp add: load_rows_def fold_parse_field [OF NUMERIC_FIELDS_distinct])

end
