(* ===== verification/Client_IO.thy ===== *)
theory Client_IO
  imports Py_Numbers
begin

text \<open>
  What the measurement scripts see of the outside: HTTP requests (the third-party
  \<^verbatim>\<open>requests\<close> package and the servers behind it), the clock, \<^verbatim>\<open>time.sleep\<close> and \<^verbatim>\<open>uuid4\<close>. All
  of it is one record of functions on an abstract world \<open>'w\<close>, passed to every function that
  uses it; a locale states what a clock promises.
\<close>

subsection \<open>JSON values as Python sees them\<close>

datatype json =
    JNull
  | JBool bool
  | JInt int
  | JFloat real
  | JStr pystr
  | JList "json list"
  | JObj "(pystr \<times> json) list"

text \<open>\<^verbatim>\<open>dict.get\<close>: the last of several equal keys wins, a missing key gives \<^verbatim>\<open>None\<close>.\<close>

definition dict_get :: "(pystr \<times> json) list \<Rightarrow> pystr \<Rightarrow> json" where
  "dict_get kvs k = (case map_of (rev kvs) k of None \<Rightarrow> JNull | Some v \<Rightarrow> v)"

fun truthy :: "json \<Rightarrow> bool" where
  "truthy JNull = False"
| "truthy (JBool b) = b"
| "truthy (JInt i) = (i \<noteq> 0)"
| "truthy (JFloat x) = (x \<noteq> 0)"
| "truthy (JStr s) = (s \<noteq> [])"
| "truthy (JList xs) = (xs \<noteq> [])"
| "truthy (JObj kvs) = (kvs \<noteq> [])"

subsection \<open>Requests and the world\<close>

datatype http_method = GET | PUT | DELETE

record http_request =
  hmethod :: http_method
  hurl :: pystr
  hjson :: "json option"

text \<open>
  A response carries its status and its body, \<^const>\<open>None\<close> when the body is not JSON
  (\<^verbatim>\<open>resp.json()\<close> raises \<^verbatim>\<open>ValueError\<close>); a transport failure is a \<^verbatim>\<open>RequestException\<close>.
\<close>

datatype http_outcome =
    Response int "json option"
  | RequestException pystr

record 'w client_io =
  http :: "http_request \<Rightarrow> real \<Rightarrow> 'w \<Rightarrow> http_outcome \<times> 'w"
  perf_counter :: "'w \<Rightarrow> real \<times> 'w"
  sleep :: "real \<Rightarrow> 'w \<Rightarrow> 'w"
  uuid4_hex :: "'w \<Rightarrow> pystr \<times> 'w"

subsection \<open>The contract of a clock\<close>

text \<open>
  \<open>now\<close> is the reading the clock would give. \<^verbatim>\<open>time.perf_counter\<close> returns it; no operation
  turns it back; \<^verbatim>\<open>time.sleep(d)\<close> advances it by at least \<open>d\<close>.
\<close>

locale clocked_io =
  fixes io :: "'w client_io" and now :: "'w \<Rightarrow> real"
  assumes perf_counter_reads: "fst (perf_counter io w) = now w"
    and perf_counter_forward: "now w \<le> now (snd (perf_counter io w))"
    and http_forward: "now w \<le> now (snd (http io req timeout w))"
    and uuid_forward: "now w \<le> now (snd (uuid4_hex io w))"
    and sleep_advances: "now w + d \<le> now (sleep io d w)"

text \<open>Each turn of a polling loop brings the deadline closer by the poll interval.\<close>

lemma deadline_closer:
  assumes "0 < d" "t + d \<le> t'" "t < deadline"
  shows "nat \<lceil>(deadline - t') / d\<rceil> < nat \<lceil>(deadline - t :: real) / d\<rceil>"
proof -
  have "(deadline - t') / d \<le> (deadline - t - d) / d"
    using assms by (intro divide_right_mono) auto
  also have "\<dots> = (deadline - t) / d - 1"
    using assms(1) by (simp add: diff_divide_distrib)
  finally have "\<lceil>(deadline - t') / d\<rceil> \<le> \<lceil>(deadline - t) / d\<rceil> - 1"
    by linarith
  moreover have "0 < \<lceil>(deadline - t) / d\<rceil>"
    using assms by simp
  ultimately show ?thesis
    by linarith
qed

end
