(* ===== verification/Geo_Experiment.thy ===== *)
theory Geo_Experiment
  imports Client_IO
begin

text \<open>
  \<^verbatim>\<open>infrastructure/experiments/geo_colocated/experiment.py\<close> (the file in
  \<^verbatim>\<open>geo_distributed\<close> is the same text): leader discovery, writes and reads over HTTP, the
  convergence wait, the measurement loop and its summary. Printing is left out; every value
  that reaches the result rows or the summary is modelled.
\<close>

subsection \<open>Requests\<close>

text \<open>The four results: status code, body (\<^verbatim>\<open>None\<close> as \<^const>\<open>JNull\<close>), elapsed time, error text.\<close>

type_synonym reply = "int option \<times> json \<times> real \<times> pystr option"

definition request_json :: "'w client_io \<Rightarrow> http_request \<Rightarrow> real \<Rightarrow> 'w \<Rightarrow> reply \<times> 'w" where
  "request_json io req timeout w =
     (let (start, w) = perf_counter io w;
          (outcome, w) = http io req timeout w;
          (stop, w) = perf_counter io w;
          elapsed_ms = (stop - start) * 1000
      in case outcome of
           Response code body \<Rightarrow>
             ((Some code, (case body of None \<Rightarrow> JNull | Some b \<Rightarrow> b), elapsed_ms, None), w)
         | RequestException exc \<Rightarrow> ((None, JNull, elapsed_ms, Some exc), w))"

definition get_status ::
  "'w client_io \<Rightarrow> pystr \<Rightarrow> real \<Rightarrow> 'w \<Rightarrow> ((pystr \<times> json) list option \<times> real \<times> pystr option) \<times> 'w" where
  "get_status io node timeout w =
     (let ((code, body, latency_ms, err), w) =
            request_json io \<lparr>hmethod = GET, hurl = node @ lit ''/status'', hjson = None\<rparr> timeout w
      in case body of
           JObj kvs \<Rightarrow> if code \<noteq> Some 200 then ((None, latency_ms, err), w)
                      else ((Some kvs, latency_ms, None), w)
         | _ \<Rightarrow> ((None, latency_ms, err), w))"

record node_status =
  nstatus :: "(pystr \<times> json) list option"
  nlatency_ms :: real
  nerror :: "pystr option"

text \<open>\<^verbatim>\<open>status and status.get("isLeader")\<close>: an empty object is false.\<close>

definition reports_leader :: "(pystr \<times> json) list option \<Rightarrow> bool" where
  "reports_leader st =
     (case st of None \<Rightarrow> False | Some kvs \<Rightarrow> kvs \<noteq> [] \<and> truthy (dict_get kvs (lit ''isLeader'')))"

fun find_leader_from ::
  "'w client_io \<Rightarrow> real \<Rightarrow> pystr list \<Rightarrow> (pystr \<rightharpoonup> node_status) \<Rightarrow> 'w \<Rightarrow>
     (pystr option \<times> (pystr \<rightharpoonup> node_status)) \<times> 'w" where
  "find_leader_from io timeout [] statuses w = ((None, statuses), w)"
| "find_leader_from io timeout (node # nodes) statuses w =
     (let ((status, latency_ms, err), w) = get_status io node timeout w;
          statuses = statuses(node \<mapsto>
            \<lparr>nstatus = status, nlatency_ms = latency_ms, nerror = err\<rparr>)
      in if reports_leader status then ((Some node, statuses), w)
         else find_leader_from io timeout nodes statuses w)"

definition find_leader ::
  "'w client_io \<Rightarrow> pystr list \<Rightarrow> real \<Rightarrow> 'w \<Rightarrow> (pystr option \<times> (pystr \<rightharpoonup> node_status)) \<times> 'w" where
  "find_leader io nodes timeout w = find_leader_from io timeout nodes Map.empty w"

definition put_key :: "'w client_io \<Rightarrow> pystr \<Rightarrow> pystr \<Rightarrow> pystr \<Rightarrow> real \<Rightarrow> 'w \<Rightarrow> reply \<times> 'w" where
  "put_key io leader key value timeout w =
     request_json io
       \<lparr>hmethod = PUT, hurl = leader @ lit ''/v1/keys/'' @ key,
        hjson = Some (JObj [(lit ''value'', JStr value)])\<rparr> timeout w"

text \<open>The value is \<^const>\<open>JNull\<close> (Python's \<^verbatim>\<open>None\<close>) unless the body is an object that has one.\<close>

definition get_key ::
  "'w client_io \<Rightarrow> pystr \<Rightarrow> pystr \<Rightarrow> real \<Rightarrow> 'w \<Rightarrow> (int option \<times> json \<times> real \<times> pystr option) \<times> 'w" where
  "get_key io node key timeout w =
     (let ((code, body, latency_ms, err), w) =
            request_json io
              \<lparr>hmethod = GET, hurl = node @ lit ''/v1/keys/'' @ key, hjson = None\<rparr> timeout w;
          value = (case body of JObj kvs \<Rightarrow> dict_get kvs (lit ''value'') | _ \<Rightarrow> JNull)
      in ((code, value, latency_ms, err), w))"

subsection \<open>Waiting for convergence\<close>

record node_read =
  rstatus :: "int option"
  rvalue :: json
  rlatency_ms :: real
  rerror :: "pystr option"

definition sees :: "node_read \<Rightarrow> pystr \<Rightarrow> bool" where
  "sees r value \<longleftrightarrow> rstatus r = Some 200 \<and> rvalue r = JStr value"

text \<open>One pass of the inner loop over all nodes.\<close>

fun poll_nodes ::
  "'w client_io \<Rightarrow> pystr \<Rightarrow> pystr \<Rightarrow> real \<Rightarrow> pystr list \<Rightarrow> bool \<Rightarrow> (pystr \<rightharpoonup> node_read) \<Rightarrow> 'w \<Rightarrow>
     (bool \<times> (pystr \<rightharpoonup> node_read)) \<times> 'w" where
  "poll_nodes io key value request_timeout [] all_visible latest w = ((all_visible, latest), w)"
| "poll_nodes io key value request_timeout (node # nodes) all_visible latest w =
     (let ((code, got, latency_ms, err), w) = get_key io node key request_timeout w;
          latest = latest(node \<mapsto>
            \<lparr>rstatus = code, rvalue = got, rlatency_ms = latency_ms, rerror = err\<rparr>)
      in poll_nodes io key value request_timeout nodes
           (if code \<noteq> Some 200 \<or> got \<noteq> JStr value then False else all_visible) latest w)"

text \<open>The \<^verbatim>\<open>while\<close> loop; \<^const>\<open>None\<close> would mean that it never returns.\<close>

partial_function (option) wait_loop ::
  "'w client_io \<Rightarrow> pystr list \<Rightarrow> pystr \<Rightarrow> pystr \<Rightarrow> real \<Rightarrow> real \<Rightarrow> real \<Rightarrow> real \<Rightarrow>
     (pystr \<rightharpoonup> node_read) \<Rightarrow> 'w \<Rightarrow> ((real option \<times> (pystr \<rightharpoonup> node_read)) \<times> 'w) option" where
  "wait_loop io nodes key value start deadline poll_interval request_timeout latest w =
     (if fst (perf_counter io w) < deadline then
        (let pr = poll_nodes io key value request_timeout nodes True latest (snd (perf_counter io w))
         in if fst (fst pr) then
              (let r = perf_counter io (snd pr)
               in Some ((Some ((fst r - start) * 1000), snd (fst pr)), snd r))
            else wait_loop io nodes key value start deadline poll_interval request_timeout
                   (snd (fst pr)) (sleep io poll_interval (snd pr)))
      else Some ((None, latest), snd (perf_counter io w)))"

definition wait_until_all_visible ::
  "'w client_io \<Rightarrow> pystr list \<Rightarrow> pystr \<Rightarrow> pystr \<Rightarrow> real \<Rightarrow> real \<Rightarrow> real \<Rightarrow> 'w \<Rightarrow>
     ((real option \<times> (pystr \<rightharpoonup> node_read)) \<times> 'w) option" where
  "wait_until_all_visible io nodes key value timeout poll_interval request_timeout w =
     (let (start, w) = perf_counter io w
      in wait_loop io nodes key value start (start + timeout) poll_interval request_timeout Map.empty w)"

subsection \<open>Statistics\<close>

definition summarize :: "real list \<Rightarrow> pystr py_result" where
  "summarize vs =
     (if vs = [] then Inr (lit ''n/a'')
      else bind_result (mean vs) (\<lambda>a. bind_result (median vs) (\<lambda>m.
           bind_result (py_min vs) (\<lambda>mn. bind_result (py_max vs) (\<lambda>mx.
             Inr (lit ''avg='' @ fmt_2f a @ lit ''ms p50='' @ fmt_2f m @ lit ''ms min='' @
                  fmt_2f mn @ lit ''ms max='' @ fmt_2f mx @ lit ''ms''))))))"

definition aggregate :: "real list \<Rightarrow> (real option \<times> real option \<times> real option) py_result" where
  "aggregate vs =
     (if vs = [] then Inr (None, None, None)
      else bind_result (mean vs) (\<lambda>a. bind_result (py_min vs) (\<lambda>mn. bind_result (py_max vs) (\<lambda>mx.
             Inr (Some a, Some mn, Some mx)))))"

subsection \<open>The measurement loop\<close>

record geo_args =
  arg_nodes :: "pystr list"
  arg_rounds :: int
  arg_timeout :: real
  arg_convergence_timeout :: real
  arg_poll_interval :: real

text \<open>The reads right after the write: the number of stale ones and every latency.\<close>

fun immediate_reads ::
  "'w client_io \<Rightarrow> pystr \<Rightarrow> pystr \<Rightarrow> real \<Rightarrow> pystr list \<Rightarrow> int \<Rightarrow> real list \<Rightarrow> 'w \<Rightarrow>
     (int \<times> real list) \<times> 'w" where
  "immediate_reads io key value timeout [] stale latencies w = ((stale, latencies), w)"
| "immediate_reads io key value timeout (node # nodes) stale latencies w =
     (let ((code, got, latency_ms, err), w) = get_key io node key timeout w
      in immediate_reads io key value timeout nodes
           (if code \<noteq> Some 200 \<or> got \<noteq> JStr value then stale + 1 else stale)
           (latencies @ [latency_ms]) w)"

definition opt_val :: "real option \<Rightarrow> pyval" where
  "opt_val v = (case v of None \<Rightarrow> VNone | Some x \<Rightarrow> VFloat x)"

definition no_leader_row :: "int \<Rightarrow> nat \<Rightarrow> row" where
  "no_leader_row round_num replicas =
     [lit ''round'' \<mapsto> VInt round_num, lit ''leader'' \<mapsto> VStr [], lit ''write_status'' \<mapsto> VStr [],
      lit ''write_latency_ms'' \<mapsto> VStr [], lit ''immediate_stale_reads'' \<mapsto> VStr [],
      lit ''replica_count'' \<mapsto> VInt (int replicas), lit ''convergence_ms'' \<mapsto> VStr [],
      lit ''error'' \<mapsto> VStr (lit ''no leader'')]"

definition run_round :: "'w client_io \<Rightarrow> geo_args \<Rightarrow> int \<Rightarrow> 'w \<Rightarrow> (row \<times> 'w) py_result option" where
  "run_round io args round_num w =
     (let ((leader, statuses), w) = find_leader io (arg_nodes args) (arg_timeout args) w
      in case leader of
           None \<Rightarrow> Some (Inr (no_leader_row round_num (length (arg_nodes args)), sleep io (25 / 100) w))
         | Some leader \<Rightarrow>
            if leader = []
            then Some (Inr (no_leader_row round_num (length (arg_nodes args)), sleep io (25 / 100) w))
            else
            (let (h1, w) = uuid4_hex io w;
                 (h2, w) = uuid4_hex io w;
                 key = lit ''geo-'' @ str_of_int round_num @ lit ''-'' @ take 8 h1;
                 value = lit ''value-'' @ h2;
                 ((write_code, _, write_latency_ms, write_err), w) =
                   put_key io leader key value (arg_timeout args) w;
                 ((stale, latencies), w) =
                   immediate_reads io key value (arg_timeout args) (arg_nodes args) 0 [] w
             in case aggregate latencies of
                  Inl e \<Rightarrow> Some (Inl e)
                | Inr (read_avg, read_min, read_max) \<Rightarrow>
                   (case wait_until_all_visible io (arg_nodes args) key value
                           (arg_convergence_timeout args) (arg_poll_interval args) (arg_timeout args) w of
                      None \<Rightarrow> None
                    | Some ((convergence_ms, _), w) \<Rightarrow>
                        Some (Inr (
                          [lit ''round'' \<mapsto> VInt round_num,
                           lit ''leader'' \<mapsto> VStr leader,
                           lit ''write_status'' \<mapsto> (case write_code of None \<Rightarrow> VNone | Some c \<Rightarrow> VInt c),
                           lit ''write_latency_ms'' \<mapsto> VFloat write_latency_ms,
                           lit ''immediate_stale_reads'' \<mapsto> VInt stale,
                           lit ''replica_count'' \<mapsto> VInt (int (length (arg_nodes args))),
                           lit ''read_latency_avg_ms'' \<mapsto> opt_val read_avg,
                           lit ''read_latency_min_ms'' \<mapsto> opt_val read_min,
                           lit ''read_latency_max_ms'' \<mapsto> opt_val read_max,
                           lit ''convergence_ms'' \<mapsto> opt_val convergence_ms,
                           lit ''error'' \<mapsto> VStr (case write_err of None \<Rightarrow> [] | Some e \<Rightarrow> e)],
                          w)))))"

fun run_rounds :: "'w client_io \<Rightarrow> geo_args \<Rightarrow> int list \<Rightarrow> 'w \<Rightarrow> (row list \<times> 'w) py_result option" where
  "run_rounds io args [] w = Some (Inr ([], w))"
| "run_rounds io args (r # rs) w =
     (case run_round io args r w of
        None \<Rightarrow> None
      | Some (Inl e) \<Rightarrow> Some (Inl e)
      | Some (Inr (row, w)) \<Rightarrow>
          (case run_rounds io args rs w of
             None \<Rightarrow> None
           | Some (Inl e) \<Rightarrow> Some (Inl e)
           | Some (Inr (rows, w)) \<Rightarrow> Some (Inr (row # rows, w))))"

subsection \<open>The result file and the summary\<close>

definition fieldnames :: "pystr list" where
  "fieldnames =
     [lit ''round'', lit ''leader'', lit ''write_status'', lit ''write_latency_ms'',
      lit ''immediate_stale_reads'', lit ''replica_count'', lit ''read_latency_avg_ms'',
      lit ''read_latency_min_ms'', lit ''read_latency_max_ms'', lit ''convergence_ms'', lit ''error'']"

text \<open>\<^verbatim>\<open>DictWriter.writerows\<close>: one cell per field name, an empty one for a missing key.\<close>

definition csv_cells :: "row \<Rightarrow> pyval list" where
  "csv_cells r = map (\<lambda>f. case r f of None \<Rightarrow> VStr [] | Some v \<Rightarrow> v) fieldnames"

text \<open>\<^verbatim>\<open>row[f]\<close> for every row, kept when it is a number; a missing key raises.\<close>

fun numbers :: "row list \<Rightarrow> pystr \<Rightarrow> real list py_result" where
  "numbers [] f = Inr []"
| "numbers (r # rs) f =
     (case r f of
        None \<Rightarrow> Inl KeyError
      | Some v \<Rightarrow> bind_result (numbers rs f) (\<lambda>xs.
          Inr (case v of VInt i \<Rightarrow> of_int i # xs | VFloat x \<Rightarrow> x # xs | _ \<Rightarrow> xs)))"

definition numbers_get :: "row list \<Rightarrow> pystr \<Rightarrow> real list" where
  "numbers_get rs f =
     List.map_filter (\<lambda>r. case r f of Some (VInt i) \<Rightarrow> Some (of_int i) | Some (VFloat x) \<Rightarrow> Some x
                                    | _ \<Rightarrow> None) rs"

fun sum_ints :: "row list \<Rightarrow> pystr \<Rightarrow> int py_result" where
  "sum_ints [] f = Inr 0"
| "sum_ints (r # rs) f =
     (case r f of
        None \<Rightarrow> Inl KeyError
      | Some v \<Rightarrow> bind_result (sum_ints rs f) (\<lambda>n.
          Inr (case v of VInt i \<Rightarrow> i + n | _ \<Rightarrow> n)))"

record geo_report =
  csv_rows :: "pyval list list"
  write_line :: pystr
  read_line :: pystr
  convergence_line :: pystr
  stale_line :: "(int \<times> int) option"

definition report :: "row list \<Rightarrow> geo_report py_result" where
  "report rows =
     bind_result (numbers rows (lit ''write_latency_ms'')) (\<lambda>write_latencies.
     bind_result (numbers rows (lit ''convergence_ms'')) (\<lambda>convergence.
     bind_result (sum_ints rows (lit ''immediate_stale_reads'')) (\<lambda>stale_total.
     bind_result (sum_ints rows (lit ''replica_count'')) (\<lambda>read_attempts.
     bind_result (summarize write_latencies) (\<lambda>wl.
     bind_result (summarize (numbers_get rows (lit ''read_latency_avg_ms''))) (\<lambda>rl.
     bind_result (summarize convergence) (\<lambda>cl.
       Inr \<lparr>csv_rows = map csv_cells rows, write_line = wl, read_line = rl, convergence_line = cl,
            stale_line = (if read_attempts \<noteq> 0 then Some (stale_total, read_attempts) else None)\<rparr>)))))))"

definition geo_main :: "'w client_io \<Rightarrow> geo_args \<Rightarrow> 'w \<Rightarrow> (geo_report \<times> 'w) py_result option" where
  "geo_main io args w =
     (case run_rounds io args [1..arg_rounds args] w of
        None \<Rightarrow> None
      | Some (Inl e) \<Rightarrow> Some (Inl e)
      | Some (Inr (rows, w)) \<Rightarrow> Some (bind_result (report rows) (\<lambda>r. Inr (r, w))))"

subsection \<open>Leader discovery\<close>

lemma find_leader_from_frame:
  "find_leader_from io t ns st w = ((l, st'), w') \<Longrightarrow> m \<notin> set ns \<Longrightarrow> st' m = st m"
proof (induction ns arbitrary: st w)
  case Nil
  then show ?case by simp
next
  case (Cons n ns)
  then show ?case
    by (fastforce simp: Let_def split: prod.splits if_splits)
qed

lemma find_leader_from_None:
  "find_leader_from io t ns st w = ((None, st'), w') \<Longrightarrow> distinct ns \<Longrightarrow> m \<in> set ns \<Longrightarrow>
     \<exists>s. st' m = Some s \<and> \<not> reports_leader (nstatus s)"
proof (induction ns arbitrary: st w)
  case Nil
  then show ?case by simp
next
  case (Cons n ns)
  obtain status ms err w1 where g: "get_status io n t w = ((status, ms, err), w1)"
    by (cases "get_status io n t w") auto
  with Cons.prems have rest: "\<not> reports_leader status"
    "find_leader_from io t ns (st(n \<mapsto> \<lparr>nstatus = status, nlatency_ms = ms, nerror = err\<rparr>)) w1 =
       ((None, st'), w')"
    by (auto simp: Let_def split: if_splits)
  show ?case
  proof (cases "m = n")
    case True
    with rest Cons.prems find_leader_from_frame [OF rest(2), of n] show ?thesis by simp
  next
    case False
    with Cons.IH [OF rest(2)] Cons.prems show ?thesis by simp
  qed
qed

lemma find_leader_from_Some:
  "find_leader_from io t ns st w = ((Some l, st'), w') \<Longrightarrow> distinct ns \<Longrightarrow>
     \<exists>pre post s. ns = pre @ l # post \<and> st' l = Some s \<and> reports_leader (nstatus s) \<and>
       (\<forall>m \<in> set pre. \<exists>s. st' m = Some s \<and> \<not> reports_leader (nstatus s))"
proof (induction ns arbitrary: st w)
  case Nil
  then show ?case by simp
next
  case (Cons n ns)
  obtain status ms err w1 where g: "get_status io n t w = ((status, ms, err), w1)"
    by (cases "get_status io n t w") auto
  let ?st = "st(n \<mapsto> \<lparr>nstatus = status, nlatency_ms = ms, nerror = err\<rparr>)"
  show ?case
  proof (cases "reports_leader status")
    case True
    with Cons.prems g have "l = n" "st' = ?st"
      by (auto simp: Let_def)
    with True show ?thesis
      by (intro exI [of _ "[]"] exI [of _ ns]) simp
  next
    case False
    with Cons.prems g have rest: "find_leader_from io t ns ?st w1 = ((Some l, st'), w')"
      by (auto simp: Let_def)
    with Cons.IH [OF rest] Cons.prems obtain pre post s where
      "ns = pre @ l # post" "st' l = Some s" "reports_leader (nstatus s)"
      "\<forall>m \<in> set pre. \<exists>s. st' m = Some s \<and> \<not> reports_leader (nstatus s)"
      by auto
    moreover have "st' n = Some \<lparr>nstatus = status, nlatency_ms = ms, nerror = err\<rparr>"
      using find_leader_from_frame [OF rest, of n] Cons.prems(2) by simp
    ultimately show ?thesis
      using False by (intro exI [of _ "n # pre"] exI [of _ post] exI [of _ s]) simp
  qed
qed

subsection \<open>Polling\<close>

lemma poll_nodes_False: "fst (fst (poll_nodes io k v t ns False latest w)) = False"
  by (induction ns arbitrary: latest w) (simp_all add: Let_def split: prod.splits)

lemma poll_nodes_frame:
  "m \<notin> set ns \<Longrightarrow> snd (fst (poll_nodes io k v t ns vis latest w)) m = latest m"
  by (induction ns arbitrary: vis latest w) (simp_all add: Let_def split: prod.splits)

lemma poll_nodes_visible:
  "fst (fst (poll_nodes io k v t ns True latest w)) \<Longrightarrow> m \<in> set ns \<Longrightarrow>
     \<exists>r. snd (fst (poll_nodes io k v t ns True latest w)) m = Some r \<and> sees r v"
proof (induction ns arbitrary: latest w)
  case Nil
  then show ?case by simp
next
  case (Cons n ns)
  obtain code got ms err w1 where g: "get_key io n k t w = ((code, got, ms, err), w1)"
    by (cases "get_key io n k t w") auto
  let ?r = "\<lparr>rstatus = code, rvalue = got, rlatency_ms = ms, rerror = err\<rparr>"
  have ok: "code = Some 200" "got = JStr v"
    using Cons.prems(1) g poll_nodes_False [of io k v t ns "latest(n \<mapsto> ?r)" w1]
    by (auto simp: Let_def split: if_splits)
  have eq: "poll_nodes io k v t (n # ns) True latest w = poll_nodes io k v t ns True (latest(n \<mapsto> ?r)) w1"
    using g ok by (simp add: Let_def)
  show ?case
  proof (cases "m \<in> set ns")
    case True
    with Cons.IH [of "latest(n \<mapsto> ?r)" w1] Cons.prems(1) show ?thesis
      unfolding eq by blast
  next
    case False
    with Cons.prems(2) have "m = n" by simp
    with ok poll_nodes_frame [OF False, of io k v t True "latest(n \<mapsto> ?r)" w1] show ?thesis
      unfolding eq by (simp add: sees_def)
  qed
qed

lemma immediate_reads_counts:
  "immediate_reads io k v t ns stale ls w = ((stale', ls'), w') \<Longrightarrow>
     stale \<le> stale' \<and> stale' \<le> stale + int (length ns) \<and> length ls' = length ls + length ns"
proof (induction ns arbitrary: stale ls w)
  case Nil
  then show ?case by simp
next
  case (Cons n ns)
  then show ?case
    by (fastforce simp: Let_def split: prod.splits if_splits)
qed

subsection \<open>The shape of a result row\<close>

text \<open>
  The row of round \<open>r\<close> over \<open>n\<close> nodes: either the row without a leader, or one with a stale
  count between 0 and \<open>n\<close> and a non-negative write latency. No row has a key that the CSV
  writer does not know, which it would reject.
\<close>

definition leader_row :: "row \<Rightarrow> bool" where
  "leader_row rw \<longleftrightarrow> rw (lit ''leader'') \<noteq> Some (VStr [])"

definition geo_row_ok :: "nat \<Rightarrow> int \<Rightarrow> row \<Rightarrow> bool" where
  "geo_row_ok n r rw \<longleftrightarrow>
     dom rw \<subseteq> set fieldnames \<and>
     rw (lit ''round'') = Some (VInt r) \<and> rw (lit ''replica_count'') = Some (VInt (int n)) \<and>
     (rw = no_leader_row r n \<or>
      (\<exists>st wl cv. rw (lit ''immediate_stale_reads'') = Some (VInt st) \<and> 0 \<le> st \<and> st \<le> int n \<and>
         rw (lit ''write_latency_ms'') = Some (VFloat wl) \<and> 0 \<le> wl \<and>
         rw (lit ''convergence_ms'') = Some (opt_val cv) \<and> leader_row rw))"

lemma aggregate_total: "\<exists>a mn mx. aggregate vs = Inr (a, mn, mx)"
proof (cases "vs = []")
  case True
  then show ?thesis by (simp add: aggregate_def)
next
  case False
  then obtain mn mx where "py_min vs = Inr mn" "py_max vs = Inr mx"
    using py_min_Inr py_max_Inr by blast
  with False show ?thesis
    by (simp add: aggregate_def mean_def)
qed

lemma summarize_total: "\<exists>s. summarize vs = Inr s"
proof (cases "vs = []")
  case True
  then show ?thesis by (simp add: summarize_def)
next
  case False
  then obtain mn mx where "py_min vs = Inr mn" "py_max vs = Inr mx"
    using py_min_Inr py_max_Inr by blast
  moreover from False have "\<exists>m. median vs = Inr m"
    by (rule median_total)
  ultimately show ?thesis
    using False by (auto simp: summarize_def mean_def)
qed

lemma no_leader_row_ok: "geo_row_ok n r (no_leader_row r n)"
  by (simp add: geo_row_ok_def no_leader_row_def fieldnames_def)

lemma numbers_total: "\<forall>r \<in> set rs. r f \<noteq> None \<Longrightarrow> \<exists>xs. numbers rs f = Inr xs"
  by (induction rs) auto

lemma geo_row_ok_fields:
  "geo_row_ok n r rw \<Longrightarrow> rw (lit ''write_latency_ms'') \<noteq> None \<and> rw (lit ''convergence_ms'') \<noteq> None \<and>
     rw (lit ''immediate_stale_reads'') \<noteq> None"
  by (auto simp: geo_row_ok_def no_leader_row_def)

lemma sum_ints_replicas:
  "list_all2 (geo_row_ok n) ks rs \<Longrightarrow> sum_ints rs (lit ''replica_count'') = Inr (int n * int (length rs))"
  by (induction rule: list_all2_induct) (auto simp: geo_row_ok_def algebra_simps)

lemma sum_ints_stale:
  "list_all2 (geo_row_ok n) ks rs \<Longrightarrow>
     \<exists>st. sum_ints rs (lit ''immediate_stale_reads'') = Inr st \<and> 0 \<le> st \<and>
       st \<le> int n * int (length (filter leader_row rs))"
proof (induction rule: list_all2_induct)
  case Nil
  then show ?case by simp
next
  case (Cons k ks r rs)
  then obtain st where st: "sum_ints rs (lit ''immediate_stale_reads'') = Inr st" "0 \<le> st"
    "st \<le> int n * int (length (filter leader_row rs))"
    by blast
  from Cons(1) consider "r = no_leader_row k n" |
    s where "r (lit ''immediate_stale_reads'') = Some (VInt s)" "0 \<le> s" "s \<le> int n" "leader_row r"
    by (auto simp: geo_row_ok_def)
  then show ?case
  proof cases
    case 1
    then have "r (lit ''immediate_stale_reads'') = Some (VStr [])" "\<not> leader_row r"
      by (simp_all add: no_leader_row_def leader_row_def)
    with st show ?thesis
      by simp
  next
    case 2
    with st show ?thesis
      by (auto simp: algebra_simps)
  qed
qed

lemma report_total:
  assumes "list_all2 (geo_row_ok n) ks rs"
  shows "\<exists>rep st. report rs = Inr rep \<and> csv_rows rep = map csv_cells rs \<and>
    0 \<le> st \<and> st \<le> int n * int (length (filter leader_row rs)) \<and>
    stale_line rep = (if int n * int (length rs) \<noteq> 0 then Some (st, int n * int (length rs)) else None)"
proof -
  have "\<forall>r \<in> set rs. \<exists>k. geo_row_ok n k r"
    using assms by (metis list_all2_conv_all_nth in_set_conv_nth)
  then have "\<forall>r \<in> set rs. r (lit ''write_latency_ms'') \<noteq> None" "\<forall>r \<in> set rs. r (lit ''convergence_ms'') \<noteq> None"
    using geo_row_ok_fields by blast+
  then obtain wl cv where wl: "numbers rs (lit ''write_latency_ms'') = Inr wl"
    and cv: "numbers rs (lit ''convergence_ms'') = Inr cv"
    using numbers_total by blast
  obtain st where st: "sum_ints rs (lit ''immediate_stale_reads'') = Inr st" "0 \<le> st"
    "st \<le> int n * int (length (filter leader_row rs))"
    using sum_ints_stale [OF assms] by blast
  obtain a b c where abc: "summarize wl = Inr a"
    "summarize (numbers_get rs (lit ''read_latency_avg_ms'')) = Inr b" "summarize cv = Inr c"
    using summarize_total by metis
  let ?rep = "\<lparr>csv_rows = map csv_cells rs, write_line = a, read_line = b, convergence_line = c,
    stale_line = (if int n * int (length rs) \<noteq> 0 then Some (st, int n * int (length rs)) else None)\<rparr>"
  have "report rs = Inr ?rep"
    using wl cv st(1) abc sum_ints_replicas [OF assms] by (simp add: report_def)
  with st show ?thesis by (intro exI [of _ ?rep] exI [of _ st]) simp
qed

lemma find_leader_from_mem: "find_leader_from io t ns st w = ((Some l, st'), w') \<Longrightarrow> l \<in> set ns"
proof (induction ns arbitrary: st w)
  case Nil
  then show ?case by simp
next
  case (Cons n ns)
  then show ?case
    by (fastforce simp: Let_def split: prod.splits if_splits)
qed

subsection \<open>What a clock gives\<close>

context clocked_io
begin

lemma perf_counterD: "perf_counter io w = (x, w') \<Longrightarrow> x = now w \<and> now w \<le> now w'"
  using perf_counter_reads [of w] perf_counter_forward [of w] by simp

lemma httpD: "http io req x w = (out, w') \<Longrightarrow> now w \<le> now w'"
  using http_forward [of w req x] by simp

lemma request_json_clock:
  "request_json io req x w = ((c, b, ms, e), w') \<Longrightarrow> now w \<le> now w' \<and> 0 \<le> ms"
  by (fastforce simp: request_json_def Let_def split: prod.splits http_outcome.splits
      dest!: perf_counterD httpD)

lemma get_status_clock: "get_status io n x w = (r, w') \<Longrightarrow> now w \<le> now w'"
  by (auto simp: get_status_def Let_def split: prod.splits json.splits if_splits
      dest!: request_json_clock)

lemma get_key_clock: "get_key io n k x w = ((c, g, ms, e), w') \<Longrightarrow> now w \<le> now w' \<and> 0 \<le> ms"
  by (auto simp: get_key_def Let_def split: prod.splits dest!: request_json_clock)

lemma find_leader_from_clock: "find_leader_from io x ns st w = (r, w') \<Longrightarrow> now w \<le> now w'"
proof (induction ns arbitrary: st w)
  case Nil
  then show ?case by simp
next
  case (Cons n ns)
  then show ?case
    by (fastforce simp: Let_def split: prod.splits if_splits dest: get_status_clock)
qed

lemma poll_nodes_clock: "now w \<le> now (snd (poll_nodes io k v x ns vis latest w))"
proof (induction ns arbitrary: vis latest w)
  case Nil
  then show ?case by simp
next
  case (Cons n ns)
  obtain c g ms e w1 where g: "get_key io n k x w = ((c, g, ms, e), w1)"
    by (cases "get_key io n k x w") auto
  with get_key_clock [OF g] Cons.IH show ?case
    by (fastforce simp: Let_def intro: order_trans)
qed

lemma immediate_reads_latencies:
  "immediate_reads io k v x ns stale ls w = ((stale', ls'), w') \<Longrightarrow> \<forall>l \<in> set ls. 0 \<le> l \<Longrightarrow>
     \<forall>l \<in> set ls'. 0 \<le> l"
proof (induction ns arbitrary: stale ls w)
  case Nil
  then show ?case by simp
next
  case (Cons n ns)
  obtain c g ms e w1 where g: "get_key io n k x w = ((c, g, ms, e), w1)"
    by (cases "get_key io n k x w") auto
  from g Cons.prems(1) obtain stale1 where
    "immediate_reads io k v x ns stale1 (ls @ [ms]) w1 = ((stale', ls'), w')"
    by (simp add: Let_def)
  moreover have "\<forall>l \<in> set (ls @ [ms]). 0 \<le> l"
    using Cons.prems(2) get_key_clock [OF g] by simp
  ultimately show ?case
    by (rule Cons.IH)
qed

text \<open>
  The wait returns: every turn that does not end it sleeps for the poll interval, so the
  distance to the deadline shrinks by at least that much.
\<close>

lemma wait_loop_returns:
  assumes "0 < poll" "start \<le> now w"
  shows "\<exists>r latest' w'. wait_loop io ns k v start deadline poll x latest w = Some ((r, latest'), w') \<and>
    (\<forall>ms. r = Some ms \<longrightarrow> 0 \<le> ms \<and> (\<forall>m \<in> set ns. \<exists>q. latest' m = Some q \<and> sees q v)) \<and>
    (r = None \<longrightarrow> deadline \<le> now w')"
  using assms(2)
proof (induction "nat \<lceil>(deadline - now w) / poll\<rceil>" arbitrary: w latest rule: less_induct)
  case less
  let ?w1 = "snd (perf_counter io w)"
  let ?pr = "poll_nodes io k v x ns True latest ?w1"
  show ?case
  proof (cases "now w < deadline")
    case False
    then show ?thesis
      using perf_counter_forward [of w]
      by (subst wait_loop.simps) (simp add: perf_counter_reads)
  next
    case True
    have mono: "now w \<le> now (snd ?pr)"
      using perf_counter_forward [of w] poll_nodes_clock order_trans by blast
    show ?thesis
    proof (cases "fst (fst ?pr)")
      case vis: True
      then show ?thesis
        using True mono less.prems poll_nodes_visible [OF vis]
        by (subst wait_loop.simps) (simp add: perf_counter_reads Let_def)
    next
      case notvis: False
      let ?w2 = "sleep io poll (snd ?pr)"
      have adv: "now w + poll \<le> now ?w2"
        using mono sleep_advances [of "snd ?pr" poll] by linarith
      from deadline_closer [OF assms(1) adv True]
      have "nat \<lceil>(deadline - now ?w2) / poll\<rceil> < nat \<lceil>(deadline - now w) / poll\<rceil>" .
      moreover have "start \<le> now ?w2"
        using adv less.prems assms(1) by linarith
      ultimately obtain r latest' w' where
        "wait_loop io ns k v start deadline poll x (snd (fst ?pr)) ?w2 = Some ((r, latest'), w')"
        "\<forall>ms. r = Some ms \<longrightarrow> 0 \<le> ms \<and> (\<forall>m \<in> set ns. \<exists>q. latest' m = Some q \<and> sees q v)"
        "r = None \<longrightarrow> deadline \<le> now w'"
        using less.hyps by blast
      moreover have "wait_loop io ns k v start deadline poll x latest w =
          wait_loop io ns k v start deadline poll x (snd (fst ?pr)) ?w2"
        using True notvis
        by (subst wait_loop.simps) (simp add: perf_counter_reads Let_def)
      ultimately show ?thesis by simp
    qed
  qed
qed

lemma wait_until_returns:
  assumes "0 < poll"
  shows "\<exists>r latest w'. wait_until_all_visible io ns k v to poll x w = Some ((r, latest), w') \<and>
    (\<forall>ms. r = Some ms \<longrightarrow> 0 \<le> ms \<and> (\<forall>m \<in> set ns. \<exists>q. latest m = Some q \<and> sees q v)) \<and>
    (r = None \<longrightarrow> now w + to \<le> now w')"
proof -
  obtain st w1 where pc: "perf_counter io w = (st, w1)"
    by (cases "perf_counter io w")
  with perf_counterD [OF pc] wait_loop_returns [OF assms, of "now w" w1 ns k v "now w + to" x Map.empty]
  show ?thesis
    by (simp add: wait_until_all_visible_def)
qed

lemma run_round_returns:
  assumes "0 < arg_poll_interval args"
  shows "\<exists>rw w'. run_round io args r w = Some (Inr (rw, w')) \<and> geo_row_ok (length (arg_nodes args)) r rw"
proof -
  obtain ld sts w1 where fl: "find_leader io (arg_nodes args) (arg_timeout args) w = ((ld, sts), w1)"
    by (cases "find_leader io (arg_nodes args) (arg_timeout args) w") auto
  show ?thesis
  proof (cases "ld = None \<or> ld = Some []")
    case True
    with fl show ?thesis
      by (auto simp: run_round_def no_leader_row_ok)
  next
    case False
    then obtain l where Some: "ld = Some l" and l: "l \<noteq> []"
      by auto
    obtain h1 w2 where u1: "uuid4_hex io w1 = (h1, w2)"
      by (cases "uuid4_hex io w1")
    obtain h2 w3 where u2: "uuid4_hex io w2 = (h2, w3)"
      by (cases "uuid4_hex io w2")
    define key where "key = lit ''geo-'' @ str_of_int r @ lit ''-'' @ take 8 h1"
    define val where "val = lit ''value-'' @ h2"
    obtain wc wb wl we w4 where pk: "put_key io l key val (arg_timeout args) w3 = ((wc, wb, wl, we), w4)"
      by (cases "put_key io l key val (arg_timeout args) w3") auto
    then have wl: "0 \<le> wl"
      by (auto simp: put_key_def dest: request_json_clock)
    obtain st ls w5 where ir: "immediate_reads io key val (arg_timeout args) (arg_nodes args) 0 [] w4 = ((st, ls), w5)"
      by (cases "immediate_reads io key val (arg_timeout args) (arg_nodes args) 0 [] w4") auto
    then have st: "0 \<le> st" "st \<le> int (length (arg_nodes args))"
      by (auto dest: immediate_reads_counts)
    obtain a mn mx where ag: "aggregate ls = Inr (a, mn, mx)"
      using aggregate_total by blast
    obtain cv lt w6 where wt: "wait_until_all_visible io (arg_nodes args) key val
        (arg_convergence_timeout args) (arg_poll_interval args) (arg_timeout args) w5 = Some ((cv, lt), w6)"
      using wait_until_returns [OF assms] by blast
    show ?thesis
      using fl Some u1 u2 pk ir ag wt wl st l
      by (simp add: run_round_def key_def [symmetric] val_def [symmetric] geo_row_ok_def leader_row_def
          fieldnames_def) blast
  qed
qed

lemma run_rounds_returns:
  assumes "0 < arg_poll_interval args"
  shows "\<exists>rws w'. run_rounds io args rs w = Some (Inr (rws, w')) \<and>
    list_all2 (geo_row_ok (length (arg_nodes args))) rs rws"
proof (induction rs arbitrary: w)
  case Nil
  then show ?case by simp
next
  case (Cons r rs)
  obtain rw w1 where r: "run_round io args r w = Some (Inr (rw, w1))"
    "geo_row_ok (length (arg_nodes args)) r rw"
    using run_round_returns [OF assms] by blast
  with Cons.IH [of w1] show ?case by auto
qed

end

end
