(* ===== verification/Go_Json.thy ===== *)
theory Go_Json
  imports Prelude "HOL-Library.AList" "HOL-Library.List_Lexorder" "HOL-Library.Char_ord"
begin

text \<open>
  The part of Go's \<^verbatim>\<open>encoding/json\<close> that the write-ahead log, the snapshots and the replicated
  commands go through: encoding of strings (with the escapes and the replacement of invalid
  UTF-8 that \<^verbatim>\<open>json.Marshal\<close> performs), and a parser for JSON values with the decoder's string
  unquoting. Go strings are byte strings; a byte is a HOL character.
\<close>

abbreviation code :: "char \<Rightarrow> nat" where
  "code c \<equiv> of_char c"

subsection \<open>UTF-8 in byte strings\<close>

definition cont :: "char \<Rightarrow> bool" where
  "cont c \<longleftrightarrow> 0x80 \<le> code c \<and> code c \<le> 0xBF"

text \<open>
  \<^verbatim>\<open>utf8.DecodeRune\<close>: the lead byte gives the length, four lead bytes narrow the range of the
  second byte. The result is the size of the valid encoding at the front of the input, 0
  where \<^verbatim>\<open>DecodeRune\<close> reports an error (and consumes one byte).
\<close>

definition lead_len :: "char \<Rightarrow> nat" where
  "lead_len b =
     (if code b < 0x80 then 1
      else if 0xC2 \<le> code b \<and> code b \<le> 0xDF then 2
      else if 0xE0 \<le> code b \<and> code b \<le> 0xEF then 3
      else if 0xF0 \<le> code b \<and> code b \<le> 0xF4 then 4
      else 0)"

definition second_ok :: "char \<Rightarrow> char \<Rightarrow> bool" where
  "second_ok b c \<longleftrightarrow>
     (code b = 0xE0 \<longrightarrow> 0xA0 \<le> code c) \<and> (code b = 0xED \<longrightarrow> code c \<le> 0x9F) \<and>
     (code b = 0xF0 \<longrightarrow> 0x90 \<le> code c) \<and> (code b = 0xF4 \<longrightarrow> code c \<le> 0x8F)"

definition rune_len :: "string \<Rightarrow> nat" where
  "rune_len s =
     (case s of
        [] \<Rightarrow> 0
      | b # r \<Rightarrow>
          (let n = lead_len b
           in if n \<le> 1 then n
              else if n - 1 \<le> length r \<and> second_ok b (hd r) \<and> list_all cont (take (n - 1) r) then n
              else 0))"

lemma rune_len_Nil [simp]: "rune_len [] = 0"
  by (simp add: rune_len_def)

lemma rune_len_le: "rune_len s \<le> length s"
  by (cases s) (auto simp: rune_len_def Let_def)

lemma rune_len_ascii [simp]: "code b < 0x80 \<Longrightarrow> rune_len (b # r) = 1"
  by (simp add: rune_len_def lead_len_def)

lemma rune_len_append: "0 < rune_len s \<Longrightarrow> rune_len (s @ t) = rune_len s"
  by (cases s) (auto simp: rune_len_def Let_def hd_append split: if_split_asm)

text \<open>The bytes of a multi-byte encoding are all outside ASCII.\<close>

lemma lead_len_high: "0x80 \<le> code b \<Longrightarrow> lead_len b \<noteq> 1"
  by (simp add: lead_len_def)

lemma rune_len_high:
  assumes "0x80 \<le> code b" "c \<in> set (take (rune_len (b # r)) (b # r))"
  shows "0x80 \<le> code c"
proof (cases "rune_len (b # r)")
  case 0
  with assms show ?thesis by simp
next
  case (Suc n)
  with lead_len_high [OF assms(1)] have "list_all cont (take n r)"
    by (auto simp: rune_len_def Let_def split: if_split_asm)
  with assms Suc show ?thesis
    by (auto simp: list_all_iff cont_def)
qed

function valid_utf8 :: "string \<Rightarrow> bool" where
  "valid_utf8 s =
     (if s = [] then True else if rune_len s = 0 then False
      else valid_utf8 (drop (rune_len s) s))"
  by pat_completeness auto
termination
  by (relation "measure length") auto

declare valid_utf8.simps [simp del]

lemma valid_utf8_Nil [simp]: "valid_utf8 []"
  by (simp add: valid_utf8.simps)

lemma valid_utf8_ascii_Cons [simp]: "code c < 0x80 \<Longrightarrow> valid_utf8 (c # s) \<longleftrightarrow> valid_utf8 s"
  by (subst valid_utf8.simps) simp

definition rune_error :: string where
  "rune_error = [CHR 0xEF, CHR 0xBF, CHR 0xBD]"

text \<open>Every byte that starts no valid encoding replaced by U+FFFD.\<close>

function to_valid :: "string \<Rightarrow> string" where
  "to_valid s =
     (case s of
        [] \<Rightarrow> []
      | c # r \<Rightarrow>
          if rune_len s = 0 then rune_error @ to_valid r
          else take (rune_len s) s @ to_valid (drop (rune_len s) s))"
  by pat_completeness auto
termination
  by (relation "measure length") auto

declare to_valid.simps [simp del]

lemma to_valid_Nil [simp]: "to_valid [] = []"
  by (simp add: to_valid.simps)

lemma to_valid_id: "valid_utf8 s \<Longrightarrow> to_valid s = s"
proof (induction s rule: valid_utf8.induct)
  case (1 s)
  show ?case
  proof (cases s)
    case Nil
    then show ?thesis by simp
  next
    case (Cons c r)
    with "1.prems" have "rune_len s \<noteq> 0" "valid_utf8 (drop (rune_len s) s)"
      by (subst (asm) valid_utf8.simps; simp split: if_split_asm)+
    with "1.IH" Cons have "to_valid (drop (rune_len s) s) = drop (rune_len s) s"
      by blast
    with \<open>rune_len s \<noteq> 0\<close> Cons show ?thesis
      by (subst to_valid.simps) simp
  qed
qed

subsection \<open>Encoding strings\<close>

definition hex_digit :: "nat \<Rightarrow> char" where
  "hex_digit n = ''0123456789abcdef'' ! n"

text \<open>Bytes that \<^verbatim>\<open>json.Marshal\<close> copies: printable ASCII without quote, backslash, \<^verbatim>\<open><\<close>, \<^verbatim>\<open>>\<close>, \<^verbatim>\<open>&\<close>.\<close>

definition html_safe :: "char \<Rightarrow> bool" where
  "html_safe c \<longleftrightarrow> 0x20 \<le> code c \<and> code c < 0x80 \<and> code c \<notin> {0x22, 0x5C, 0x3C, 0x3E, 0x26}"

definition bs :: char where "bs = CHR 0x5C"

definition dq :: char where "dq = CHR 0x22"

definition escape_ascii :: "char \<Rightarrow> string" where
  "escape_ascii c =
     (if html_safe c then [c]
      else if c = bs \<or> c = dq then [bs, c]
      else if code c = 8 then [bs, CHR ''b'']
      else if code c = 12 then [bs, CHR ''f'']
      else if code c = 10 then [bs, CHR ''n'']
      else if code c = 13 then [bs, CHR ''r'']
      else if code c = 9 then [bs, CHR ''t'']
      else bs # ''u00'' @ [hex_digit (code c div 16), hex_digit (code c mod 16)])"

text \<open>U+2028 and U+2029, which are escaped.\<close>

definition line_sep :: "string \<Rightarrow> bool" where
  "line_sep s \<longleftrightarrow> s = [CHR 0xE2, CHR 0x80, CHR 0xA8] \<or> s = [CHR 0xE2, CHR 0x80, CHR 0xA9]"

function quote_body :: "string \<Rightarrow> string" where
  "quote_body s =
     (case s of
        [] \<Rightarrow> []
      | c # r \<Rightarrow>
          if code c < 0x80 then escape_ascii c @ quote_body r
          else if rune_len s = 0 then bs # ''ufffd'' @ quote_body r
          else (let n = rune_len s; u = take n s
                in (if line_sep u then bs # ''u202'' @ [hex_digit (code (last u) mod 16)] else u) @
                   quote_body (drop n s)))"
  by pat_completeness auto
termination
  by (relation "measure length") auto

declare quote_body.simps [simp del]

definition json_string :: "string \<Rightarrow> string" where
  "json_string s = dq # quote_body s @ [dq]"

subsection \<open>Decoding strings\<close>

definition hex_val :: "char \<Rightarrow> nat option" where
  "hex_val c =
     (let n = code c
      in if 48 \<le> n \<and> n \<le> 57 then Some (n - 48)
         else if 97 \<le> n \<and> n \<le> 102 then Some (n - 87)
         else if 65 \<le> n \<and> n \<le> 70 then Some (n - 55)
         else None)"

fun getu4 :: "string \<Rightarrow> (nat \<times> string) option" where
  "getu4 (a # b # c # d # r) =
     (case (hex_val a, hex_val b, hex_val c, hex_val d) of
        (Some w, Some x, Some y, Some z) \<Rightarrow> Some (((w * 16 + x) * 16 + y) * 16 + z, r)
      | _ \<Rightarrow> None)"
| "getu4 _ = None"

definition encode_rune :: "nat \<Rightarrow> string" where
  "encode_rune c =
     (if c < 0x80 then [char_of c]
      else if c < 0x800 then [char_of (0xC0 + c div 64), char_of (0x80 + c mod 64)]
      else if c < 0x10000 then
        [char_of (0xE0 + c div 4096), char_of (0x80 + c div 64 mod 64), char_of (0x80 + c mod 64)]
      else
        [char_of (0xF0 + c div 262144), char_of (0x80 + c div 4096 mod 64),
         char_of (0x80 + c div 64 mod 64), char_of (0x80 + c mod 64)])"

text \<open>
  After \<^verbatim>\<open>\uXXXX\<close> with a surrogate: a following low surrogate escape completes the pair; a
  surrogate that is not completed becomes U+FFFD and consumes only itself.
\<close>

definition unescape_u :: "string \<Rightarrow> (string \<times> string) option" where
  "unescape_u s =
     (case getu4 s of
        None \<Rightarrow> None
      | Some (rr, r) \<Rightarrow>
          if 0xD800 \<le> rr \<and> rr < 0xE000 then
            (case r of
               p # q # r' \<Rightarrow>
                 if p = bs \<and> q = CHR ''u'' then
                   (case getu4 r' of
                      Some (rr1, r'') \<Rightarrow>
                        if rr < 0xDC00 \<and> 0xDC00 \<le> rr1 \<and> rr1 < 0xE000
                        then Some (encode_rune (0x10000 + (rr - 0xD800) * 1024 + (rr1 - 0xDC00)), r'')
                        else Some (rune_error, r)
                    | None \<Rightarrow> Some (rune_error, r))
                 else Some (rune_error, r)
             | _ \<Rightarrow> Some (rune_error, r))
          else Some (encode_rune rr, r))"

text \<open>One escape, after the backslash; anything the scanner does not know is an error.\<close>

definition unescape :: "string \<Rightarrow> (string \<times> string) option" where
  "unescape s =
     (case s of
        [] \<Rightarrow> None
      | c # r \<Rightarrow>
          if c = dq \<or> c = bs \<or> c = CHR ''/'' then Some ([c], r)
          else if c = CHR ''b'' then Some ([CHR 0x08], r)
          else if c = CHR ''f'' then Some ([CHR 0x0C], r)
          else if c = CHR ''n'' then Some ([CHR 0x0A], r)
          else if c = CHR ''r'' then Some ([CHR 0x0D], r)
          else if c = CHR ''t'' then Some ([CHR 0x09], r)
          else if c = CHR ''u'' then unescape_u r
          else None)"

lemma getu4_length: "getu4 s = Some (n, r) \<Longrightarrow> length r < length s"
  by (cases s rule: getu4.cases) (auto split: option.splits)

lemma unescape_u_length: "unescape_u s = Some (u, r) \<Longrightarrow> length r < length s"
  by (fastforce simp: unescape_u_def split: option.splits if_splits list.splits prod.splits
      dest: getu4_length)

lemma unescape_length: "unescape s = Some (u, r) \<Longrightarrow> length r < length s"
  by (auto simp: unescape_def split: list.splits if_splits dest: unescape_u_length)

text \<open>A string literal after its opening quote: the decoded bytes and the rest after the quote.\<close>

function parse_string :: "string \<Rightarrow> (string \<times> string) option" where
  "parse_string s =
     (case s of
        [] \<Rightarrow> None
      | c # r \<Rightarrow>
          if c = dq then Some ([], r)
          else if c = bs then
            (case unescape r of
               None \<Rightarrow> None
             | Some (u, r') \<Rightarrow>
                 (case parse_string r' of None \<Rightarrow> None | Some (v, t) \<Rightarrow> Some (u @ v, t)))
          else if code c < 0x20 then None
          else if code c < 0x80 then
            (case parse_string r of None \<Rightarrow> None | Some (v, t) \<Rightarrow> Some (c # v, t))
          else if rune_len s = 0 then
            (case parse_string r of None \<Rightarrow> None | Some (v, t) \<Rightarrow> Some (rune_error @ v, t))
          else
            (case parse_string (drop (rune_len s) s) of
               None \<Rightarrow> None
             | Some (v, t) \<Rightarrow> Some (take (rune_len s) s @ v, t)))"
  by pat_completeness auto
termination
  by (relation "measure length") (auto dest: unescape_length)

declare parse_string.simps [simp del]

subsection \<open>Unquoting inverts quoting\<close>

lemma bs_dq_code [simp]: "code bs = 0x5C" "code dq = 0x22" "bs \<noteq> dq" "dq \<noteq> bs"
  by (simp_all add: bs_def dq_def)

lemma hex_val_digit: "n < 16 \<Longrightarrow> hex_val (hex_digit n) = Some n"
proof -
  assume n: "n < 16"
  have "list_all (\<lambda>k. hex_val (hex_digit k) = Some k) [0..<16]"
    by code_simp
  with n show ?thesis
    by (simp add: list_all_iff del: upt.simps)
qed

lemma parse_string_safe_Cons:
  "html_safe c \<Longrightarrow> parse_string (c # r) =
     (case parse_string r of None \<Rightarrow> None | Some (v, t) \<Rightarrow> Some (c # v, t))"
  by (subst parse_string.simps) (auto simp: html_safe_def)

lemma parse_string_escape:
  "unescape r = Some (u, r') \<Longrightarrow> parse_string r' = Some (v, t) \<Longrightarrow>
     parse_string (bs # r) = Some (u @ v, t)"
  by (subst parse_string.simps) simp

lemma encode_rune_code: "code c < 0x80 \<Longrightarrow> encode_rune (code c) = [c]"
  by (simp add: encode_rune_def)

lemma unescape_u00:
  "code c < 0x80 \<Longrightarrow>
     unescape (''u00'' @ hex_digit (code c div 16) # hex_digit (code c mod 16) # t) = Some ([c], t)"
  by (simp add: unescape_def unescape_u_def hex_val_digit encode_rune_code hex_val_def [of "CHR ''0''"]
      div_mult_mod_eq dq_def bs_def)

lemma unescape_escape_ascii:
  assumes "code c < 0x80" "\<not> html_safe c"
  shows "\<exists>e. escape_ascii c = bs # e \<and> unescape (e @ t) = Some ([c], t)"
proof -
  consider "c = bs \<or> c = dq" | "code c = 8" | "code c = 12" | "code c = 10" | "code c = 13" | "code c = 9"
    | "c \<noteq> bs \<and> c \<noteq> dq \<and> code c \<notin> {8, 9, 10, 12, 13}"
    by auto
  then show ?thesis
  proof cases
    case 1
    then show ?thesis
      using assms by (auto simp: escape_ascii_def unescape_def)
  next
    case 7
    then show ?thesis
      using assms unescape_u00 [OF assms(1), of t] by (simp add: escape_ascii_def)
  qed (use assms in \<open>auto simp: escape_ascii_def unescape_def bs_def dq_def
      of_char_eq_iff [symmetric, where 'a = nat] simp del: of_char_eq_iff\<close>)
qed

lemma parse_string_escape_ascii:
  assumes "code c < 0x80" "parse_string r = Some (v, t)"
  shows "parse_string (escape_ascii c @ r) = Some (c # v, t)"
proof (cases "html_safe c")
  case True
  with assms show ?thesis
    by (simp add: escape_ascii_def parse_string_safe_Cons)
next
  case False
  with unescape_escape_ascii [OF assms(1) False, of r] assms(2) show ?thesis
    by (auto dest: parse_string_escape)
qed

lemma rune_len_take: "rune_len (take (rune_len s) s) = rune_len s"
  by (cases s) (auto simp: rune_len_def Let_def take_Cons' hd_take min_def)

lemma parse_string_high:
  "0x80 \<le> code c \<Longrightarrow> 0 < rune_len (c # s) \<Longrightarrow> parse_string (c # s) =
     (case parse_string (drop (rune_len (c # s)) (c # s)) of
        None \<Rightarrow> None
      | Some (v, t) \<Rightarrow> Some (take (rune_len (c # s)) (c # s) @ v, t))"
  by (subst parse_string.simps) (auto simp del: drop_Cons take_Cons)

lemma parse_string_multibyte:
  assumes "x \<noteq> []" "0x80 \<le> code (hd x)" "0 < rune_len x" "parse_string r = Some (v, t)"
  shows "parse_string (take (rune_len x) x @ r) = Some (take (rune_len x) x @ v, t)"
proof -
  define u where "u = take (rune_len x) x"
  have "rune_len u = rune_len x"
    by (simp add: u_def rune_len_take)
  moreover from this assms(3) have "rune_len (u @ r) = rune_len u"
    by (simp add: rune_len_append)
  moreover have "length u = rune_len x"
    using rune_len_le [of x] by (simp add: u_def)
  ultimately have n: "rune_len (u @ r) = length u" "0 < rune_len (u @ r)"
    using assms(3) by simp_all
  then obtain c u' where u: "u = c # u'"
    by (cases u) auto
  then have "code c \<ge> 0x80"
    using assms(1,2) unfolding u_def by (cases x; cases "rune_len x") auto
  with parse_string_high [of c "u' @ r"] n u assms(4)
  have "parse_string (u @ r) = Some (u @ v, t)"
    by simp
  then show ?thesis by (simp add: u_def)
qed

lemma line_sep_unescape:
  assumes "line_sep u"
  shows "unescape (''u202'' @ [hex_digit (code (last u) mod 16)] @ r) = Some (u, r)"
proof -
  from assms consider "u = [CHR 0xE2, CHR 0x80, CHR 0xA8]" | "u = [CHR 0xE2, CHR 0x80, CHR 0xA9]"
    by (auto simp: line_sep_def)
  then show ?thesis
    by cases (simp_all add: unescape_def unescape_u_def hex_digit_def hex_val_def encode_rune_def
        char_of_eq_iff take_bit_eq_mod dq_def bs_def)
qed

lemma unescape_ufffd: "unescape (''ufffd'' @ r) = Some (rune_error, r)"
  by (simp add: unescape_def unescape_u_def hex_val_def encode_rune_def rune_error_def
      char_of_eq_iff take_bit_eq_mod dq_def bs_def)

lemma parse_string_multibyte_quoted:
  assumes "s = c # r" "\<not> code c < 0x80" "rune_len s \<noteq> 0"
    and ih: "parse_string (quote_body (drop (rune_len s) s) @ x) = Some (v, t)"
  shows "parse_string (quote_body s @ x) = Some (take (rune_len s) s @ v, t)"
proof -
  let ?u = "take (rune_len s) s"
  have q: "quote_body s = (if line_sep ?u then bs # ''u202'' @ [hex_digit (code (last ?u) mod 16)] else ?u)
      @ quote_body (drop (rune_len s) s)"
    using assms by (subst quote_body.simps) (simp add: Let_def)
  show ?thesis
  proof (cases "line_sep ?u")
    case True
    from parse_string_escape [OF line_sep_unescape [OF True] ih] q True show ?thesis
      by simp
  next
    case False
    have "s \<noteq> []" "0x80 \<le> code (hd s)" "0 < rune_len s"
      using assms by simp_all
    from parse_string_multibyte [OF this ih] q False show ?thesis
      by simp
  qed
qed

lemma parse_string_quote_body: "parse_string (quote_body s @ dq # t) = Some (to_valid s, t)"
proof (induction s rule: to_valid.induct)
  case (1 s)
  show ?case
  proof (cases s)
    case Nil
    then show ?thesis
      by (subst quote_body.simps) (subst parse_string.simps, simp)
  next
    case s: (Cons c r)
    consider "code c < 0x80" | "\<not> code c < 0x80" "rune_len s = 0" | "\<not> code c < 0x80" "rune_len s \<noteq> 0"
      by blast
    then show ?thesis
    proof cases
      case 1
      then have "parse_string (quote_body r @ dq # t) = Some (to_valid r, t)"
        using "1.IH"(2) [OF s] s by simp
      from parse_string_escape_ascii [OF 1 this] 1 s show ?thesis
        by (subst quote_body.simps, subst to_valid.simps) simp
    next
      case 2
      then have "parse_string (quote_body r @ dq # t) = Some (to_valid r, t)"
        using "1.IH"(1) [OF s] by simp
      from parse_string_escape [OF unescape_ufffd this] 2 s show ?thesis
        by (subst quote_body.simps, subst to_valid.simps) simp
    next
      case 3
      from parse_string_multibyte_quoted [OF s 3 "1.IH"(2) [OF s 3(2)]] s 3 show ?thesis
        by (subst to_valid.simps) simp
    qed
  qed
qed

text \<open>A quoted string has no control characters, so no line ends.\<close>

lemma hex_digit_printable: "n < 16 \<Longrightarrow> 0x20 \<le> code (hex_digit n)"
proof -
  assume n: "n < 16"
  have "list_all (\<lambda>k. 0x20 \<le> code (hex_digit k)) [0..<16]"
    by code_simp
  with n show ?thesis
    by (simp add: list_all_iff del: upt.simps)
qed

lemma escape_ascii_printable: "code c < 0x80 \<Longrightarrow> x \<in> set (escape_ascii c) \<Longrightarrow> 0x20 \<le> code x"
  using hex_digit_printable [of "code c div 16"] hex_digit_printable [of "code c mod 16"]
  by (auto simp: escape_ascii_def html_safe_def split: if_split_asm)

lemma quote_body_printable: "x \<in> set (quote_body s) \<Longrightarrow> 0x20 \<le> code x"
proof (induction s rule: quote_body.induct)
  case (1 s)
  show ?case
  proof (cases s)
    case Nil
    with "1.prems" show ?thesis
      by (simp add: quote_body.simps)
  next
    case s: (Cons c r)
    consider "code c < 0x80" | "\<not> code c < 0x80" "rune_len s = 0" | "\<not> code c < 0x80" "rune_len s \<noteq> 0"
      by blast
    then show ?thesis
    proof cases
      case 1
      then have "quote_body s = escape_ascii c @ quote_body r"
        using s by (subst quote_body.simps) simp
      with "1.IH"(1) [OF s 1] escape_ascii_printable [OF 1] "1.prems" show ?thesis
        by auto
    next
      case 2
      then have "quote_body s = bs # ''ufffd'' @ quote_body r"
        using s by (subst quote_body.simps) simp
      with "1.IH"(2) [OF s 2] "1.prems" show ?thesis
        by auto
    next
      case 3
      let ?u = "take (rune_len s) s"
      have "quote_body s = (if line_sep ?u then bs # ''u202'' @ [hex_digit (code (last ?u) mod 16)] else ?u)
          @ quote_body (drop (rune_len s) s)"
        using s 3 by (subst quote_body.simps) (simp add: Let_def)
      moreover have "0x80 \<le> code y" if "y \<in> set ?u" for y
        using rune_len_high [of c y r] that s 3 by simp
      ultimately show ?thesis
        using "1.IH"(3) [OF s 3 refl refl] "1.prems" hex_digit_printable [of "code (last ?u) mod 16"]
        by (fastforce split: if_split_asm)
    qed
  qed
qed

subsection \<open>Parsing values\<close>

datatype gojson =
    GNull
  | GBool bool
  | GNum string
  | GStr string
  | GArr "gojson list"
  | GObj "(string \<times> gojson) list"

definition is_ws :: "char \<Rightarrow> bool" where
  "is_ws c \<longleftrightarrow> code c = 32 \<or> code c = 9 \<or> code c = 10 \<or> code c = 13"

definition skip_ws :: "string \<Rightarrow> string" where
  "skip_ws s = dropWhile is_ws s"

definition is_digit :: "char \<Rightarrow> bool" where
  "is_digit c \<longleftrightarrow> 48 \<le> code c \<and> code c \<le> 57"

definition digits1 :: "string \<Rightarrow> (string \<times> string) option" where
  "digits1 s = (if takeWhile is_digit s = [] then None else Some (takeWhile is_digit s, dropWhile is_digit s))"

text \<open>The number grammar: minus, integer part without leading zeros, fraction, exponent.\<close>

definition head_in :: "string \<Rightarrow> string \<Rightarrow> bool" where
  "head_in cs s \<longleftrightarrow> (case s of [] \<Rightarrow> False | c # _ \<Rightarrow> c \<in> set cs)"

definition parse_int_part :: "string \<Rightarrow> (string \<times> string) option" where
  "parse_int_part s = (if head_in ''0'' s then Some (''0'', tl s) else digits1 s)"

definition parse_frac :: "string \<Rightarrow> (string \<times> string) option" where
  "parse_frac s =
     (if head_in ''.'' s then map_option (\<lambda>(d, t). (hd s # d, t)) (digits1 (tl s)) else Some ([], s))"

definition parse_exp :: "string \<Rightarrow> (string \<times> string) option" where
  "parse_exp s =
     (if head_in ''eE'' s then
        (if head_in ''+-'' (tl s)
         then map_option (\<lambda>(ds, t). (take 2 s @ ds, t)) (digits1 (drop 2 s))
         else map_option (\<lambda>(ds, t). (hd s # ds, t)) (digits1 (tl s)))
      else Some ([], s))"

definition parse_number :: "string \<Rightarrow> (string \<times> string) option" where
  "parse_number s =
     (let m = (if head_in ''-'' s then ''-'' else [])
      in case parse_int_part (drop (length m) s) of
           None \<Rightarrow> None
         | Some (i, r) \<Rightarrow>
             (case parse_frac r of
                None \<Rightarrow> None
              | Some (f, r) \<Rightarrow>
                  (case parse_exp r of
                     None \<Rightarrow> None
                   | Some (e, r) \<Rightarrow> Some (m @ i @ f @ e, r))))"

definition max_depth :: nat where
  "max_depth = 10000"

text \<open>The rest of the input after white space and the given character, if it comes next.\<close>

definition eat :: "char \<Rightarrow> string \<Rightarrow> string option" where
  "eat c s = (case skip_ws s of [] \<Rightarrow> None | x # t \<Rightarrow> if x = c then Some t else None)"

definition parse_literal :: "string \<Rightarrow> (gojson \<times> string) option" where
  "parse_literal s =
     (if take 4 s = ''true'' then Some (GBool True, drop 4 s)
      else if take 5 s = ''false'' then Some (GBool False, drop 5 s)
      else if take 4 s = ''null'' then Some (GNull, drop 4 s)
      else map_option (\<lambda>(n, t). (GNum n, t)) (parse_number s))"

text \<open>
  Values, array elements and object members, with fuel for the recursion and the current
  nesting depth, which the scanner bounds.
\<close>

fun parse_value :: "nat \<Rightarrow> nat \<Rightarrow> string \<Rightarrow> (gojson \<times> string) option"
  and parse_elems :: "nat \<Rightarrow> nat \<Rightarrow> string \<Rightarrow> (gojson list \<times> string) option"
  and parse_members :: "nat \<Rightarrow> nat \<Rightarrow> string \<Rightarrow> ((string \<times> gojson) list \<times> string) option" where
  "parse_value 0 d s = None"
| "parse_value (Suc f) d s =
     (case eat dq s of
        Some r \<Rightarrow> map_option (\<lambda>(v, t). (GStr v, t)) (parse_string r)
      | None \<Rightarrow>
     (case eat (CHR ''{'') s of
        Some r \<Rightarrow>
          if max_depth \<le> d then None
          else (case eat (CHR ''}'') r of
                  Some t \<Rightarrow> Some (GObj [], t)
                | None \<Rightarrow> map_option (\<lambda>(ms, t). (GObj ms, t)) (parse_members f (Suc d) r))
      | None \<Rightarrow>
     (case eat (CHR ''['') s of
        Some r \<Rightarrow>
          if max_depth \<le> d then None
          else (case eat (CHR '']'') r of
                  Some t \<Rightarrow> Some (GArr [], t)
                | None \<Rightarrow> map_option (\<lambda>(es, t). (GArr es, t)) (parse_elems f (Suc d) r))
      | None \<Rightarrow> parse_literal (skip_ws s))))"
| "parse_elems 0 d s = None"
| "parse_elems (Suc f) d s =
     (case parse_value f d s of
        None \<Rightarrow> None
      | Some (v, t) \<Rightarrow>
          (case eat (CHR '','') t of
             Some t' \<Rightarrow> map_option (\<lambda>(vs, u). (v # vs, u)) (parse_elems f d t')
           | None \<Rightarrow> map_option (\<lambda>u. ([v], u)) (eat (CHR '']'') t)))"
| "parse_members 0 d s = None"
| "parse_members (Suc f) d s =
     (case eat dq s of
        None \<Rightarrow> None
      | Some r \<Rightarrow>
          (case parse_string r of
             None \<Rightarrow> None
           | Some (k, t) \<Rightarrow>
               (case eat (CHR '':'') t of
                  None \<Rightarrow> None
                | Some t' \<Rightarrow>
                    (case parse_value f d t' of
                       None \<Rightarrow> None
                     | Some (v, u) \<Rightarrow>
                         (case eat (CHR '','') u of
                            Some u' \<Rightarrow> map_option (\<lambda>(ms, x). ((k, v) # ms, x)) (parse_members f d u')
                          | None \<Rightarrow> map_option (\<lambda>x. ([(k, v)], x)) (eat (CHR ''}'') u))))))"

declare parse_value.simps [simp del] parse_elems.simps [simp del] parse_members.simps [simp del]

text \<open>A whole document: one value, then only white space.\<close>

definition json_parse :: "string \<Rightarrow> gojson option" where
  "json_parse s =
     (case parse_value (2 * length s + 2) 0 s of
        None \<Rightarrow> None
      | Some (v, t) \<Rightarrow> if skip_ws t = [] then Some v else None)"

subsection \<open>Objects with string members\<close>

fun print_members :: "(string \<times> string) list \<Rightarrow> string" where
  "print_members [] = []"
| "print_members [(k, v)] = json_string k @ CHR '':'' # json_string v"
| "print_members ((k, v) # kvs) = json_string k @ CHR '':'' # json_string v @ CHR '','' # print_members kvs"

definition print_object :: "(string \<times> string) list \<Rightarrow> string" where
  "print_object kvs = CHR ''{'' # print_members kvs @ ''}''"

lemma skip_ws_Cons: "skip_ws (c # s) = (if is_ws c then skip_ws s else c # s)"
  by (simp add: skip_ws_def)

lemma skip_ws_Nil [simp]: "skip_ws [] = []"
  by (simp add: skip_ws_def)

lemma not_ws: "\<not> is_ws dq" "\<not> is_ws (CHR '':'')" "\<not> is_ws (CHR '','')" "\<not> is_ws (CHR ''}'')"
  "\<not> is_ws (CHR ''{'')"
  by (simp_all add: is_ws_def)

lemma eat_Cons: "\<not> is_ws c \<Longrightarrow> eat x (c # s) = (if c = x then Some s else None)"
  by (simp add: eat_def skip_ws_Cons)

lemmas eat_simps = eat_Cons [OF not_ws(1)] eat_Cons [OF not_ws(2)] eat_Cons [OF not_ws(3)]
  eat_Cons [OF not_ws(4)] eat_Cons [OF not_ws(5)]

lemma parse_value_json_string:
  "parse_value (Suc f) d (json_string v @ t) = Some (GStr (to_valid v), t)"
  by (simp add: parse_value.simps json_string_def eat_simps parse_string_quote_body)

lemma parse_members_last:
  "parse_members (Suc (Suc f)) d (json_string k @ CHR '':'' # json_string v @ CHR ''}'' # t) =
     Some ([(to_valid k, GStr (to_valid v))], t)"
  by (simp add: parse_members.simps json_string_def [of k] eat_simps parse_string_quote_body
      parse_value_json_string)

lemma parse_members_more:
  assumes "parse_members (Suc f) d u = Some (ms, t)"
  shows "parse_members (Suc (Suc f)) d (json_string k @ CHR '':'' # json_string v @ CHR '','' # u) =
     Some ((to_valid k, GStr (to_valid v)) # ms, t)"
  using assms
  by (subst parse_members.simps)
    (simp add: json_string_def [of k] eat_simps parse_string_quote_body parse_value_json_string)

lemma parse_members_print:
  "kvs \<noteq> [] \<Longrightarrow> length kvs < f \<Longrightarrow>
     parse_members f d (print_members kvs @ CHR ''}'' # t) = Some (map (\<lambda>(k, v). (to_valid k, GStr (to_valid v))) kvs, t)"
proof (induction kvs arbitrary: f rule: print_members.induct)
  case 1
  then show ?case by simp
next
  case (2 k v)
  from 2(2) have "f = Suc (Suc (f - 2))"
    by simp
  with parse_members_last [of "f - 2" d k v t] show ?case
    by simp
next
  case (3 k v kv kvs)
  define f' where "f' = f - 2"
  from 3(3) have f: "f = Suc (Suc f')" "length (kv # kvs) < Suc f'"
    by (simp_all add: f'_def)
  from 3(1) [of "Suc f'"] f have "parse_members (Suc f') d (print_members (kv # kvs) @ CHR ''}'' # t) =
      Some (map (\<lambda>(k, v). (to_valid k, GStr (to_valid v))) (kv # kvs), t)"
    by simp
  from parse_members_more [OF this] f
  show ?case
    by simp
qed

lemma length_print_members: "length kvs \<le> length (print_members kvs)"
  by (induction kvs rule: print_members.induct) (auto simp: json_string_def)

text \<open>The parser inverts the printer on objects of strings, up to the replacement of invalid bytes.\<close>

lemma parse_value_print_object:
  assumes "2 * length (print_object kvs) < f"
  shows "parse_value f 0 (print_object kvs @ t) = Some (GObj (map (\<lambda>(k, v). (to_valid k, GStr (to_valid v))) kvs), t)"
proof (cases kvs)
  case Nil
  from assms have "f = Suc (f - 1)"
    by simp
  moreover have "parse_value (Suc (f - 1)) 0 (''{}'' @ t) = Some (GObj [], t)"
    by (subst parse_value.simps) (simp add: eat_simps max_depth_def dq_def)
  ultimately show ?thesis
    using Nil by (simp add: print_object_def)
next
  case (Cons kv kvs')
  then obtain k v where kvs: "kvs = (k, v) # kvs'"
    by (cases kv) auto
  obtain m where m: "print_members kvs = dq # m"
    unfolding kvs by (cases kvs') (auto simp: json_string_def)
  from assms have f: "f = Suc (f - 1)"
    by simp
  have "length kvs < f - 1"
    using assms length_print_members [of kvs] by (simp add: print_object_def)
  from Cons have "kvs \<noteq> []"
    by simp
  from parse_members_print [OF this \<open>length kvs < f - 1\<close>, of 1 t]
  have "parse_members (f - 1) 1 (dq # m @ CHR ''}'' # t) =
      Some (map (\<lambda>(k, v). (to_valid k, GStr (to_valid v))) kvs, t)"
    by (simp add: m)
  then have "parse_value (Suc (f - 1)) 0 (print_object kvs @ t) =
      Some (GObj (map (\<lambda>(k, v). (to_valid k, GStr (to_valid v))) kvs), t)"
    by (subst parse_value.simps)
      (simp add: print_object_def m eat_simps max_depth_def, simp add: dq_def)
  with f show ?thesis by simp
qed

lemma json_parse_print_object:
  "json_parse (print_object kvs) = Some (GObj (map (\<lambda>(k, v). (to_valid k, GStr (to_valid v))) kvs))"
  using parse_value_print_object [of kvs "2 * length (print_object kvs) + 2" "[]"]
  by (simp add: json_parse_def)

lemma json_parse_trailing: "skip_ws t \<noteq> [] \<Longrightarrow> json_parse (print_object kvs @ t) = None"
  using parse_value_print_object [of kvs "2 * length (print_object kvs @ t) + 2" t]
  by (simp add: json_parse_def)

text \<open>Every successful parse consumes input.\<close>

lemma length_skip_ws: "length (skip_ws s) \<le> length s"
  by (simp add: skip_ws_def length_dropWhile_le)

lemma eat_length: "eat c s = Some t \<Longrightarrow> length t < length s"
  using length_skip_ws [of s] by (auto simp: eat_def split: list.splits if_splits)

lemma digits1_length: "digits1 s = Some (d, t) \<Longrightarrow> length t < length s"
  by (cases s) (auto simp: digits1_def length_dropWhile_le le_imp_less_Suc split: if_splits)

lemma parse_string_length: "parse_string s = Some (v, t) \<Longrightarrow> length t < length s"
proof (induction "length s" arbitrary: s v t rule: less_induct)
  case less
  then have IH: "length x < length s \<Longrightarrow> parse_string x = Some (u, t) \<Longrightarrow> length t < length s" for x u
    using less_trans by blast
  show ?case
  proof (cases s)
    case Nil
    with less.prems show ?thesis by (simp add: parse_string.simps [of "[]"])
  next
    case (Cons c r)
    then have *: "length r < length s" "rune_len s \<noteq> 0 \<Longrightarrow> length (drop (rune_len s) s) < length s"
      "unescape r = Some (u, x) \<Longrightarrow> length x < length s" for u x
      by (auto dest: unescape_length)
    have IH': "length x < Suc (length r) \<Longrightarrow> parse_string x = Some (u, t) \<Longrightarrow> length t < Suc (length r)" for x u
      using IH Cons by simp
    have IHd: "parse_string (drop (rune_len (c # r)) (c # r)) = Some (u, t) \<Longrightarrow>
        0 < rune_len (c # r) \<Longrightarrow> length t < Suc (length r)" for u
      by (rule IH' [of "drop (rune_len (c # r)) (c # r)"]) auto
    from less.prems * Cons show ?thesis
      by (subst (asm) parse_string.simps) (auto split: option.splits if_splits intro: IH' dest: IHd)
  qed
qed

lemma parse_frac_length: "parse_frac s = Some (d, t) \<Longrightarrow> length t \<le> length s"
  by (cases s) (auto simp: parse_frac_def head_in_def split: if_splits dest!: digits1_length)

lemma parse_exp_length: "parse_exp s = Some (d, t) \<Longrightarrow> length t \<le> length s"
  by (cases s) (auto simp: parse_exp_def head_in_def split: if_splits dest!: digits1_length)

lemma parse_int_part_length: "parse_int_part s = Some (d, t) \<Longrightarrow> length t < length s"
  by (cases s) (auto simp: parse_int_part_def head_in_def split: if_splits dest!: digits1_length)

lemma parse_number_length: "parse_number s = Some (d, t) \<Longrightarrow> length t < length s"
  by (fastforce simp: parse_number_def Let_def split: option.splits if_splits
      dest!: parse_int_part_length parse_frac_length parse_exp_length)

lemma parse_literal_length: "parse_literal s = Some (v, t) \<Longrightarrow> length t < length s"
  by (cases s) (auto simp: parse_literal_def split: if_splits dest!: parse_number_length)

lemma parse_length:
  "(\<forall>d s v t. parse_value f d s = Some (v, t) \<longrightarrow> length t < length s) \<and>
   (\<forall>d s vs t. parse_elems f d s = Some (vs, t) \<longrightarrow> length t < length s) \<and>
   (\<forall>d s ms t. parse_members f d s = Some (ms, t) \<longrightarrow> length t < length s)"
proof (induction f)
  case 0
  then show ?case by (simp add: parse_value.simps parse_elems.simps parse_members.simps)
next
  case (Suc f)
  then have IH: "parse_value f d s = Some (v, t) \<Longrightarrow> length t < length s"
    "parse_elems f d s = Some (vs, t) \<Longrightarrow> length t < length s"
    "parse_members f d s = Some (ms, t) \<Longrightarrow> length t < length s" for d s t v vs ms
    by blast+
  have v: "length t < length s" if "parse_value (Suc f) d s = Some (v, t)" for d s v t
    using that length_skip_ws [of s]
    by (subst (asm) parse_value.simps)
      (auto split: option.splits if_splits
        dest!: eat_length IH parse_string_length parse_literal_length)
  have e: "length t < length s" if "parse_elems (Suc f) d s = Some (vs, t)" for d s vs t
    using that
    by (subst (asm) parse_elems.simps) (auto split: option.splits dest!: eat_length IH)
  have m: "length t < length s" if "parse_members (Suc f) d s = Some (ms, t)" for d s ms t
    using that
    by (subst (asm) parse_members.simps)
      (auto split: option.splits dest!: eat_length IH parse_string_length)
  from v e m show ?case by blast
qed

lemmas parse_value_length = parse_length [THEN conjunct1, rule_format]
lemmas parse_members_length = parse_length [THEN conjunct2, THEN conjunct2, rule_format]

text \<open>The fuel of \<^const>\<open>json_parse\<close> is enough: more of it changes no result.\<close>

lemma parse_fuel:
  "(\<forall>d s. 2 * length s < f \<longrightarrow> parse_value (Suc f) d s = parse_value f d s) \<and>
   (\<forall>d s. 2 * length s + 1 < f \<longrightarrow> parse_elems (Suc f) d s = parse_elems f d s) \<and>
   (\<forall>d s. 2 * length s + 1 < f \<longrightarrow> parse_members (Suc f) d s = parse_members f d s)"
proof (induction f)
  case 0
  then show ?case by simp
next
  case (Suc f)
  then have IH: "2 * length s < f \<Longrightarrow> parse_value (Suc f) d s = parse_value f d s"
    "2 * length s + 1 < f \<Longrightarrow> parse_elems (Suc f) d s = parse_elems f d s"
    "2 * length s + 1 < f \<Longrightarrow> parse_members (Suc f) d s = parse_members f d s" for d s
    by blast+
  have v: "parse_value (Suc (Suc f)) d s = parse_value (Suc f) d s" if "2 * length s < Suc f" for d s
    using that
    by (simp add: parse_value.simps(2) [of "Suc f"] parse_value.simps(2) [of f])
      (auto split: option.splits dest!: eat_length intro!: arg_cong [where f = "map_option _"] IH)
  have e: "parse_elems (Suc (Suc f)) d s = parse_elems (Suc f) d s" if "2 * length s + 1 < Suc f" for d s
    using that IH(1) [of s]
    by (simp add: parse_elems.simps(2) [of "Suc f"] parse_elems.simps(2) [of f])
      (auto split: option.splits dest!: eat_length parse_value_length
        intro!: arg_cong [where f = "map_option _"] IH)
  have m: "parse_members (Suc (Suc f)) d s = parse_members (Suc f) d s" if s: "2 * length s + 1 < Suc f" for d s
  proof -
    have *: "parse_value (Suc f) d t' = parse_value f d t'"
      if "eat dq s = Some r" "parse_string r = Some (k, t)" "eat (CHR '':'') t = Some t'" for r k t t'
      using that s by (intro IH) (auto dest!: eat_length parse_string_length)
    show ?thesis
      using s
      by (simp add: parse_members.simps(2) [of "Suc f"] parse_members.simps(2) [of f])
        (auto simp: * split: option.splits dest!: eat_length parse_value_length parse_string_length
          intro!: arg_cong [where f = "map_option _"] IH)
  qed
  from v e m show ?case by blast
qed

lemma json_parse_fuel:
  assumes "2 * length s + 2 \<le> f"
  shows "parse_value f 0 s = parse_value (2 * length s + 2) 0 s"
  using assms
proof (induction rule: dec_induct)
  case base
  then show ?case by simp
next
  case (step n)
  with parse_fuel [of n] show ?case by simp
qed

end
