(* ===== verification/Storage.thy ===== *)
theory Storage
  imports Go_Json
begin

text \<open>
  Persistence: \<^verbatim>\<open>storage/logstore.go\<close> (the write-ahead log, one JSON entry per line),
  \<^verbatim>\<open>storage/snapshot.go\<close> (the whole map as one JSON object, replaced by a rename) and
  \<^verbatim>\<open>storage/persistence.go\<close>. A file is its bytes; every system call that can fail does so
  according to an outcome argument, which also says how much of a write reached the file.
\<close>

subsection \<open>Entries and their JSON encoding\<close>

record Entry =
  Op :: string
  Key :: string
  Value :: string

definition OpUpsert :: string where "OpUpsert = ''upsert''"

definition OpDelete :: string where "OpDelete = ''delete''"

text \<open>\<^verbatim>\<open>json.Marshal\<close> on the tagged struct: \<^verbatim>\<open>value\<close> is left out when empty.\<close>

definition entry_members :: "Entry \<Rightarrow> (string \<times> string) list" where
  "entry_members e =
     [(''op'', Op e), (''key'', Key e)] @ (if Value e = [] then [] else [(''value'', Value e)])"

definition marshal_entry :: "Entry \<Rightarrow> string" where
  "marshal_entry e = print_object (entry_members e)"

text \<open>
  Field lookup of \<^verbatim>\<open>json.Unmarshal\<close>: the exact name, else the name up to case folding. Only two
  characters outside ASCII fold into it: the Kelvin sign (K) and the long s (S).
\<close>

function fold_name :: "string \<Rightarrow> string" where
  "fold_name s =
     (case s of
        [] \<Rightarrow> []
      | c # r \<Rightarrow>
          if 97 \<le> code c \<and> code c \<le> 122 then char_of (code c - 32) # fold_name r
          else if take 3 s = [CHR 0xE2, CHR 0x84, CHR 0xAA] then CHR ''K'' # fold_name (drop 3 s)
          else if take 2 s = [CHR 0xC5, CHR 0xBF] then CHR ''S'' # fold_name (drop 2 s)
          else c # fold_name r)"
  by pat_completeness auto
termination
  by (relation "measure length") auto

declare fold_name.simps [simp del]

definition field_of :: "string list \<Rightarrow> string \<Rightarrow> string option" where
  "field_of names k = (if k \<in> set names then Some k else find (\<lambda>n. fold_name n = fold_name k) names)"

text \<open>
  One member into the struct: unknown names are skipped, \<^verbatim>\<open>null\<close> leaves the field, a value that
  is not a string is an error (which \<^verbatim>\<open>Unmarshal\<close> reports after decoding the rest).
\<close>

definition set_member :: "Entry \<Rightarrow> string \<times> gojson \<Rightarrow> Entry option" where
  "set_member e m =
     (case field_of [''op'', ''key'', ''value''] (fst m) of
        None \<Rightarrow> Some e
      | Some f \<Rightarrow>
          (case snd m of
             GNull \<Rightarrow> Some e
           | GStr s \<Rightarrow>
               Some (if f = ''op'' then e\<lparr>Op := s\<rparr> else if f = ''key'' then e\<lparr>Key := s\<rparr> else e\<lparr>Value := s\<rparr>)
           | _ \<Rightarrow> None))"

fun set_members :: "Entry \<Rightarrow> (string \<times> gojson) list \<Rightarrow> Entry option" where
  "set_members e [] = Some e"
| "set_members e (m # ms) = (case set_member e m of None \<Rightarrow> None | Some e' \<Rightarrow> set_members e' ms)"

definition zero_entry :: Entry where
  "zero_entry = \<lparr>Op = [], Key = [], Value = []\<rparr>"

definition unmarshal_entry :: "string \<Rightarrow> Entry option" where
  "unmarshal_entry s =
     (case json_parse s of
        Some GNull \<Rightarrow> Some zero_entry
      | Some (GObj ms) \<Rightarrow> set_members zero_entry ms
      | _ \<Rightarrow> None)"

subsection \<open>Maps and their JSON encoding\<close>

text \<open>A Go map of strings: nil, or an association list with distinct keys.\<close>

type_synonym gomap = "(string \<times> string) list option"

definition marshal_map :: "gomap \<Rightarrow> string" where
  "marshal_map m = (case m of None \<Rightarrow> ''null'' | Some kvs \<Rightarrow> print_object (sort_key fst kvs))"

fun fill_map :: "(string \<times> string) list \<Rightarrow> (string \<times> gojson) list \<Rightarrow> (string \<times> string) list option" where
  "fill_map m [] = Some m"
| "fill_map m ((k, v) # ms) =
     (case v of
        GNull \<Rightarrow> fill_map (AList.update k [] m) ms
      | GStr s \<Rightarrow> fill_map (AList.update k s m) ms
      | _ \<Rightarrow> None)"

text \<open>Into a fresh map; the document \<^verbatim>\<open>null\<close> makes the map nil.\<close>

definition unmarshal_map :: "string \<Rightarrow> gomap option" where
  "unmarshal_map s =
     (case json_parse s of
        Some GNull \<Rightarrow> Some None
      | Some (GObj ms) \<Rightarrow> map_option Some (fill_map [] ms)
      | _ \<Rightarrow> None)"

subsection \<open>The log file\<close>

datatype storage_error = ErrUnknownOperation | JSONError | ErrTooLong | IOError

text \<open>What the kernel did with a write: all of it and synced, a prefix, all of it without a sync.\<close>

datatype write_outcome = Written | Torn nat | NotSynced

definition nl :: char where "nl = CHR 0x0A"

definition known_op :: "Entry \<Rightarrow> bool" where
  "known_op e \<longleftrightarrow> Op e = OpUpsert \<or> Op e = OpDelete"

definition FileWAL_Append :: "write_outcome \<Rightarrow> Entry \<Rightarrow> string \<Rightarrow> storage_error option \<times> string" where
  "FileWAL_Append out entry file =
     (if \<not> known_op entry then (Some ErrUnknownOperation, file)
      else
        (let payload = marshal_entry entry @ [nl]
         in case out of
              Written \<Rightarrow> (None, file @ payload)
            | Torn n \<Rightarrow> (Some IOError, file @ take n payload)
            | NotSynced \<Rightarrow> (Some IOError, file @ payload)))"

text \<open>
  \<^verbatim>\<open>bufio.Scanner\<close> over lines: a line of 64 KiB or more does not fit the buffer and stops the
  scan with an error; one carriage return before the line end is dropped; a last line may
  lack its line end. The flag says whether the scan ended in \<^verbatim>\<open>ErrTooLong\<close>.
\<close>

definition maxTokenSize :: nat where "maxTokenSize = 65536"

definition dropCR :: "string \<Rightarrow> string" where
  "dropCR l = (if l \<noteq> [] \<and> last l = CHR 0x0D then butlast l else l)"

lemma tl_dropWhile_less: "s \<noteq> [] \<Longrightarrow> length (dropWhile P s) - Suc 0 < length s"
proof -
  assume "s \<noteq> []"
  then have "0 < length s"
    by simp
  with length_dropWhile_le [of P s] show ?thesis
    by linarith
qed

function scan_lines :: "string \<Rightarrow> string list \<times> bool" where
  "scan_lines s =
     (if s = [] then ([], False)
      else
        (let l = takeWhile (\<lambda>c. c \<noteq> nl) s; r = dropWhile (\<lambda>c. c \<noteq> nl) s
         in if maxTokenSize \<le> length l then ([], True)
            else if r = [] then ([dropCR l], False)
            else (let (ls, e) = scan_lines (tl r) in (dropCR l # ls, e))))"
  by pat_completeness auto
termination
  by (relation "measure length") (simp_all add: tl_dropWhile_less)

declare scan_lines.simps [simp del]

fun decode_lines :: "string list \<Rightarrow> storage_error + Entry list" where
  "decode_lines [] = Inr []"
| "decode_lines (l # ls) =
     (case unmarshal_entry l of
        None \<Rightarrow> Inl JSONError
      | Some e \<Rightarrow>
          if \<not> known_op e then Inl ErrUnknownOperation
          else bind_result (decode_lines ls) (\<lambda>es. Inr (e # es)))"

definition FileWAL_Load :: "bool \<Rightarrow> string \<Rightarrow> storage_error + Entry list" where
  "FileWAL_Load io_ok file =
     (if \<not> io_ok then Inl IOError
      else
        (let (ls, too_long) = scan_lines file
         in bind_result (decode_lines ls) (\<lambda>es. if too_long then Inl ErrTooLong else Inr es)))"

text \<open>The bytes of a log that holds the given entries.\<close>

definition wal_image :: "Entry list \<Rightarrow> string" where
  "wal_image es = concat (map (\<lambda>e. marshal_entry e @ [nl]) es)"

subsection \<open>The snapshot file\<close>

text \<open>The file and its temporary sibling, each absent or with its bytes.\<close>

record snapshot_files =
  snap_file :: "string option"
  tmp_file :: "string option"

datatype save_outcome = Saved | TmpFailed nat | RenameFailed

definition FileSnapshot_Save ::
    "save_outcome \<Rightarrow> gomap \<Rightarrow> snapshot_files \<Rightarrow> storage_error option \<times> snapshot_files" where
  "FileSnapshot_Save out state files =
     (let payload = marshal_map state
      in case out of
           TmpFailed n \<Rightarrow> (Some IOError, files\<lparr>tmp_file := Some (take n payload)\<rparr>)
         | RenameFailed \<Rightarrow> (Some IOError, files\<lparr>tmp_file := Some payload\<rparr>)
         | Saved \<Rightarrow> (None, \<lparr>snap_file = Some payload, tmp_file = None\<rparr>))"

definition FileSnapshot_Load :: "bool \<Rightarrow> snapshot_files \<Rightarrow> storage_error + gomap" where
  "FileSnapshot_Load io_ok files =
     (if \<not> io_ok then Inl IOError
      else case snap_file files of
             None \<Rightarrow> Inr (Some [])
           | Some payload \<Rightarrow>
               if payload = [] then Inr (Some [])
               else (case unmarshal_map payload of None \<Rightarrow> Inl JSONError | Some m \<Rightarrow> Inr m))"

subsection \<open>The interfaces\<close>

text \<open>A value of the interface \<^verbatim>\<open>WAL\<close> or \<^verbatim>\<open>SnapshotStore\<close>, with the dispatch of its methods.\<close>

datatype WAL = FileWAL string | NoopWAL

datatype SnapshotStore = FileSnapshot snapshot_files | NoopSnapshot

fun wal_Append :: "write_outcome \<Rightarrow> Entry \<Rightarrow> WAL \<Rightarrow> storage_error option \<times> WAL" where
  "wal_Append out e (FileWAL f) = (let (err, f') = FileWAL_Append out e f in (err, FileWAL f'))"
| "wal_Append out e NoopWAL = (None, NoopWAL)"

fun wal_Load :: "bool \<Rightarrow> WAL \<Rightarrow> storage_error + Entry list" where
  "wal_Load ok (FileWAL f) = FileWAL_Load ok f"
| "wal_Load ok NoopWAL = Inr []"

fun snap_Save :: "save_outcome \<Rightarrow> gomap \<Rightarrow> SnapshotStore \<Rightarrow> storage_error option \<times> SnapshotStore" where
  "snap_Save out m (FileSnapshot f) = (let (err, f') = FileSnapshot_Save out m f in (err, FileSnapshot f'))"
| "snap_Save out m NoopSnapshot = (None, NoopSnapshot)"

fun snap_Load :: "bool \<Rightarrow> SnapshotStore \<Rightarrow> storage_error + gomap" where
  "snap_Load ok (FileSnapshot f) = FileSnapshot_Load ok f"
| "snap_Load ok NoopSnapshot = Inr (Some [])"

text \<open>
  Opening: the directory and the file may be refused (\<open>ok\<close>); an absent log file is created
  empty. The file system is a partial map from paths to contents.
\<close>

record Config =
  Enabled :: bool
  Path :: string

definition OpenWAL :: "bool \<Rightarrow> (string \<rightharpoonup> string) \<Rightarrow> Config \<Rightarrow> storage_error + WAL" where
  "OpenWAL ok fs cfg =
     (if \<not> Enabled cfg then Inr NoopWAL
      else if \<not> ok then Inl IOError
      else Inr (FileWAL (case fs (Path cfg) of None \<Rightarrow> [] | Some f \<Rightarrow> f)))"

definition OpenSnapshot :: "bool \<Rightarrow> (string \<rightharpoonup> string) \<Rightarrow> Config \<Rightarrow> storage_error + SnapshotStore" where
  "OpenSnapshot ok fs cfg =
     (if \<not> Enabled cfg then Inr NoopSnapshot
      else if \<not> ok then Inl IOError
      else Inr (FileSnapshot \<lparr>snap_file = fs (Path cfg), tmp_file = fs (Path cfg @ ''.tmp'')\<rparr>))"

subsection \<open>Round trips\<close>

definition sanitize :: "Entry \<Rightarrow> Entry" where
  "sanitize e = \<lparr>Op = to_valid (Op e), Key = to_valid (Key e), Value = to_valid (Value e)\<rparr>"

definition entry_valid :: "Entry \<Rightarrow> bool" where
  "entry_valid e \<longleftrightarrow> valid_utf8 (Op e) \<and> valid_utf8 (Key e) \<and> valid_utf8 (Value e)"

lemma sanitize_id: "entry_valid e \<Longrightarrow> sanitize e = e"
  by (simp add: sanitize_def entry_valid_def to_valid_id)

lemma field_names_valid [simp]:
  "to_valid ''op'' = ''op''" "to_valid ''key'' = ''key''" "to_valid ''value'' = ''value''"
  by (simp_all add: to_valid_id)

lemma set_members_entry:
  "set_members zero_entry (map (\<lambda>(k, v). (to_valid k, GStr (to_valid v))) (entry_members e)) = Some (sanitize e)"
  by (simp add: entry_members_def set_member_def field_of_def zero_entry_def sanitize_def)

lemma unmarshal_marshal_entry: "unmarshal_entry (marshal_entry e) = Some (sanitize e)"
  by (simp add: unmarshal_entry_def marshal_entry_def json_parse_print_object set_members_entry)

lemma print_members_printable:
  "c \<in> set (print_members kvs) \<Longrightarrow> 0x20 \<le> code c"
  by (induction kvs rule: print_members.induct)
    (auto simp: json_string_def dest: quote_body_printable)

lemma print_object_printable: "c \<in> set (print_object kvs) \<Longrightarrow> 0x20 \<le> code c"
  by (auto simp: print_object_def dest: print_members_printable)

lemma scan_line:
  assumes "nl \<notin> set l"
  shows "scan_lines (l @ nl # t) =
     (if maxTokenSize \<le> length l then ([], True)
      else (dropCR l # fst (scan_lines t), snd (scan_lines t)))"
proof -
  have "\<forall>c \<in> set l. c \<noteq> nl"
    using assms by blast
  then have "takeWhile (\<lambda>c. c \<noteq> nl) (l @ nl # t) = l" "dropWhile (\<lambda>c. c \<noteq> nl) (l @ nl # t) = nl # t"
    by (simp_all add: takeWhile_append2 dropWhile_append2)
  then show ?thesis
    by (subst scan_lines.simps) (simp add: case_prod_beta)
qed

text \<open>
  A codec for a line-oriented file: the encoding decodes to the value, holds no line end and
  does not end in a carriage return.
\<close>

locale line_codec =
  fixes enc :: "'e \<Rightarrow> string" and dec :: "string \<Rightarrow> 'e option" and valid :: "'e \<Rightarrow> bool"
  assumes dec_enc: "valid e \<Longrightarrow> dec (enc e) = Some e"
    and enc_line: "nl \<notin> set (enc e)"
    and enc_end: "dropCR (enc e) = enc e"
begin

lemma scan_enc:
  "scan_lines (enc e @ nl # t) =
     (if maxTokenSize \<le> length (enc e) then ([], True)
      else (enc e # fst (scan_lines t), snd (scan_lines t)))"
  using scan_line [OF enc_line] by (simp add: enc_end)

lemma scan_image:
  assumes "\<forall>e \<in> set es. length (enc e) < maxTokenSize"
  shows "scan_lines (concat (map (\<lambda>e. enc e @ [nl]) es) @ t) =
     (map enc es @ fst (scan_lines t), snd (scan_lines t))"
  using assms by (induction es) (simp_all add: scan_enc)

lemma scan_unterminated:
  assumes "length (enc e) < maxTokenSize" "enc e \<noteq> []"
  shows "scan_lines (enc e) = ([enc e], False)"
proof -
  have "\<forall>c \<in> set (enc e). c \<noteq> nl"
    using enc_line by blast
  then have "takeWhile (\<lambda>c. c \<noteq> nl) (enc e) = enc e" "dropWhile (\<lambda>c. c \<noteq> nl) (enc e) = []"
    by simp_all
  then show ?thesis
    using assms by (subst scan_lines.simps) (simp add: enc_end Let_def del: dropWhile_eq_Nil_conv takeWhile_eq_all_conv)
qed

end

lemma marshal_entry_last: "\<exists>p. marshal_entry e = CHR ''{'' # p @ ''}''"
  by (simp add: marshal_entry_def print_object_def)

interpretation entry_json: line_codec marshal_entry unmarshal_entry entry_valid
proof
  show "unmarshal_entry (marshal_entry e) = Some e" if "entry_valid e" for e
    using that by (simp add: unmarshal_marshal_entry sanitize_id)
  show "nl \<notin> set (marshal_entry e)" for e
    by (auto simp: marshal_entry_def nl_def dest!: print_object_printable)
  show "dropCR (marshal_entry e) = marshal_entry e" for e
    using marshal_entry_last [of e] by (auto simp: dropCR_def)
qed

definition storable :: "Entry \<Rightarrow> bool" where
  "storable e \<longleftrightarrow> known_op e \<and> entry_valid e \<and> length (marshal_entry e) < maxTokenSize"

lemma decode_lines_append:
  "\<forall>e \<in> set es. known_op e \<and> entry_valid e \<Longrightarrow>
     decode_lines (map marshal_entry es @ ls) = bind_result (decode_lines ls) (\<lambda>es'. Inr (es @ es'))"
proof (induction es)
  case Nil
  then show ?case by (cases "decode_lines ls") simp_all
next
  case (Cons e es)
  then show ?case
    by (cases "decode_lines ls") (simp_all add: entry_json.dec_enc)
qed

text \<open>Loading a log file whose first part is an image of storable entries.\<close>

lemma FileWAL_Load_image:
  assumes "\<forall>e \<in> set es. storable e"
  shows "FileWAL_Load True (wal_image es @ t) =
     bind_result (FileWAL_Load True t) (\<lambda>es'. Inr (es @ es'))"
proof -
  have "scan_lines (wal_image es @ t) = (map marshal_entry es @ fst (scan_lines t), snd (scan_lines t))"
    using assms entry_json.scan_image by (simp add: wal_image_def storable_def)
  then show ?thesis
    using assms decode_lines_append [of es "fst (scan_lines t)"]
    by (cases "decode_lines (fst (scan_lines t))"; cases "snd (scan_lines t)")
      (simp_all add: FileWAL_Load_def storable_def case_prod_beta)
qed

lemma FileWAL_Load_Nil [simp]: "FileWAL_Load True [] = Inr []"
  by (simp add: FileWAL_Load_def scan_lines.simps)

lemma wal_image_append: "wal_image (es @ es') = wal_image es @ wal_image es'"
  by (simp add: wal_image_def)

lemma FileWAL_Append_image:
  "storable e \<Longrightarrow> FileWAL_Append Written e (wal_image es) = (None, wal_image (es @ [e]))"
  by (simp add: FileWAL_Append_def storable_def wal_image_def)

subsection \<open>The log as a durable sequence of entries\<close>

text \<open>
  What a client of the log relies on: a clean log loads, and an append that succeeds adds
  its entry at the end and keeps the log clean.
\<close>

locale entry_log =
  fixes append_to :: "write_outcome \<Rightarrow> Entry \<Rightarrow> 'w \<Rightarrow> storage_error option \<times> 'w"
    and load :: "'w \<Rightarrow> storage_error + Entry list"
    and accepts :: "Entry \<Rightarrow> bool" and clean :: "'w \<Rightarrow> bool"
  assumes clean_load: "clean w \<Longrightarrow> \<exists>es. load w = Inr es"
    and append_load: "\<lbrakk>clean w; accepts e; load w = Inr es; append_to Written e w = (err, w')\<rbrakk> \<Longrightarrow>
      err = None \<and> clean w' \<and> load w' = Inr (es @ [e])"
begin

fun append_all :: "Entry list \<Rightarrow> 'w \<Rightarrow> 'w" where
  "append_all [] w = w"
| "append_all (e # es) w = append_all es (snd (append_to Written e w))"

lemma append_all_load:
  "\<lbrakk>clean w; load w = Inr es; \<forall>e \<in> set es'. accepts e\<rbrakk> \<Longrightarrow> load (append_all es' w) = Inr (es @ es')"
proof (induction es' arbitrary: w es)
  case Nil
  then show ?case by simp
next
  case (Cons e es')
  obtain err w' where w': "append_to Written e w = (err, w')"
    by fastforce
  with Cons append_load [of w e es err w'] show ?case
    by simp
qed

end

definition wal_clean :: "WAL \<Rightarrow> bool" where
  "wal_clean w \<longleftrightarrow> (\<exists>es. w = FileWAL (wal_image es) \<and> (\<forall>e \<in> set es. storable e))"

lemma wal_Load_image: "\<forall>e \<in> set es. storable e \<Longrightarrow> wal_Load True (FileWAL (wal_image es)) = Inr es"
  using FileWAL_Load_image [of es "[]"] by simp

interpretation wal_file: entry_log wal_Append "wal_Load True" storable wal_clean
proof
  show "\<exists>es. wal_Load True w = Inr es" if "wal_clean w" for w
    using that wal_Load_image by (auto simp: wal_clean_def)
next
  fix w e es err w'
  assume a: "wal_clean w" "storable e" "wal_Load True w = Inr es" "wal_Append Written e w = (err, w')"
  then obtain es' where w: "w = FileWAL (wal_image es')" "\<forall>e \<in> set es'. storable e"
    by (auto simp: wal_clean_def)
  with a wal_Load_image have "es' = es"
    by simp
  moreover have "w' = FileWAL (wal_image (es' @ [e]))" "err = None"
    using a w by (simp_all add: FileWAL_Append_image)
  moreover have "\<forall>x \<in> set (es' @ [e]). storable x"
    using w a by auto
  ultimately show "err = None \<and> wal_clean w' \<and> wal_Load True w' = Inr (es @ [e])"
    using wal_Load_image [of "es' @ [e]"] unfolding wal_clean_def by blast
qed

subsection \<open>The snapshot as a durable map\<close>

definition map_valid :: "(string \<times> string) list \<Rightarrow> bool" where
  "map_valid kvs \<longleftrightarrow> distinct (map fst kvs) \<and> (\<forall>(k, v) \<in> set kvs. valid_utf8 k \<and> valid_utf8 v)"

lemma fill_map_strings:
  "\<exists>m'. fill_map m (map (\<lambda>(k, v). (k, GStr v)) kvs) = Some m' \<and> map_of m' = map_of m ++ map_of (rev kvs) \<and>
     (distinct (map fst m) \<longrightarrow> distinct (map fst m'))"
proof (induction kvs arbitrary: m)
  case Nil
  then show ?case by simp
next
  case (Cons kv kvs)
  obtain k v where kv: "kv = (k, v)" by fastforce
  from Cons [of "AList.update k v m"] obtain m' where
      "fill_map (AList.update k v m) (map (\<lambda>(k, v). (k, GStr v)) kvs) = Some m'"
      "map_of m' = (map_of m)(k \<mapsto> v) ++ map_of (rev kvs)"
      "distinct (map fst m) \<longrightarrow> distinct (map fst m')"
    using distinct_update [of m k v] unfolding update_conv' by blast
  then show ?case
    by (simp add: kv map_of_append)
qed

lemma unmarshal_marshal_map:
  assumes "map_valid kvs"
  shows "\<exists>kvs'. unmarshal_map (marshal_map (Some kvs)) = Some (Some kvs') \<and> map_of kvs' = map_of kvs \<and>
     distinct (map fst kvs')"
proof -
  let ?s = "sort_key fst kvs"
  have "json_parse (marshal_map (Some kvs)) = Some (GObj (map (\<lambda>(k, v). (k, GStr v)) ?s))"
    unfolding marshal_map_def option.case json_parse_print_object
    using assms by (auto simp: map_valid_def to_valid_id)
  moreover have "distinct (map fst ?s)"
    using assms by (simp add: map_valid_def distinct_map)
  then have "map_of (rev ?s) = map_of kvs"
    using assms by (intro map_of_eqI) (auto simp: map_valid_def rev_map distinct_map)
  ultimately show ?thesis
    using fill_map_strings [of "[]" ?s]
    by (auto simp: unmarshal_map_def)
qed

text \<open>
  What a client of the snapshot relies on: a save that succeeds is what the next load
  returns, a save that fails leaves what was there.
\<close>

locale state_store =
  fixes save :: "save_outcome \<Rightarrow> gomap \<Rightarrow> 's \<Rightarrow> storage_error option \<times> 's"
    and restore :: "'s \<Rightarrow> storage_error + gomap"
    and fits :: "(string \<times> string) list \<Rightarrow> bool" and durable :: "'s \<Rightarrow> bool"
  assumes save_restore: "\<lbrakk>durable s; fits kvs; save Saved (Some kvs) s = (err, s')\<rbrakk> \<Longrightarrow>
      err = None \<and> (\<exists>kvs'. restore s' = Inr (Some kvs') \<and> map_of kvs' = map_of kvs \<and> distinct (map fst kvs'))"
    and save_failed: "\<lbrakk>durable s; out \<noteq> Saved; save out m s = (err, s')\<rbrakk> \<Longrightarrow>
      err \<noteq> None \<and> restore s' = restore s"
    and save_durable: "\<lbrakk>durable s; save out m s = (err, s')\<rbrakk> \<Longrightarrow> durable s'"

definition is_file :: "SnapshotStore \<Rightarrow> bool" where
  "is_file s \<longleftrightarrow> (\<exists>f. s = FileSnapshot f)"

lemma marshal_map_nonempty: "marshal_map m \<noteq> []"
  by (simp add: marshal_map_def print_object_def split: option.split)

interpretation snap_file: state_store snap_Save "snap_Load True" map_valid is_file
proof
  fix s kvs err s'
  assume "is_file s" "map_valid kvs" "snap_Save Saved (Some kvs) s = (err, s')"
  then show "err = None \<and>
      (\<exists>kvs'. snap_Load True s' = Inr (Some kvs') \<and> map_of kvs' = map_of kvs \<and> distinct (map fst kvs'))"
    using unmarshal_marshal_map [of kvs] marshal_map_nonempty [of "Some kvs"]
    by (auto simp: is_file_def FileSnapshot_Save_def FileSnapshot_Load_def)
next
  fix s out m err s'
  assume "is_file s" "out \<noteq> Saved" "snap_Save out m s = (err, s')"
  then show "err \<noteq> None \<and> snap_Load True s' = snap_Load True s"
    by (auto simp: is_file_def FileSnapshot_Save_def FileSnapshot_Load_def Let_def split: save_outcome.splits)
next
  fix s out m err s'
  assume "is_file s" "snap_Save out m s = (err, s')"
  then show "is_file s'"
    by (auto simp: is_file_def case_prod_beta)
qed

lemma sanitize_known: "known_op e \<Longrightarrow> known_op (sanitize e)"
  by (auto simp: known_op_def sanitize_def OpUpsert_def OpDelete_def to_valid_id)

lemma decode_lines_sanitize:
  "\<forall>e \<in> set es. known_op e \<Longrightarrow> decode_lines (map marshal_entry es) = Inr (map sanitize es)"
  by (induction es) (simp_all add: unmarshal_marshal_entry sanitize_known)

text \<open>
  C15. Round trip of the log. Appending entries with a known operation and lines below 64 KiB to
  an empty log file, each write succeeding, and loading the file gives back the entries in
  order, unchanged when their strings are valid UTF-8 and with every invalid byte replaced by
  U+FFFD otherwise.
\<close>

theorem wal_roundtrip:
  assumes "\<forall>e \<in> set es. known_op e \<and> length (marshal_entry e) < maxTokenSize"
  shows "FileWAL_Load True (foldl (\<lambda>f e. snd (FileWAL_Append Written e f)) [] es) = Inr (map sanitize es)
     \<and> (\<forall>e. entry_valid e \<longrightarrow> sanitize e = e)"
proof -
  have "foldl (\<lambda>f e. snd (FileWAL_Append Written e f)) f0 es = f0 @ wal_image es" for f0
    using assms by (induction es arbitrary: f0) (simp_all add: FileWAL_Append_def wal_image_def)
  moreover have "scan_lines (wal_image es) = (map marshal_entry es, False)"
    using assms entry_json.scan_image [of es "[]"] by (simp add: wal_image_def scan_lines.simps [of "[]"])
  ultimately show ?thesis
    using assms by (simp add: FileWAL_Load_def decode_lines_sanitize sanitize_id)
qed

theorem wal_roundtrip_witness:
  "FileWAL_Load True (snd (FileWAL_Append Written \<lparr>Op = OpDelete, Key = [CHR 0xFF], Value = []\<rparr> [])) =
     Inr [\<lparr>Op = OpDelete, Key = [CHR 0xEF, CHR 0xBF, CHR 0xBD], Value = []\<rparr>]"
proof -
  have m: "marshal_entry \<lparr>Op = OpDelete, Key = [CHR 0xFF], Value = []\<rparr> =
      CHR ''{'' # dq # ''op'' @ dq # CHR '':'' # dq # ''delete'' @ dq # CHR '','' # dq # ''key'' @ dq #
      CHR '':'' # dq # bs # ''ufffd'' @ dq # ''}''"
    by code_simp
  have "sanitize \<lparr>Op = OpDelete, Key = [CHR 0xFF], Value = []\<rparr> =
      \<lparr>Op = OpDelete, Key = [CHR 0xEF, CHR 0xBF, CHR 0xBD], Value = []\<rparr>"
    by code_simp
  then show ?thesis
    using wal_roundtrip [of "[\<lparr>Op = OpDelete, Key = [CHR 0xFF], Value = []\<rparr>]"]
    by (simp add: m known_op_def maxTokenSize_def)
qed

end
