(* ===== verification/Kv_Store.thy ===== *)
theory Kv_Store
  imports Storage
begin

text \<open>
  The key-value store: \<^verbatim>\<open>kv/store.go\<close> and the apply loop of \<^verbatim>\<open>kv/apply.go\<close>. Every mutation is
  logged, then applied, and every hundredth one also saves a snapshot. The abstract state of
  a store is the partial map its data stands for.
\<close>

subsection \<open>The store\<close>

datatype store_error = ErrEmptyKey | StorageError storage_error

record Store =
  data :: gomap
  wal :: "WAL option"
  snapshot :: "SnapshotStore option"
  writeCount :: "64 word"
  snapshotInterval :: int

text \<open>What an operation returned: its error value, or the panic that ended it.\<close>

datatype op_result = Returned "store_error option" | Panicked go_panic

definition DefaultSnapshotInterval :: int where
  "DefaultSnapshotInterval = 100"

definition NewStore :: "WAL option \<Rightarrow> SnapshotStore option \<Rightarrow> Store" where
  "NewStore w sn =
     \<lparr>data = Some [], wal = w, snapshot = sn, writeCount = 0, snapshotInterval = DefaultSnapshotInterval\<rparr>"

definition applyLocked :: "Entry \<Rightarrow> Store \<Rightarrow> Store go_result" where
  "applyLocked entry s =
     (if Op entry = OpDelete then Inr (s\<lparr>data := map_option (AList.delete (Key entry)) (data s)\<rparr>)
      else case data s of
             None \<Rightarrow> Inl NilMapWrite
           | Some d \<Rightarrow> Inr (s\<lparr>data := Some (AList.update (Key entry) (Value entry) d)\<rparr>))"

fun apply_entries :: "Entry list \<Rightarrow> Store \<Rightarrow> Store go_result" where
  "apply_entries [] s = Inr s"
| "apply_entries (e # es) s = bind_result (applyLocked e s) (apply_entries es)"

text \<open>
  The constructor that recovers from disk: the snapshot first, then the whole log on top.
  The two flags are the outcomes of reading the files.
\<close>

definition load_snapshot :: "bool \<Rightarrow> SnapshotStore option \<Rightarrow> storage_error + gomap" where
  "load_snapshot ok sn = (case sn of None \<Rightarrow> Inr (Some []) | Some x \<Rightarrow> snap_Load ok x)"

definition load_wal :: "bool \<Rightarrow> WAL option \<Rightarrow> storage_error + Entry list" where
  "load_wal ok w = (case w of None \<Rightarrow> Inr [] | Some x \<Rightarrow> wal_Load ok x)"

definition NewStoreFromDisk ::
    "bool \<Rightarrow> bool \<Rightarrow> WAL option \<Rightarrow> SnapshotStore option \<Rightarrow> (store_error + Store) go_result" where
  "NewStoreFromDisk snap_ok wal_ok w sn =
     (case load_snapshot snap_ok sn of
        Inl err \<Rightarrow> Inr (Inl (StorageError err))
      | Inr state \<Rightarrow>
          (case load_wal wal_ok w of
             Inl err \<Rightarrow> Inr (Inl (StorageError err))
           | Inr entries \<Rightarrow>
               bind_result (apply_entries entries ((NewStore w sn)\<lparr>data := state\<rparr>)) (\<lambda>s. Inr (Inr s))))"

definition append_entry :: "write_outcome \<Rightarrow> Entry \<Rightarrow> Store \<Rightarrow> storage_error option \<times> Store" where
  "append_entry out entry s =
     (case wal s of
        None \<Rightarrow> (None, s)
      | Some w \<Rightarrow> (let (err, w') = wal_Append out entry w in (err, s\<lparr>wal := Some w'\<rparr>)))"

text \<open>After the log and the map: count the write and save a copy of the map when it is due.\<close>

definition maybe_snapshot :: "save_outcome \<Rightarrow> Store \<Rightarrow> op_result \<times> Store" where
  "maybe_snapshot out s =
     (case snapshot s of
        None \<Rightarrow> (Returned None, s)
      | Some sn \<Rightarrow>
          if snapshotInterval s = 0 then (Returned None, s)
          else
            (let s' = s\<lparr>writeCount := writeCount s + 1\<rparr>
             in if sint (writeCount s') smod snapshotInterval s' \<noteq> 0 then (Returned None, s')
                else
                  (let state = Some (case data s' of None \<Rightarrow> [] | Some d \<Rightarrow> d);
                       (err, sn') = snap_Save out state sn
                   in (Returned (map_option StorageError err), s'\<lparr>snapshot := Some sn'\<rparr>))))"

definition persistAndApplyLocked ::
    "write_outcome \<Rightarrow> save_outcome \<Rightarrow> Entry \<Rightarrow> Store \<Rightarrow> op_result \<times> Store" where
  "persistAndApplyLocked wo so entry s =
     (case append_entry wo entry s of
        (Some err, s1) \<Rightarrow> (Returned (Some (StorageError err)), s1)
      | (None, s1) \<Rightarrow>
          (case applyLocked entry s1 of
             Inl p \<Rightarrow> (Panicked p, s1)
           | Inr s2 \<Rightarrow> maybe_snapshot so s2))"

definition Upsert :: "write_outcome \<Rightarrow> save_outcome \<Rightarrow> string \<Rightarrow> string \<Rightarrow> Store \<Rightarrow> op_result \<times> Store" where
  "Upsert wo so key v s =
     (if key = [] then (Returned (Some ErrEmptyKey), s)
      else persistAndApplyLocked wo so \<lparr>Op = OpUpsert, Key = key, Value = v\<rparr> s)"

definition Delete :: "write_outcome \<Rightarrow> save_outcome \<Rightarrow> string \<Rightarrow> Store \<Rightarrow> op_result \<times> Store" where
  "Delete wo so key s =
     (if key = [] then (Returned (Some ErrEmptyKey), s)
      else persistAndApplyLocked wo so \<lparr>Op = OpDelete, Key = key, Value = []\<rparr> s)"

definition Get :: "string \<Rightarrow> Store \<Rightarrow> store_error + string \<times> bool" where
  "Get key s =
     (if key = [] then Inl ErrEmptyKey
      else Inr (case data s of
                  None \<Rightarrow> ([], False)
                | Some d \<Rightarrow> (case map_of d key of None \<Rightarrow> ([], False) | Some v \<Rightarrow> (v, True))))"

definition Snapshot :: "Store \<Rightarrow> (string \<times> string) list" where
  "Snapshot s = (case data s of None \<Rightarrow> [] | Some d \<Rightarrow> d)"

subsection \<open>The apply loop\<close>

definition Apply :: "write_outcome \<Rightarrow> save_outcome \<Rightarrow> Entry \<Rightarrow> Store \<Rightarrow> op_result \<times> Store" where
  "Apply wo so entry s =
     (if Key entry = [] then (Returned (Some ErrEmptyKey), s)
      else if Op entry = OpDelete then Delete wo so (Key entry) s
      else if Op entry = OpUpsert then Upsert wo so (Key entry) (Value entry) s
      else (Returned (Some (StorageError ErrUnknownOperation)), s))"

text \<open>
  Commands arrive with the outcomes of the writes they cause. Undecodable commands and
  errors are logged and skipped; a panic ends the loop (and the process).
\<close>

fun RunApplyLoop :: "(write_outcome \<times> save_outcome \<times> string) list \<Rightarrow> Store \<Rightarrow> go_panic option \<times> Store" where
  "RunApplyLoop [] s = (None, s)"
| "RunApplyLoop ((wo, so, cmd) # cmds) s =
     (case unmarshal_entry cmd of
        None \<Rightarrow> RunApplyLoop cmds s
      | Some entry \<Rightarrow>
          (case Apply wo so entry s of
             (Panicked p, s') \<Rightarrow> (Some p, s')
           | (Returned _, s') \<Rightarrow> RunApplyLoop cmds s'))"

subsection \<open>The abstract map\<close>

definition store_map :: "Store \<Rightarrow> (string \<rightharpoonup> string)" where
  "store_map s = (case data s of None \<Rightarrow> Map.empty | Some d \<Rightarrow> map_of d)"

definition spec_apply :: "Entry \<Rightarrow> (string \<rightharpoonup> string) \<Rightarrow> (string \<rightharpoonup> string)" where
  "spec_apply e m = (if Op e = OpDelete then m(Key e := None) else m(Key e \<mapsto> Value e))"

definition replay :: "Entry list \<Rightarrow> (string \<rightharpoonup> string) \<Rightarrow> (string \<rightharpoonup> string)" where
  "replay es m = fold spec_apply es m"

lemma replay_simps [simp]: "replay [] m = m" "replay (e # es) m = replay es (spec_apply e m)"
  "replay (es @ es') m = replay es' (replay es m)"
  by (simp_all add: replay_def)

text \<open>Only the last entry for a key counts, and a key without an entry keeps its value.\<close>

lemma replay_key: "replay es m k = (if k \<in> Key ` set es then replay es Map.empty k else m k)"
proof (induction es rule: rev_induct)
  case Nil
  then show ?case by simp
next
  case (snoc e es)
  then show ?case by (auto simp: spec_apply_def)
qed

text \<open>
  Replaying a log over a map that a prefix of the same log already produced changes nothing:
  this is why a snapshot may be taken at any time without truncating the log.
\<close>

lemma replay_prefix: "replay (es @ es') (replay es m) = replay (es @ es') m"
proof
  fix k
  show "replay (es @ es') (replay es m) k = replay (es @ es') m k"
    by (subst (1 2) replay_key) (simp add: replay_key [of es m k] image_Un)
qed

lemma replay_idem: "replay es (replay es m) = replay es m"
  using replay_prefix [of es "[]" m] by simp

subsection \<open>Refinement of the abstract map\<close>

lemma map_of_delete_alist: "map_of (AList.delete k d) = (map_of d)(k := None)"
  by (rule delete_conv')

lemma applyLocked_spec:
  "data s \<noteq> None \<Longrightarrow> \<exists>s'. applyLocked e s = Inr s' \<and> store_map s' = spec_apply e (store_map s) \<and>
     data s' \<noteq> None \<and> wal s' = wal s \<and> snapshot s' = snapshot s"
  by (auto simp: applyLocked_def store_map_def spec_apply_def update_conv' delete_conv')

lemma apply_entries_spec:
  "data s \<noteq> None \<Longrightarrow> \<exists>s'. apply_entries es s = Inr s' \<and> store_map s' = replay es (store_map s) \<and>
     data s' \<noteq> None \<and> wal s' = wal s \<and> snapshot s' = snapshot s"
proof (induction es arbitrary: s)
  case Nil
  then show ?case by simp
next
  case (Cons e es)
  from applyLocked_spec [OF Cons.prems] obtain s1 where
    s1: "applyLocked e s = Inr s1" "store_map s1 = spec_apply e (store_map s)" "data s1 \<noteq> None"
      "wal s1 = wal s" "snapshot s1 = snapshot s" by blast
  from Cons.IH [OF s1(3)] s1 show ?case
    by simp
qed

lemma maybe_snapshot_frame:
  assumes "maybe_snapshot out s = (r, s')"
  shows "data s' = data s \<and> wal s' = wal s \<and> (\<exists>err. r = Returned err)"
  using assms by (auto simp: maybe_snapshot_def Let_def case_prod_beta split: option.splits if_splits)

text \<open>A mutation whose log write succeeds performs the abstract operation, whatever the snapshot does.\<close>

lemma persist_spec:
  assumes "data s \<noteq> None" "known_op e" "persistAndApplyLocked Written so e s = (r, s')"
  shows "store_map s' = spec_apply e (store_map s) \<and> data s' \<noteq> None \<and> (\<exists>err. r = Returned err)"
proof -
  obtain s1 where s1: "append_entry Written e s = (None, s1)" "data s1 = data s"
    using assms(2) by (cases "wal s"; cases "the (wal s)") (auto simp: append_entry_def FileWAL_Append_def Let_def)
  then have "data s1 \<noteq> None"
    using assms(1) by simp
  from applyLocked_spec [OF this] obtain s2 where
    "applyLocked e s1 = Inr s2" "store_map s2 = spec_apply e (store_map s1)" "data s2 \<noteq> None"
    by blast
  with s1 assms(3) show ?thesis
    by (auto simp: persistAndApplyLocked_def store_map_def dest!: maybe_snapshot_frame)
qed

lemma persist_failed:
  assumes "wal s = Some (FileWAL f)" "wo \<noteq> Written" "persistAndApplyLocked wo so e s = (r, s')"
  shows "store_map s' = store_map s \<and> (\<exists>err. r = Returned (Some err))"
  using assms
  by (auto simp: persistAndApplyLocked_def append_entry_def FileWAL_Append_def Let_def store_map_def
      split: write_outcome.splits if_splits)

lemma Get_spec:
  "key \<noteq> [] \<Longrightarrow> Get key s = Inr (case store_map s key of None \<Rightarrow> ([], False) | Some v \<Rightarrow> (v, True))"
  by (simp add: Get_def store_map_def split: option.splits)

lemma maybe_snapshot_Saved: "maybe_snapshot Saved s = (r, s') \<Longrightarrow> r = Returned None"
proof (cases "snapshot s")
  case (Some sn)
  moreover assume "maybe_snapshot Saved s = (r, s')"
  ultimately show ?thesis
    by (cases sn) (auto simp: maybe_snapshot_def Let_def FileSnapshot_Save_def split: if_splits)
qed (simp add: maybe_snapshot_def)

lemma persist_Saved:
  assumes "data s \<noteq> None" "known_op e" "persistAndApplyLocked Written Saved e s = (r, s')"
  shows "r = Returned None"
proof -
  obtain s1 where s1: "append_entry Written e s = (None, s1)" "data s1 \<noteq> None"
    using assms(1,2) by (cases "wal s"; cases "the (wal s)") (auto simp: append_entry_def FileWAL_Append_def Let_def)
  from applyLocked_spec [OF this(2), of e] s1 assms(3) show ?thesis
    by (auto simp: persistAndApplyLocked_def dest: maybe_snapshot_Saved)
qed

lemma store_map_Get: "Get key s' = Get key s" if "store_map s' key = store_map s key"
  using that by (cases "key = []") (simp_all add: Get_spec, simp add: Get_def)

subsection \<open>Recovery\<close>

text \<open>A log and a snapshot together: logging an entry, then saving the state, keeps the replayed map.\<close>

locale durable_state = entry_log append_to load accepts clean + state_store save restore fits durable
  for append_to :: "write_outcome \<Rightarrow> Entry \<Rightarrow> 'w \<Rightarrow> storage_error option \<times> 'w"
    and load accepts clean
    and save :: "save_outcome \<Rightarrow> gomap \<Rightarrow> 's \<Rightarrow> storage_error option \<times> 's"
    and restore fits durable
begin

definition holds_map :: "'w \<Rightarrow> 's \<Rightarrow> (string \<rightharpoonup> string) \<Rightarrow> bool" where
  "holds_map w s m \<longleftrightarrow> clean w \<and> durable s \<and>
     (\<exists>es kvs. load w = Inr es \<and> restore s = Inr (Some kvs) \<and> distinct (map fst kvs) \<and>
        replay es (map_of kvs) = m)"

lemma holds_append:
  "\<lbrakk>holds_map w s m; accepts e; append_to Written e w = (err, w')\<rbrakk> \<Longrightarrow>
     err = None \<and> holds_map w' s (spec_apply e m)"
  using append_load [of w e _ err w'] by (fastforce simp: holds_map_def)

lemma holds_save:
  assumes "holds_map w s m" "fits kvs" "map_of kvs = m" "save out (Some kvs) s = (err, s')"
  shows "holds_map w s' m"
proof (cases "out = Saved")
  case True
  from assms(1) obtain es kvs0 where w: "clean w" "durable s" "load w = Inr es" "replay es (map_of kvs0) = m"
    by (auto simp: holds_map_def)
  with True assms save_restore [of s kvs err s'] obtain kvs' where
    "restore s' = Inr (Some kvs')" "map_of kvs' = m" "distinct (map fst kvs')"
    by auto
  moreover have "durable s'"
    using save_durable w assms by blast
  moreover have "replay es m = m"
    using w replay_idem by metis
  ultimately show ?thesis
    using w by (auto simp: holds_map_def)
next
  case False
  with assms save_failed [of s out "Some kvs" err s'] save_durable [of s out "Some kvs" err s'] show ?thesis
    by (auto simp: holds_map_def)
qed

end

interpretation disk: durable_state wal_Append "wal_Load True" storable wal_clean
  snap_Save "snap_Load True" map_valid is_file ..

definition on_disk :: "Store \<Rightarrow> (string \<rightharpoonup> string) \<Rightarrow> bool" where
  "on_disk s m \<longleftrightarrow> (\<exists>w sn. wal s = Some w \<and> snapshot s = Some sn \<and> disk.holds_map w sn m)"

text \<open>The invariant: the map in memory is well formed and is what the files replay to.\<close>

definition store_inv :: "Store \<Rightarrow> bool" where
  "store_inv s \<longleftrightarrow> (\<exists>d. data s = Some d \<and> map_valid d) \<and> on_disk s (store_map s)"

lemma map_valid_update: "map_valid d \<Longrightarrow> valid_utf8 k \<Longrightarrow> valid_utf8 v \<Longrightarrow> map_valid (AList.update k v d)"
proof -
  assume "map_valid d" "valid_utf8 k" "valid_utf8 v"
  moreover have "x \<in> set (AList.update k v d) \<Longrightarrow> x = (k, v) \<or> x \<in> set d" for x
    by (induction d) (auto split: if_splits)
  ultimately show ?thesis
    unfolding map_valid_def by (metis (mono_tags, lifting) case_prod_conv distinct_update)
qed

lemma map_valid_delete: "map_valid d \<Longrightarrow> map_valid (AList.delete k d)"
  by (auto simp: map_valid_def AList.delete_eq distinct_map_filter)

lemma map_valid_apply:
  assumes "map_valid d" "entry_valid e" "data s = Some d" "applyLocked e s = Inr s'"
  shows "\<exists>d'. data s' = Some d' \<and> map_valid d'"
  using assms map_valid_update [of d "Key e" "Value e"] map_valid_delete [of d "Key e"]
  by (auto simp: applyLocked_def entry_valid_def split: if_splits)

lemma maybe_snapshot_inv:
  assumes "data s = Some d" "map_valid d" "on_disk s (store_map s)" "maybe_snapshot out s = (r, s')"
  shows "store_inv s'"
proof -
  from assms(3) obtain w sn where w: "wal s = Some w" "snapshot s = Some sn" "disk.holds_map w sn (store_map s)"
    by (auto simp: on_disk_def)
  have frame: "data s' = data s" "wal s' = wal s" "store_map s' = store_map s"
    using maybe_snapshot_frame [OF assms(4)] by (simp_all add: store_map_def)
  have "snapshot s' = snapshot s \<or> snapshot s' = Some (snd (snap_Save out (Some d) sn))"
    using assms(1,4) w by (auto simp: maybe_snapshot_def Let_def case_prod_beta split: if_splits)
  then have "on_disk s' (store_map s')"
  proof
    assume "snapshot s' = snapshot s"
    with frame w show ?thesis
      by (auto simp: on_disk_def)
  next
    assume "snapshot s' = Some (snd (snap_Save out (Some d) sn))"
    then obtain err sn' where sn': "snap_Save out (Some d) sn = (err, sn')" "snapshot s' = Some sn'"
      by (metis prod.collapse)
    have "map_of d = store_map s"
      using assms(1) by (simp add: store_map_def)
    from disk.holds_save [OF w(3) assms(2) this sn'(1)] frame w sn' show ?thesis
      by (auto simp: on_disk_def)
  qed
  with frame assms show ?thesis
    by (simp add: store_inv_def)
qed

lemma persist_inv:
  assumes "store_inv s" "storable e" "persistAndApplyLocked Written so e s = (r, s')"
  shows "store_inv s'"
proof -
  from assms(1) obtain d w sn where s: "data s = Some d" "map_valid d" "wal s = Some w" "snapshot s = Some sn"
      "disk.holds_map w sn (store_map s)"
    by (auto simp: store_inv_def on_disk_def)
  obtain err w' where w': "wal_Append Written e w = (err, w')"
    by fastforce
  from disk.holds_append [OF s(5) assms(2) w'] have
    h: "err = None" "disk.holds_map w' sn (spec_apply e (store_map s))" by auto
  define s1 where "s1 = s\<lparr>wal := Some w'\<rparr>"
  have s1: "append_entry Written e s = (None, s1)" "data s1 = Some d" "store_map s1 = store_map s"
    using s w' h by (simp_all add: append_entry_def s1_def store_map_def)
  from applyLocked_spec [of s1 e] s1 obtain s2 where
    s2: "applyLocked e s1 = Inr s2" "store_map s2 = spec_apply e (store_map s)" "wal s2 = Some w'" "snapshot s2 = Some sn"
    by (auto simp: s1_def s)
  with map_valid_apply [OF s(2) _ s1(2) s2(1)] assms(2) obtain d2 where
    "data s2 = Some d2" "map_valid d2" by (auto simp: storable_def)
  moreover have "on_disk s2 (store_map s2)"
    using s2 h by (auto simp: on_disk_def)
  moreover have "maybe_snapshot so s2 = (r, s')"
    using assms(3) s1 s2 by (simp add: persistAndApplyLocked_def)
  ultimately show ?thesis
    by (rule maybe_snapshot_inv)
qed

lemma apply_entries_distinct:
  "\<lbrakk>apply_entries es s = Inr s'; data s = Some d; distinct (map fst d)\<rbrakk> \<Longrightarrow>
     \<exists>d'. data s' = Some d' \<and> distinct (map fst d')"
proof (induction es arbitrary: s d)
  case Nil
  then show ?case by simp
next
  case (Cons e es)
  then obtain s1 where s1: "applyLocked e s = Inr s1" "apply_entries es s1 = Inr s'"
    by auto
  with Cons.prems obtain d1 where "data s1 = Some d1" "distinct (map fst d1)"
    by (auto simp: applyLocked_def distinct_update distinct_delete split: if_splits)
  with Cons.IH s1 show ?case by blast
qed

lemma map_valid_cong:
  assumes "map_valid d" "map_of d' = map_of d" "distinct (map fst d')"
  shows "map_valid d'"
proof -
  have "x \<in> set d" if "x \<in> set d'" for x
    using that map_of_SomeD [of d "fst x" "snd x"] map_of_is_SomeI [OF assms(3), of "fst x" "snd x"]
    by (simp add: assms(2))
  with assms show ?thesis
    by (auto simp: map_valid_def)
qed

lemma restart_inv:
  assumes "store_inv s"
  shows "\<exists>s'. NewStoreFromDisk True True (wal s) (snapshot s) = Inr (Inr s') \<and>
     store_map s' = store_map s \<and> store_inv s'"
proof -
  from assms obtain d w sn where s: "data s = Some d" "map_valid d" "wal s = Some w" "snapshot s = Some sn"
      "disk.holds_map w sn (store_map s)"
    by (auto simp: store_inv_def on_disk_def)
  then obtain es kvs where es: "wal_Load True w = Inr es" "snap_Load True sn = Inr (Some kvs)"
      "distinct (map fst kvs)" "replay es (map_of kvs) = store_map s"
    by (auto simp: disk.holds_map_def)
  define s0 where "s0 = (NewStore (wal s) (snapshot s))\<lparr>data := Some kvs\<rparr>"
  from apply_entries_spec [of s0 es] obtain s' where
    s': "apply_entries es s0 = Inr s'" "store_map s' = store_map s" "wal s' = Some w" "snapshot s' = Some sn"
    using es s by (auto simp: s0_def store_map_def NewStore_def)
  from apply_entries_distinct [OF this(1), of kvs] es obtain d' where
    d': "data s' = Some d'" "distinct (map fst d')"
    by (auto simp: s0_def)
  with s s' have "map_of d' = map_of d"
    by (simp add: store_map_def)
  with map_valid_cong s d' s' have "store_inv s'"
    by (auto simp: store_inv_def on_disk_def)
  moreover have "NewStoreFromDisk True True (wal s) (snapshot s) = Inr (Inr s')"
    using es s s' by (simp add: NewStoreFromDisk_def load_snapshot_def load_wal_def s0_def)
  ultimately show ?thesis
    using s' by blast
qed

text \<open>
  Runs of a store over files: mutations whose log write succeeds, whatever becomes of the
  snapshot, and restarts from disk.
\<close>

inductive store_step :: "Store \<Rightarrow> Store \<Rightarrow> bool" where
  upsert: "\<lbrakk>storable \<lparr>Op = OpUpsert, Key = k, Value = v\<rparr>; Upsert Written so k v s = (r, s')\<rbrakk> \<Longrightarrow> store_step s s'"
| delete: "\<lbrakk>storable \<lparr>Op = OpDelete, Key = k, Value = []\<rparr>; Delete Written so k s = (r, s')\<rbrakk> \<Longrightarrow> store_step s s'"
| restart: "NewStoreFromDisk True True (wal s) (snapshot s) = Inr (Inr s') \<Longrightarrow> store_step s s'"

inductive store_reachable :: "Store \<Rightarrow> bool" where
  fresh: "NewStoreFromDisk True True (Some (FileWAL [])) (Some (FileSnapshot \<lparr>snap_file = None, tmp_file = None\<rparr>))
      = Inr (Inr s) \<Longrightarrow> store_reachable s"
| step: "\<lbrakk>store_reachable s; store_step s s'\<rbrakk> \<Longrightarrow> store_reachable s'"

lemma fresh_inv:
  "store_inv (NewStore (Some (FileWAL [])) (Some (FileSnapshot \<lparr>snap_file = None, tmp_file = None\<rparr>)))"
  by (auto simp: store_inv_def on_disk_def disk.holds_map_def NewStore_def store_map_def map_valid_def
      is_file_def FileSnapshot_Load_def wal_clean_def wal_image_def intro!: exI [of _ "[]"])

lemma fresh_store:
  "NewStoreFromDisk True True (Some (FileWAL [])) (Some (FileSnapshot \<lparr>snap_file = None, tmp_file = None\<rparr>)) =
     Inr (Inr (NewStore (Some (FileWAL [])) (Some (FileSnapshot \<lparr>snap_file = None, tmp_file = None\<rparr>))))"
  by (simp add: NewStoreFromDisk_def load_snapshot_def load_wal_def FileSnapshot_Load_def NewStore_def)

lemma store_step_inv: "store_step s s' \<Longrightarrow> store_inv s \<Longrightarrow> store_inv s'"
proof (induction rule: store_step.induct)
  case (upsert k v so s r s')
  then show ?case
    by (cases "k = []") (auto simp: Upsert_def intro: persist_inv)
next
  case (delete k so s r s')
  then show ?case
    by (cases "k = []") (auto simp: Delete_def intro: persist_inv)
next
  case (restart s s')
  then show ?case
    using restart_inv by fastforce
qed

lemma store_reachable_inv: "store_reachable s \<Longrightarrow> store_inv s"
  by (induction rule: store_reachable.induct) (simp_all add: fresh_store fresh_inv store_step_inv)

lemma storable_kv: "storable \<lparr>Op = OpUpsert, Key = ''k'', Value = ''v''\<rparr>"
proof -
  have "marshal_entry \<lparr>Op = OpUpsert, Key = ''k'', Value = ''v''\<rparr> =
      CHR ''{'' # dq # ''op'' @ dq # CHR '':'' # dq # ''upsert'' @ dq # CHR '','' # dq # ''key'' @ dq #
      CHR '':'' # dq # ''k'' @ dq # CHR '','' # dq # ''value'' @ dq # CHR '':'' # dq # ''v'' @ dq # ''}''"
    by code_simp
  then show ?thesis
    by (simp add: storable_def known_op_def entry_valid_def OpUpsert_def maxTokenSize_def)
qed

lemma length_quote_body: "length s \<le> length (quote_body s)"
proof (induction s rule: quote_body.induct)
  case (1 s)
  show ?case
  proof (cases s)
    case Nil
    then show ?thesis by simp
  next
    case s: (Cons c r)
    have "1 \<le> length (escape_ascii c)"
      by (simp add: escape_ascii_def)
    moreover have "rune_len s \<le> 4"
      using s by (auto simp: rune_len_def lead_len_def Let_def)
    ultimately show ?thesis
      using "1.IH"(1) [OF s] "1.IH"(2) [OF s] "1.IH"(3) [OF s _ _ refl refl] s rune_len_le [of s]
      by (subst quote_body.simps) (auto simp: Let_def min_def)
  qed
qed

lemma length_marshal_entry: "length (Value e) \<le> length (marshal_entry e)"
  using length_quote_body [of "Value e"] by (simp add: marshal_entry_def print_object_def entry_members_def json_string_def)

subsection \<open>Properties of the store\<close>

text \<open>
  C6. The store implements a map. From any store whose map is not nil, when the log write
  succeeds, an upsert or delete of a non-empty key returns (with an error only if a snapshot
  was due and failed), the key then reads as the new value or as absent, and every other key
  reads as before.
\<close>

theorem store_refines_map:
  assumes "data s \<noteq> None" and "k \<noteq> []"
  shows "(\<exists>err s'. Upsert Written so k v s = (Returned err, s') \<and> (so = Saved \<longrightarrow> err = None) \<and>
            (\<forall>k'. Get k' s' = (if k' = k then Inr (v, True) else Get k' s))) \<and>
         (\<exists>err s'. Delete Written so k s = (Returned err, s') \<and> (so = Saved \<longrightarrow> err = None) \<and>
            (\<forall>k'. Get k' s' = (if k' = k then Inr ([], False) else Get k' s)))"
proof -
  have op: "\<exists>err s'. persistAndApplyLocked Written so e s = (Returned err, s') \<and> (so = Saved \<longrightarrow> err = None) \<and>
      store_map s' = spec_apply e (store_map s)" if "known_op e" for e
    using persist_spec [OF assms(1) that] persist_Saved [OF assms(1) that] by (metis op_result.inject(1) surj_pair)
  have reads: "Get k' s' = (if k' = k then Get k s' else Get k' s)"
    if "store_map s' = (store_map s)(k := x)" for s' x k'
    using that by (auto intro: store_map_Get)
  show ?thesis
    using op [of "\<lparr>Op = OpUpsert, Key = k, Value = v\<rparr>"] op [of "\<lparr>Op = OpDelete, Key = k, Value = []\<rparr>"]
      assms(2) reads
    by (fastforce simp: Upsert_def Delete_def known_op_def spec_apply_def Get_spec OpUpsert_def OpDelete_def)
qed

theorem store_refines_map_witness:
  "(\<exists>err s'. Upsert Written Saved ''k'' ''v'' (NewStore None None) = (Returned err, s') \<and> err = None \<and>
      Get ''k'' s' = Inr (''v'', True))"
  using store_refines_map [of "NewStore None None" "''k''" Saved "''v''"] by (auto simp: NewStore_def)



definition applicable :: "string list \<Rightarrow> Entry list" where
  "applicable cmds = filter (\<lambda>e. Key e \<noteq> [] \<and> known_op e) (List.map_filter unmarshal_entry cmds)"

lemma Apply_spec:
  assumes "data s \<noteq> None" "Apply Written so e s = (r, s')"
  shows "data s' \<noteq> None \<and> (\<exists>err. r = Returned err) \<and>
     store_map s' = (if Key e \<noteq> [] \<and> known_op e then spec_apply e (store_map s) else store_map s)"
proof -
  obtain op k v where e: "e = \<lparr>Op = op, Key = k, Value = v\<rparr>"
    by (cases e)
  have "spec_apply \<lparr>Op = OpDelete, Key = k, Value = []\<rparr> = spec_apply \<lparr>Op = OpDelete, Key = k, Value = v\<rparr>"
    by (simp add: spec_apply_def fun_eq_iff)
  then show ?thesis
    using assms persist_spec [of s "\<lparr>Op = op, Key = k, Value = []\<rparr>" so r s'] persist_spec [of s e so r s']
    by (auto simp: e Apply_def Upsert_def Delete_def known_op_def split: if_splits)
qed

text \<open>
  C14. Replicas agree. The apply loop, run on commands whose log writes succeed, does not panic
  and leaves the map obtained by applying in order exactly the commands that decode to a known
  operation on a non-empty key; it depends on nothing else, in particular not on snapshots.
\<close>

theorem apply_loop_deterministic:
  assumes "data s \<noteq> None"
  shows "\<exists>s'. RunApplyLoop (map (\<lambda>(so, c). (Written, so, c)) xs) s = (None, s') \<and>
     store_map s' = replay (applicable (map snd xs)) (store_map s)"
  using assms
proof (induction xs arbitrary: s)
  case Nil
  then show ?case by (simp add: applicable_def List.map_filter_def)
next
  case (Cons x xs)
  obtain so c where x: "x = (so, c)"
    by fastforce
  show ?case
  proof (cases "unmarshal_entry c")
    case None
    with Cons x show ?thesis
      by (simp add: applicable_def List.map_filter_simps)
  next
    case (Some e)
    obtain r s1 where s1: "Apply Written so e s = (r, s1)"
      by fastforce
    from Apply_spec [OF Cons.prems s1] Cons.IH [of s1] s1 x Some show ?thesis
      by (auto simp: applicable_def List.map_filter_simps)
  qed
qed

theorem apply_loop_deterministic_witness:
  "\<exists>s'. RunApplyLoop (map (\<lambda>(so, c). (Written, so, c)) [(Saved, marshal_entry \<lparr>Op = OpUpsert, Key = ''k'', Value = ''v''\<rparr>)])
       (NewStore None None) = (None, s') \<and> store_map s' ''k'' = Some ''v''"
proof -
  have "applicable [marshal_entry \<lparr>Op = OpUpsert, Key = ''k'', Value = ''v''\<rparr>] = [\<lparr>Op = OpUpsert, Key = ''k'', Value = ''v''\<rparr>]"
    by (simp add: applicable_def List.map_filter_simps entry_json.dec_enc entry_valid_def known_op_def OpUpsert_def)
  then show ?thesis
    using apply_loop_deterministic [of "NewStore None None" "[(Saved, marshal_entry \<lparr>Op = OpUpsert, Key = ''k'', Value = ''v''\<rparr>)]"]
    by (auto simp: NewStore_def spec_apply_def OpUpsert_def OpDelete_def simp del: RunApplyLoop.simps)
qed

text \<open>
  The contents of the two files when the process dies in the middle of a mutation, at any
  point but inside the write of the log line.
\<close>

inductive crash_point :: "Entry \<Rightarrow> Store \<Rightarrow> bool \<Rightarrow> WAL option \<Rightarrow> SnapshotStore option \<Rightarrow> bool" for e s where
  before_log: "crash_point e s False (wal s) (snapshot s)"
| logged: "append_entry Written e s = (None, s1) \<Longrightarrow> crash_point e s True (wal s1) (snapshot s1)"
| saving: "\<lbrakk>persistAndApplyLocked Written so e s = (r, s')\<rbrakk> \<Longrightarrow> crash_point e s True (wal s') (snapshot s')"

lemma store_inv_append:
  assumes "store_inv s" "storable e" "append_entry Written e s = (None, s1)"
  shows "on_disk s1 (spec_apply e (store_map s))"
proof -
  from assms(1) obtain w sn where s: "wal s = Some w" "snapshot s = Some sn" "disk.holds_map w sn (store_map s)"
    by (auto simp: store_inv_def on_disk_def)
  obtain err w' where w': "wal_Append Written e w = (err, w')"
    by fastforce
  from disk.holds_append [OF s(3) assms(2) w'] s w' assms(3) show ?thesis
    by (auto simp: on_disk_def append_entry_def)
qed

lemma on_disk_restart:
  assumes "on_disk s m"
  shows "\<exists>s'. NewStoreFromDisk True True (wal s) (snapshot s) = Inr (Inr s') \<and> store_map s' = m"
proof -
  from assms obtain w sn es kvs where s: "wal s = Some w" "snapshot s = Some sn"
      "wal_Load True w = Inr es" "snap_Load True sn = Inr (Some kvs)" "replay es (map_of kvs) = m"
    by (auto simp: on_disk_def disk.holds_map_def)
  define s0 where "s0 = (NewStore (wal s) (snapshot s))\<lparr>data := Some kvs\<rparr>"
  from apply_entries_spec [of s0 es] s show ?thesis
    by (auto simp: NewStoreFromDisk_def load_snapshot_def load_wal_def s0_def store_map_def)
qed



text \<open>
  C16. An accepted entry can make recovery impossible. An entry whose JSON line reaches 64 KiB
  is logged without an error, and from then on loading the log fails with the scanner's
  line-length error, whatever valid entries stand before it and whatever follows.
\<close>

theorem long_entry_blocks_recovery:
  assumes "\<forall>x \<in> set es. storable x" and "known_op e" and "maxTokenSize \<le> length (marshal_entry e)"
  shows "\<exists>f. FileWAL_Append Written e (wal_image es) = (None, f) \<and> FileWAL_Load True (f @ t) = Inl ErrTooLong"
proof -
  have "FileWAL_Load True (marshal_entry e @ nl # t) = Inl ErrTooLong"
    using assms(3) entry_json.scan_enc [of e t] by (simp add: FileWAL_Load_def)
  with FileWAL_Load_image [OF assms(1), of "marshal_entry e @ nl # t"] show ?thesis
    using assms(2) by (simp add: FileWAL_Append_def)
qed

theorem long_entry_blocks_recovery_witness:
  "\<exists>e f. FileWAL_Append Written e (wal_image []) = (None, f) \<and> FileWAL_Load True (f @ []) = Inl ErrTooLong"
proof -
  define e where "e = \<lparr>Op = OpUpsert, Key = ''k'', Value = replicate 70000 (CHR ''a'')\<rparr>"
  have "maxTokenSize \<le> length (marshal_entry e)"
    using length_marshal_entry [of e] by (simp add: maxTokenSize_def e_def)
  with long_entry_blocks_recovery [of "[]" e "[]"] show ?thesis
    by (auto simp: known_op_def e_def)
qed

text \<open>
  C17. A log whose last line lost only its line end still loads with every entry, but the next
  append joins its line to the unterminated one: it reports success and the log no longer
  loads.
\<close>

theorem lost_newline_corrupts_log:
  assumes "\<forall>x \<in> set es. storable x" and "storable e" and "known_op e'"
  shows "FileWAL_Append (Torn (length (marshal_entry e))) e (wal_image es) = (Some IOError, wal_image es @ marshal_entry e)
     \<and> FileWAL_Load True (wal_image es @ marshal_entry e) = Inr (es @ [e])
     \<and> (\<exists>f err. FileWAL_Append Written e' (wal_image es @ marshal_entry e) = (None, f) \<and> FileWAL_Load True f = Inl err)"
proof (intro conjI)
  show "FileWAL_Append (Torn (length (marshal_entry e))) e (wal_image es) = (Some IOError, wal_image es @ marshal_entry e)"
    using assms(2) by (simp add: FileWAL_Append_def storable_def)
  have "scan_lines (marshal_entry e) = ([marshal_entry e], False)"
    using assms(2) marshal_entry_last [of e] by (intro entry_json.scan_unterminated) (auto simp: storable_def)
  then have "FileWAL_Load True (marshal_entry e) = Inr [e]"
    using assms(2) by (simp add: FileWAL_Load_def entry_json.dec_enc storable_def)
  with FileWAL_Load_image [OF assms(1)] show "FileWAL_Load True (wal_image es @ marshal_entry e) = Inr (es @ [e])"
    by simp
  let ?l = "marshal_entry e @ marshal_entry e'"
  have "unmarshal_entry ?l = None"
    using marshal_entry_last [of e'] json_parse_trailing [of "marshal_entry e'" "entry_members e"]
    by (auto simp: unmarshal_entry_def marshal_entry_def [of e] skip_ws_Cons is_ws_def)
  moreover have "dropCR ?l = ?l"
    using marshal_entry_last [of e'] by (auto simp: dropCR_def)
  moreover have "nl \<notin> set ?l"
    using entry_json.enc_line by simp
  ultimately have "\<exists>err. FileWAL_Load True (?l @ nl # []) = Inl err"
    by (subst FileWAL_Load_def) (simp add: scan_line del: append_assoc)
  with FileWAL_Load_image [OF assms(1), of "?l @ nl # []"] assms(3)
  show "\<exists>f err. FileWAL_Append Written e' (wal_image es @ marshal_entry e) = (None, f) \<and> FileWAL_Load True f = Inl err"
    by (auto simp: FileWAL_Append_def)
qed

theorem lost_newline_corrupts_log_witness:
  "\<exists>e f err. FileWAL_Append (Torn (length (marshal_entry e))) e [] = (Some IOError, marshal_entry e)
     \<and> FileWAL_Load True (marshal_entry e) = Inr [e]
     \<and> FileWAL_Append Written e (marshal_entry e) = (None, f) \<and> FileWAL_Load True f = Inl err"
  using lost_newline_corrupts_log [of "[]", OF _ storable_kv, of "\<lparr>Op = OpUpsert, Key = ''k'', Value = ''v''\<rparr>"]
  by (auto simp: wal_image_def known_op_def)



end
