(* ===== verification/Election_Experiment.thy ===== *)
theory Election_Experiment
  imports Client_IO Load_Clients "HOL-Library.AList"
begin

text \<open>
  The two failover experiments: \<^verbatim>\<open>infrastructure/experiments/leader_election/experiment.py\<close>
  (crashes the leader by stopping its machine, checks that acknowledged keys survive and that
  the old leader catches up) and \<^verbatim>\<open>infrastructure/raft_leader_election_infra/experiment.py\<close>
  (crashes and restarts the process over ssh), and the figures of \<^verbatim>\<open>plot_results.py\<close>. Printing
  is left out, except that an expression inside a printed string that can raise is kept.
\<close>

subsection \<open>The outside\<close>

text \<open>
  Besides HTTP and \<^verbatim>\<open>time.sleep\<close>: \<^verbatim>\<open>time.time\<close>, \<^verbatim>\<open>subprocess.run\<close> (the captured standard output,
  or an \<^verbatim>\<open>OSError\<close> when the program cannot be started) and the random draws.
\<close>

record 'w election_io = "'w client_io" +
  time_time :: "'w \<Rightarrow> real \<times> 'w"
  run_command :: "pystr list \<Rightarrow> 'w \<Rightarrow> pystr py_result \<times> 'w"
  draws :: "'w \<Rightarrow> (nat \<Rightarrow> nat) \<times> 'w"

text \<open>\<^verbatim>\<open>s[k]\<close> for a decoded JSON value and a string key.\<close>

definition json_index :: "json \<Rightarrow> pystr \<Rightarrow> json py_result" where
  "json_index s k =
     (case s of
        JObj kvs \<Rightarrow> (case map_of (rev kvs) k of None \<Rightarrow> Inl KeyError | Some v \<Rightarrow> Inr v)
      | _ \<Rightarrow> Inl TypeError)"

text \<open>\<^verbatim>\<open>s and s.get("isLeader")\<close> as a condition.\<close>

definition is_leader_status :: "json \<Rightarrow> bool py_result" where
  "is_leader_status s =
     (if \<not> truthy s then Inr False
      else case s of
             JObj kvs \<Rightarrow> Inr (truthy (dict_get kvs (lit ''isLeader'')))
           | _ \<Rightarrow> Inl AttributeError)"

definition node_url :: "pystr \<Rightarrow> int \<Rightarrow> pystr \<Rightarrow> pystr" where
  "node_url ip port path = lit ''http://'' @ ip @ lit '':'' @ str_of_int port @ path"

subsection \<open>Helpers of the failover experiment\<close>

text \<open>Any exception, also of the JSON decoder, gives \<^verbatim>\<open>None\<close>; the status code is not looked at.\<close>

definition le_get_status :: "'w election_io \<Rightarrow> pystr \<Rightarrow> int \<Rightarrow> 'w \<Rightarrow> json \<times> 'w" where
  "le_get_status io ip port w =
     (let (out, w) = http io \<lparr>hmethod = GET, hurl = node_url ip port (lit ''/status''), hjson = None\<rparr> 2 w
      in (case out of Response _ (Some b) \<Rightarrow> b | _ \<Rightarrow> JNull, w))"

fun le_find_leader ::
  "'w election_io \<Rightarrow> (pystr \<times> pystr) list \<Rightarrow> int \<Rightarrow> 'w \<Rightarrow> (pystr \<times> pystr) option py_result \<times> 'w" where
  "le_find_leader io [] port w = (Inr None, w)"
| "le_find_leader io ((node_id, ip) # nodes) port w =
     (let (s, w) = le_get_status io ip port w
      in case is_leader_status s of
           Inl e \<Rightarrow> (Inl e, w)
         | Inr b \<Rightarrow> if b then (Inr (Some (node_id, ip)), w) else le_find_leader io nodes port w)"

definition run_ignored :: "'w election_io \<Rightarrow> pystr list \<Rightarrow> 'w \<Rightarrow> unit py_result \<times> 'w" where
  "run_ignored io cmd w = (let (r, w) = run_command io cmd w in (bind_result r (\<lambda>_. Inr ()), w))"

definition stop_instance :: "'w election_io \<Rightarrow> pystr \<Rightarrow> pystr \<Rightarrow> 'w \<Rightarrow> unit py_result \<times> 'w" where
  "stop_instance io instance_id region w =
     run_ignored io [lit ''aws'', lit ''ec2'', lit ''stop-instances'', lit ''--region'', region,
       lit ''--instance-ids'', instance_id] w"

definition start_instance :: "'w election_io \<Rightarrow> pystr \<Rightarrow> pystr \<Rightarrow> 'w \<Rightarrow> unit py_result \<times> 'w" where
  "start_instance io instance_id region w =
     run_ignored io [lit ''aws'', lit ''ec2'', lit ''start-instances'', lit ''--region'', region,
       lit ''--instance-ids'', instance_id] w"

definition get_public_ip :: "'w election_io \<Rightarrow> pystr \<Rightarrow> pystr \<Rightarrow> 'w \<Rightarrow> pystr option py_result \<times> 'w" where
  "get_public_ip io instance_id region w =
     (let (r, w) = run_command io [lit ''aws'', lit ''ec2'', lit ''describe-instances'', lit ''--region'', region,
            lit ''--instance-ids'', instance_id, lit ''--query'',
            lit ''Reservations[0].Instances[0].PublicIpAddress'', lit ''--output'', lit ''text''] w
      in (bind_result r (\<lambda>out. Inr (if strip out \<noteq> lit ''None'' then Some (strip out) else None)), w))"

text \<open>One pass over the nodes; on success the leader, its term and the time since \<open>start\<close>.\<close>

fun scan_for_leader ::
  "'w election_io \<Rightarrow> (pystr \<times> pystr) list \<Rightarrow> pystr \<Rightarrow> int \<Rightarrow> real \<Rightarrow> 'w \<Rightarrow>
     (pystr \<times> json \<times> real) option py_result \<times> 'w" where
  "scan_for_leader io [] crashed_ip port start w = (Inr None, w)"
| "scan_for_leader io ((node_id, ip) # nodes) crashed_ip port start w =
     (if ip = crashed_ip then scan_for_leader io nodes crashed_ip port start w
      else
        (let (s, w) = le_get_status io ip port w
         in case is_leader_status s of
              Inl e \<Rightarrow> (Inl e, w)
            | Inr b \<Rightarrow>
                if b then
                  (let (t, w) = time_time io w
                   in (Inr (Some (node_id, case s of JObj kvs \<Rightarrow> dict_get kvs (lit ''term'') | _ \<Rightarrow> JNull,
                              (t - start) * 1000)), w))
                else scan_for_leader io nodes crashed_ip port start w))"

partial_function (option) wait_leader_loop ::
  "'w election_io \<Rightarrow> (pystr \<times> pystr) list \<Rightarrow> pystr \<Rightarrow> int \<Rightarrow> real \<Rightarrow> real \<Rightarrow> 'w \<Rightarrow>
     ((pystr \<times> json \<times> real) option py_result \<times> 'w) option" where
  "wait_leader_loop io nodes crashed_ip port start timeout w =
     (if fst (time_time io w) - start < timeout then
        (let r = scan_for_leader io nodes crashed_ip port start (snd (time_time io w))
         in if fst r = Inr None
            then wait_leader_loop io nodes crashed_ip port start timeout (sleep io (5 / 100) (snd r))
            else Some r)
      else Some (Inr None, snd (time_time io w)))"

definition wait_for_new_leader ::
  "'w election_io \<Rightarrow> (pystr \<times> pystr) list \<Rightarrow> pystr \<Rightarrow> int \<Rightarrow> real \<Rightarrow> 'w \<Rightarrow>
     ((pystr \<times> json \<times> real) option py_result \<times> 'w) option" where
  "wait_for_new_leader io nodes crashed_ip port timeout w =
     (let (start, w) = time_time io w in wait_leader_loop io nodes crashed_ip port start timeout w)"

definition write_key :: "'w election_io \<Rightarrow> pystr \<Rightarrow> int \<Rightarrow> pystr \<Rightarrow> pystr \<Rightarrow> 'w \<Rightarrow> bool \<times> 'w" where
  "write_key io ip port key v w =
     (let (out, w) = http io \<lparr>hmethod = PUT, hurl = node_url ip port (lit ''/v1/keys/'' @ key),
            hjson = Some (JObj [(lit ''value'', JStr v)])\<rparr> 3 w
      in (case out of Response code _ \<Rightarrow> code = 200 | RequestException _ \<Rightarrow> False, w))"

definition read_key :: "'w election_io \<Rightarrow> pystr \<Rightarrow> int \<Rightarrow> pystr \<Rightarrow> 'w \<Rightarrow> json \<times> 'w" where
  "read_key io ip port key w =
     (let (out, w) = http io \<lparr>hmethod = GET, hurl = node_url ip port (lit ''/v1/keys/'' @ key), hjson = None\<rparr> 3 w
      in (case out of
            Response code (Some (JObj kvs)) \<Rightarrow> if code = 200 then dict_get kvs (lit ''value'') else JNull
          | _ \<Rightarrow> JNull, w))"

subsection \<open>One round of the failover experiment\<close>

record election_args =
  ea_nodes :: "(pystr \<times> pystr) list"
  ea_instances :: "(pystr \<times> pystr) list"
  ea_region :: pystr
  ea_port :: int
  ea_rounds :: int

definition make_args ::
  "pystr \<Rightarrow> pystr \<Rightarrow> pystr \<Rightarrow> pystr \<Rightarrow> pystr \<Rightarrow> pystr \<Rightarrow> pystr \<Rightarrow> int \<Rightarrow> int \<Rightarrow> election_args" where
  "make_args node_a node_b node_c instance_a instance_b instance_c region port rounds =
     \<lparr>ea_nodes = [(lit ''nodeA'', node_a), (lit ''nodeB'', node_b), (lit ''nodeC'', node_c)],
      ea_instances = [(lit ''nodeA'', instance_a), (lit ''nodeB'', instance_b), (lit ''nodeC'', instance_c)],
      ea_region = region, ea_port = port, ea_rounds = rounds\<rparr>"

text \<open>The first check: every node must answer, and its answer must have the printed fields.\<close>

fun check_nodes :: "'w election_io \<Rightarrow> (pystr \<times> pystr) list \<Rightarrow> int \<Rightarrow> 'w \<Rightarrow> bool py_result \<times> 'w" where
  "check_nodes io [] port w = (Inr True, w)"
| "check_nodes io ((nid, ip) # nodes) port w =
     (let (s, w) = le_get_status io ip port w
      in if truthy s then
           (case bind_result (json_index s (lit ''state'')) (\<lambda>_. json_index s (lit ''term'')) of
              Inl e \<Rightarrow> (Inl e, w)
            | Inr _ \<Rightarrow> check_nodes io nodes port w)
         else (Inr False, w))"

text \<open>Ten keys with random values; the acknowledged ones are remembered, in order.\<close>

fun write_keys ::
  "'w election_io \<Rightarrow> pystr \<Rightarrow> int \<Rightarrow> pystr \<Rightarrow> nat list \<Rightarrow> 'w \<Rightarrow> (pystr \<times> pystr) list \<times> 'w" where
  "write_keys io ip port prefix [] w = ([], w)"
| "write_keys io ip port prefix (i # is) w =
     (let k = prefix @ str_of_int (int i);
          (picks, w) = draws io w;
          v = random_value 8 picks;
          (ok, w) = write_key io ip port k v w;
          (kvs, w) = write_keys io ip port prefix is w
      in (if ok then (k, v) # kvs else kvs, w))"

text \<open>\<^verbatim>\<open>sum(1 for k, v in keys.items() if read_key(...) == v)\<close>.\<close>

fun count_visible :: "'w election_io \<Rightarrow> pystr \<Rightarrow> int \<Rightarrow> (pystr \<times> pystr) list \<Rightarrow> 'w \<Rightarrow> int \<times> 'w" where
  "count_visible io ip port [] w = (0, w)"
| "count_visible io ip port ((k, v) # kvs) w =
     (let (got, w) = read_key io ip port k w;
          (n, w) = count_visible io ip port kvs w
      in (if got = JStr v then 1 + n else n, w))"

text \<open>The two bounded waits of phase 5; an empty address counts as none.\<close>

fun wait_public_ip :: "'w election_io \<Rightarrow> nat \<Rightarrow> pystr \<Rightarrow> pystr \<Rightarrow> 'w \<Rightarrow> pystr option py_result \<times> 'w" where
  "wait_public_ip io 0 instance_id region w = (Inr None, w)"
| "wait_public_ip io (Suc n) instance_id region w =
     (let (r, w) = get_public_ip io instance_id region (sleep io 5 w)
      in case r of
           Inl e \<Rightarrow> (Inl e, w)
         | Inr None \<Rightarrow> wait_public_ip io n instance_id region w
         | Inr (Some ip) \<Rightarrow> if ip \<noteq> [] then (Inr (Some ip), w) else wait_public_ip io n instance_id region w)"

fun wait_ready :: "'w election_io \<Rightarrow> nat \<Rightarrow> pystr \<Rightarrow> int \<Rightarrow> 'w \<Rightarrow> unit py_result \<times> 'w" where
  "wait_ready io 0 ip port w = (Inr (), w)"
| "wait_ready io (Suc n) ip port w =
     (let (s, w) = le_get_status io ip port (sleep io 5 w)
      in if truthy s
         then (bind_result (json_index s (lit ''state'')) (\<lambda>_.
                 bind_result (json_index s (lit ''term'')) (\<lambda>_. Inr ())), w)
         else wait_ready io n ip port w)"

record election_state =
  es_nodes :: "(pystr \<times> pystr) list"
  election_times :: "real list"
  data_loss_counts :: "int list"
  catchup_counts :: "int list"

text \<open>Phases 5 and 6: restart the old leader and count the new keys it serves.\<close>

definition rejoin ::
  "'w election_io \<Rightarrow> election_args \<Rightarrow> pystr \<Rightarrow> pystr \<Rightarrow> (pystr \<times> pystr) list \<Rightarrow> election_state \<Rightarrow> 'w \<Rightarrow>
     election_state py_result \<times> 'w" where
  "rejoin io args leader_id leader_instance post_keys st w =
     (case start_instance io leader_instance (ea_region args) w of
        (Inl e, w) \<Rightarrow> (Inl e, w)
      | (Inr _, w) \<Rightarrow>
     (case wait_public_ip io 24 leader_instance (ea_region args) w of
        (Inl e, w) \<Rightarrow> (Inl e, w)
      | (Inr None, w) \<Rightarrow> (Inr st, w)
      | (Inr (Some new_ip), w) \<Rightarrow>
     (case wait_ready io 12 new_ip (ea_port args) w of
        (Inl e, w) \<Rightarrow> (Inl e, w)
      | (Inr _, w) \<Rightarrow>
          (let (caught, w) = count_visible io new_ip (ea_port args) post_keys (sleep io 5 w)
           in (Inr (st\<lparr>es_nodes := AList.update leader_id new_ip (es_nodes st),
                       catchup_counts := catchup_counts st @ [caught]\<rparr>), sleep io 3 w)))))"

text \<open>Phases 3 to 6, once a new leader is known.\<close>

definition after_election ::
  "'w election_io \<Rightarrow> election_args \<Rightarrow> int \<Rightarrow> pystr \<Rightarrow> pystr \<Rightarrow> (pystr \<times> pystr) list \<Rightarrow> pystr \<Rightarrow> real \<Rightarrow>
     election_state \<Rightarrow> 'w \<Rightarrow> election_state py_result \<times> 'w" where
  "after_election io args round_num leader_id leader_instance pre_keys new_leader_id elapsed_ms st w =
     (case map_of (es_nodes st) new_leader_id of
        None \<Rightarrow> (Inl KeyError, w)
      | Some new_leader_ip \<Rightarrow>
          (let (survived, w) = count_visible io new_leader_ip (ea_port args) pre_keys w;
               st = st\<lparr>election_times := election_times st @ [elapsed_ms],
                       data_loss_counts := data_loss_counts st @ [int (length pre_keys) - survived]\<rparr>;
               (post_keys, w) = write_keys io new_leader_ip (ea_port args)
                 (lit ''r'' @ str_of_int round_num @ lit ''-post-'') [0..<10] w
           in rejoin io args leader_id leader_instance post_keys st w))"

definition le_round ::
  "'w election_io \<Rightarrow> election_args \<Rightarrow> int \<Rightarrow> election_state \<Rightarrow> 'w \<Rightarrow> (election_state py_result \<times> 'w) option" where
  "le_round io args round_num st w =
     (case le_find_leader io (es_nodes st) (ea_port args) w of
        (Inl e, w) \<Rightarrow> Some (Inl e, w)
      | (Inr None, w) \<Rightarrow> Some (Inr st, w)
      | (Inr (Some (leader_id, leader_ip)), w) \<Rightarrow>
     (case map_of (ea_instances args) leader_id of
        None \<Rightarrow> Some (Inl KeyError, w)
      | Some leader_instance \<Rightarrow>
          (let (s, w) = le_get_status io leader_ip (ea_port args) w
           in case json_index s (lit ''term'') of
                Inl e \<Rightarrow> Some (Inl e, w)
              | Inr _ \<Rightarrow>
          (let (pre_keys, w) = write_keys io leader_ip (ea_port args)
                 (lit ''r'' @ str_of_int round_num @ lit ''-pre-'') [0..<10] w;
               (_, w) = time_time io w
           in case stop_instance io leader_instance (ea_region args) w of
                (Inl e, w) \<Rightarrow> Some (Inl e, w)
              | (Inr _, w) \<Rightarrow>
          (case wait_for_new_leader io (es_nodes st) leader_ip (ea_port args) 15 w of
             None \<Rightarrow> None
           | Some (Inl e, w) \<Rightarrow> Some (Inl e, w)
           | Some (Inr None, w) \<Rightarrow>
               (case start_instance io leader_instance (ea_region args) w of
                  (Inl e, w) \<Rightarrow> Some (Inl e, w)
                | (Inr _, w) \<Rightarrow> Some (Inr st, sleep io 30 w))
           | Some (Inr (Some (new_leader_id, new_term, elapsed_ms)), w) \<Rightarrow>
               Some (after_election io args round_num leader_id leader_instance pre_keys new_leader_id
                       elapsed_ms st w))))))"

fun le_rounds ::
  "'w election_io \<Rightarrow> election_args \<Rightarrow> int list \<Rightarrow> election_state \<Rightarrow> 'w \<Rightarrow> (election_state py_result \<times> 'w) option" where
  "le_rounds io args [] st w = Some (Inr st, w)"
| "le_rounds io args (r # rs) st w =
     (case le_round io args r st w of
        None \<Rightarrow> None
      | Some (Inl e, w) \<Rightarrow> Some (Inl e, w)
      | Some (Inr st, w) \<Rightarrow> le_rounds io args rs st w)"

text \<open>The summary: everything it prints, as numbers.\<close>

definition stdev :: "real list \<Rightarrow> real py_result" where
  "stdev xs =
     (if length xs < 2 then Inl ValueError
      else bind_result (mean xs) (\<lambda>m.
             Inr (sqrt (sum_list (map (\<lambda>x. (x - m)\<^sup>2) xs) / real (length xs - 1)))))"

record timing_summary =
  ts_min :: real
  ts_max :: real
  ts_avg :: real
  ts_stdev :: "real option"

definition summarize_timings :: "real list \<Rightarrow> timing_summary py_result" where
  "summarize_timings xs =
     bind_result (py_min xs) (\<lambda>mn. bind_result (py_max xs) (\<lambda>mx. bind_result (mean xs) (\<lambda>a.
     bind_result (if 1 < length xs then bind_result (stdev xs) (\<lambda>d. Inr (Some d)) else Inr None) (\<lambda>d.
       Inr \<lparr>ts_min = mn, ts_max = mx, ts_avg = a, ts_stdev = d\<rparr>))))"

record election_report =
  er_completed :: nat
  er_timings :: "timing_summary option"
  er_data_loss :: "int option"
  er_avg_catchup :: "real option"

definition le_report :: "election_state \<Rightarrow> election_report py_result" where
  "le_report st =
     (if election_times st = []
      then Inr \<lparr>er_completed = 0, er_timings = None, er_data_loss = None, er_avg_catchup = None\<rparr>
      else
        bind_result (summarize_timings (election_times st)) (\<lambda>ts.
        bind_result (if catchup_counts st = [] then Inr None
                     else bind_result (mean (map of_int (catchup_counts st))) (\<lambda>a. Inr (Some a))) (\<lambda>c.
          Inr \<lparr>er_completed = length (election_times st), er_timings = Some ts,
               er_data_loss = Some (sum_list (data_loss_counts st)), er_avg_catchup = c\<rparr>)))"

fun final_states :: "'w election_io \<Rightarrow> (pystr \<times> pystr) list \<Rightarrow> int \<Rightarrow> 'w \<Rightarrow> unit py_result \<times> 'w" where
  "final_states io [] port w = (Inr (), w)"
| "final_states io ((nid, ip) # nodes) port w =
     (let (s, w) = le_get_status io ip port w
      in if truthy s then
           (case bind_result (json_index s (lit ''state'')) (\<lambda>_.
                   bind_result (json_index s (lit ''term'')) (\<lambda>_. json_index s (lit ''leaderID''))) of
              Inl e \<Rightarrow> (Inl e, w)
            | Inr _ \<Rightarrow> final_states io nodes port w)
         else final_states io nodes port w)"

text \<open>The whole run: no report when some node does not answer at the start.\<close>

definition run_experiment ::
  "'w election_io \<Rightarrow> election_args \<Rightarrow> 'w \<Rightarrow> (election_report option py_result \<times> 'w) option" where
  "run_experiment io args w =
     (case check_nodes io (ea_nodes args) (ea_port args) w of
        (Inl e, w) \<Rightarrow> Some (Inl e, w)
      | (Inr False, w) \<Rightarrow> Some (Inr None, w)
      | (Inr True, w) \<Rightarrow>
          (case le_rounds io args [1..ea_rounds args]
                  \<lparr>es_nodes = ea_nodes args, election_times = [], data_loss_counts = [], catchup_counts = []\<rparr> w of
             None \<Rightarrow> None
           | Some (Inl e, w) \<Rightarrow> Some (Inl e, w)
           | Some (Inr st, w) \<Rightarrow>
               (case le_report st of
                  Inl e \<Rightarrow> Some (Inl e, w)
                | Inr rep \<Rightarrow>
                    (case final_states io (es_nodes st) (ea_port args) w of
                       (Inl e, w) \<Rightarrow> Some (Inl e, w)
                     | (Inr _, w) \<Rightarrow> Some (Inr (Some rep), w)))))"

subsection \<open>The experiment over ssh\<close>

record infra_args =
  ia_nodes :: "(pystr \<times> pystr) list"
  ia_key :: pystr
  ia_port :: int
  ia_rounds :: int

definition infra_get_metrics :: "'w election_io \<Rightarrow> infra_args \<Rightarrow> pystr \<Rightarrow> 'w \<Rightarrow> json \<times> 'w" where
  "infra_get_metrics io args ip w =
     (let (out, w) = http io \<lparr>hmethod = GET, hurl = node_url ip (ia_port args) (lit ''/metrics''), hjson = None\<rparr> 2 w
      in (case out of Response _ (Some b) \<Rightarrow> b | _ \<Rightarrow> JNull, w))"

text \<open>The three functions the two scripts share, with the port and the nodes as globals.\<close>

definition infra_get_status :: "'w election_io \<Rightarrow> infra_args \<Rightarrow> pystr \<Rightarrow> 'w \<Rightarrow> json \<times> 'w" where
  "infra_get_status io args ip w = le_get_status io ip (ia_port args) w"

definition infra_find_leader :: "'w election_io \<Rightarrow> infra_args \<Rightarrow> 'w \<Rightarrow> (pystr \<times> pystr) option py_result \<times> 'w" where
  "infra_find_leader io args w = le_find_leader io (ia_nodes args) (ia_port args) w"

definition infra_wait_for_new_leader ::
  "'w election_io \<Rightarrow> infra_args \<Rightarrow> pystr \<Rightarrow> 'w \<Rightarrow> ((pystr \<times> json \<times> real) option py_result \<times> 'w) option" where
  "infra_wait_for_new_leader io args crashed_ip w =
     wait_for_new_leader io (ia_nodes args) crashed_ip (ia_port args) 10 w"

definition ssh_command :: "infra_args \<Rightarrow> pystr \<Rightarrow> pystr \<Rightarrow> pystr list" where
  "ssh_command args ip action =
     [lit ''ssh'', lit ''-i'', ia_key args, lit ''-o'', lit ''StrictHostKeyChecking=no'', lit ''ec2-user@'' @ ip,
      lit ''sudo systemctl '' @ action @ lit '' raft-node'']"

definition crash_node :: "'w election_io \<Rightarrow> infra_args \<Rightarrow> pystr \<Rightarrow> 'w \<Rightarrow> unit py_result \<times> 'w" where
  "crash_node io args ip w = run_ignored io (ssh_command args ip (lit ''stop'')) w"

definition restart_node :: "'w election_io \<Rightarrow> infra_args \<Rightarrow> pystr \<Rightarrow> 'w \<Rightarrow> unit py_result \<times> 'w" where
  "restart_node io args ip w = run_ignored io (ssh_command args ip (lit ''start'')) w"

definition infra_round ::
  "'w election_io \<Rightarrow> infra_args \<Rightarrow> real list \<Rightarrow> 'w \<Rightarrow> (real list py_result \<times> 'w) option" where
  "infra_round io args timings w =
     (case infra_find_leader io args w of
        (Inl e, w) \<Rightarrow> Some (Inl e, w)
      | (Inr None, w) \<Rightarrow> Some (Inr timings, w)
      | (Inr (Some (leader_id, leader_ip)), w) \<Rightarrow>
          (let (s, w) = infra_get_status io args leader_ip w
           in case json_index s (lit ''term'') of
                Inl e \<Rightarrow> Some (Inl e, w)
              | Inr _ \<Rightarrow>
          (let (_, w) = time_time io w
           in case crash_node io args leader_ip w of
                (Inl e, w) \<Rightarrow> Some (Inl e, w)
              | (Inr _, w) \<Rightarrow>
          (case infra_wait_for_new_leader io args leader_ip w of
             None \<Rightarrow> None
           | Some (Inl e, w) \<Rightarrow> Some (Inl e, w)
           | Some (Inr found, w) \<Rightarrow>
               (let timings = (case found of None \<Rightarrow> timings | Some (_, _, elapsed_ms) \<Rightarrow> timings @ [elapsed_ms])
                in case restart_node io args leader_ip w of
                     (Inl e, w) \<Rightarrow> Some (Inl e, w)
                   | (Inr _, w) \<Rightarrow> Some (Inr timings, sleep io 4 w))))))"

fun infra_rounds ::
  "'w election_io \<Rightarrow> infra_args \<Rightarrow> nat \<Rightarrow> real list \<Rightarrow> 'w \<Rightarrow> (real list py_result \<times> 'w) option" where
  "infra_rounds io args 0 timings w = Some (Inr timings, w)"
| "infra_rounds io args (Suc n) timings w =
     (case infra_round io args timings w of
        None \<Rightarrow> None
      | Some (Inl e, w) \<Rightarrow> Some (Inl e, w)
      | Some (Inr timings, w) \<Rightarrow> infra_rounds io args n timings w)"

record infra_report =
  ir_completed :: nat
  ir_timings :: "timing_summary option"
  ir_median :: "real option"

definition infra_summary :: "real list \<Rightarrow> infra_report py_result" where
  "infra_summary timings =
     (if timings = [] then Inr \<lparr>ir_completed = 0, ir_timings = None, ir_median = None\<rparr>
      else bind_result (summarize_timings timings) (\<lambda>ts. bind_result (median timings) (\<lambda>m.
             Inr \<lparr>ir_completed = length timings, ir_timings = Some ts, ir_median = Some m\<rparr>)))"

definition metric_fields :: "pystr list" where
  "metric_fields = [lit ''state'', lit ''term'', lit ''electionsStarted'', lit ''heartbeatsSent'',
     lit ''heartbeatsRecvd'', lit ''votesGranted'', lit ''currentLeaderID'']"

fun final_metrics :: "'w election_io \<Rightarrow> infra_args \<Rightarrow> (pystr \<times> pystr) list \<Rightarrow> 'w \<Rightarrow> unit py_result \<times> 'w" where
  "final_metrics io args [] w = (Inr (), w)"
| "final_metrics io args ((nid, ip) # nodes) w =
     (let (m, w) = infra_get_metrics io args ip w
      in if truthy m then
           (case map_result (json_index m) metric_fields of
              Inl e \<Rightarrow> (Inl e, w)
            | Inr _ \<Rightarrow> final_metrics io args nodes w)
         else final_metrics io args nodes w)"

text \<open>An unreachable node at the start ends the process (\<^verbatim>\<open>sys.exit\<close>), without a report.\<close>

definition infra_run_experiment ::
  "'w election_io \<Rightarrow> infra_args \<Rightarrow> 'w \<Rightarrow> (infra_report option py_result \<times> 'w) option" where
  "infra_run_experiment io args w =
     (case check_nodes io (ia_nodes args) (ia_port args) w of
        (Inl e, w) \<Rightarrow> Some (Inl e, w)
      | (Inr False, w) \<Rightarrow> Some (Inr None, w)
      | (Inr True, w) \<Rightarrow>
          (case infra_rounds io args (nat (ia_rounds args)) [] w of
             None \<Rightarrow> None
           | Some (Inl e, w) \<Rightarrow> Some (Inl e, w)
           | Some (Inr timings, w) \<Rightarrow>
               (case infra_summary timings of
                  Inl e \<Rightarrow> Some (Inl e, w)
                | Inr rep \<Rightarrow>
                    (case final_metrics io args (ia_nodes args) w of
                       (Inl e, w) \<Rightarrow> Some (Inl e, w)
                     | (Inr _, w) \<Rightarrow> Some (Inr (Some rep), w)))))"

subsection \<open>The figures of the plot\<close>

definition plot_timings :: "real list" where
  "plot_timings = [190, 190, 381, 368, 368]"

definition plot_values :: "(pystr \<times> real) list" where
  "plot_values = [(lit ''Min'', 190), (lit ''Average'', 299), (lit ''Median'', 368), (lit ''Max'', 381)]"

definition plot_leaders_crashed :: "pystr list" where
  "plot_leaders_crashed = [lit ''nodeA'', lit ''nodeB'', lit ''nodeA'', lit ''nodeC'', lit ''nodeB'']"

definition plot_new_leaders :: "pystr list" where
  "plot_new_leaders = [lit ''nodeB'', lit ''nodeA'', lit ''nodeC'', lit ''nodeB'', lit ''nodeC'']"

definition plot_colors :: "real list \<Rightarrow> pystr list" where
  "plot_colors ts = map (\<lambda>t. if t < 300 then lit ''#2ecc71'' else lit ''#e74c3c'') ts"

subsection \<open>Leader discovery and waiting\<close>

lemma le_find_leader_mem: "le_find_leader io ns port w = (Inr (Some (n, ip)), w') \<Longrightarrow> (n, ip) \<in> set ns"
proof (induction ns arbitrary: w)
  case Nil
  then show ?case by simp
next
  case (Cons x ns)
  obtain s w1 where "le_get_status io (snd x) port w = (s, w1)"
    by fastforce
  with Cons show ?case
    by (cases x) (auto split: sum.splits if_splits)
qed

lemma scan_for_leader_cases:
  assumes "le_get_status io (snd x) port w = (s, w1)" "time_time io w1 = (t, w2)"
  obtains "snd x = crashed"
      "scan_for_leader io (x # ns) crashed port start w = scan_for_leader io ns crashed port start w"
    | e where "scan_for_leader io (x # ns) crashed port start w = (Inl e, w1)"
    | tm where "snd x \<noteq> crashed"
      "scan_for_leader io (x # ns) crashed port start w = (Inr (Some (fst x, tm, (t - start) * 1000)), w2)"
    | "scan_for_leader io (x # ns) crashed port start w = scan_for_leader io ns crashed port start w1"
proof (cases "snd x = crashed")
  case True
  with that(1) show thesis
    by (cases x) simp
next
  case x: False
  show thesis
  proof (cases "is_leader_status s")
    case (Inl e)
    with x assms that(2) show thesis
      by (cases x) simp
  next
    case (Inr b)
    with x assms that(3,4) show thesis
      by (cases x; cases b) simp_all
  qed
qed

lemma scan_for_leader_mem:
  "scan_for_leader io ns crashed port start w = (Inr (Some (n, k, ms)), w') \<Longrightarrow>
     \<exists>ip. (n, ip) \<in> set ns \<and> ip \<noteq> crashed"
proof (induction ns arbitrary: w)
  case Nil
  then show ?case by simp
next
  case (Cons x ns)
  obtain s w1 t w2 where s: "le_get_status io (snd x) port w = (s, w1)" "time_time io w1 = (t, w2)"
    by fastforce
  from s show ?case
  proof (cases rule: scan_for_leader_cases [where ns = ns and crashed = crashed and start = start])
    case 3
    with Cons.prems show ?thesis
      by (cases x) (auto simp del: scan_for_leader.simps)
  qed (use Cons in \<open>auto simp del: scan_for_leader.simps\<close>)
qed

text \<open>
  A wall clock that is not set back during the run: \<^verbatim>\<open>time.time\<close> reads it, nothing turns it
  back, sleeping advances it.
\<close>

locale wall_clock_io =
  fixes io :: "'w election_io" and wall :: "'w \<Rightarrow> real"
  assumes time_reads: "fst (time_time io w) = wall w"
    and time_forward: "wall w \<le> wall (snd (time_time io w))"
    and wall_http: "wall w \<le> wall (snd (http io req timeout w))"
    and wall_sleep: "wall w + d \<le> wall (sleep io d w)"
begin

lemma time_timeD: "time_time io w = (x, w') \<Longrightarrow> x = wall w \<and> wall w \<le> wall w'"
  using time_reads [of w] time_forward [of w] by simp

lemma le_get_status_wall: "le_get_status io ip port w = (s, w') \<Longrightarrow> wall w \<le> wall w'"
  using wall_http [of w _ 2] by (auto simp: le_get_status_def Let_def split: prod.splits) (metis snd_conv)

lemma scan_for_leader_wall:
  "scan_for_leader io ns crashed port start w = (r, w') \<Longrightarrow> wall w \<le> wall w' \<and>
     (\<forall>n k ms. r = Inr (Some (n, k, ms)) \<longrightarrow> (\<exists>t. ms = (t - start) * 1000 \<and> wall w \<le> t \<and> t \<le> wall w'))"
proof (induction ns arbitrary: w)
  case Nil
  then show ?case by auto
next
  case (Cons x ns)
  obtain s w1 t w2 where s: "le_get_status io (snd x) port w = (s, w1)" and t: "time_time io w1 = (t, w2)"
    by fastforce
  note w = le_get_status_wall [OF s] time_timeD [OF t]
  from s t show ?case
  proof (cases rule: scan_for_leader_cases [where ns = ns and crashed = crashed and start = start])
    case 4
    with Cons.prems Cons.IH [of w1] w show ?thesis
      by (fastforce simp del: scan_for_leader.simps)
  qed (use Cons w in \<open>auto simp del: scan_for_leader.simps\<close>)
qed

lemma wait_leader_loop_returns:
  assumes "start \<le> wall w"
  shows "\<exists>r w'. wait_leader_loop io ns crashed port start timeout w = Some (r, w') \<and> wall w \<le> wall w' \<and>
    (r = Inr None \<longrightarrow> timeout \<le> wall w' - start) \<and>
    (\<forall>n k ms. r = Inr (Some (n, k, ms)) \<longrightarrow>
       (\<exists>ip. (n, ip) \<in> set ns \<and> ip \<noteq> crashed) \<and>
       (\<exists>t. ms = (t - start) * 1000 \<and> wall w \<le> t \<and> t \<le> wall w'))"
  using assms
proof (induction "nat \<lceil>(start + timeout - wall w) / (5 / 100)\<rceil>" arbitrary: w rule: less_induct)
  case less
  obtain t w1 where t: "time_time io w = (t, w1)"
    by fastforce
  note tw = time_timeD [OF t]
  obtain r w2 where r: "scan_for_leader io ns crashed port start w1 = (r, w2)"
    by fastforce
  note rw = scan_for_leader_wall [OF r]
  consider "\<not> t - start < timeout" | "t - start < timeout" "r \<noteq> Inr None" | "t - start < timeout" "r = Inr None"
    by blast
  then show ?case
  proof cases
    case 1
    with t tw show ?thesis
      by (subst wait_leader_loop.simps) simp
  next
    case 2
    then have "wait_leader_loop io ns crashed port start timeout w = Some (r, w2)"
      using t r by (subst wait_leader_loop.simps) simp
    moreover have "\<exists>ip. (n, ip) \<in> set ns \<and> ip \<noteq> crashed" if "r = Inr (Some (n, x, ms))" for n x ms
      using r that by (blast dest: scan_for_leader_mem)
    moreover have "\<exists>u. ms = (u - start) * 1000 \<and> wall w \<le> u \<and> u \<le> wall w2" if "r = Inr (Some (n, x, ms))" for n x ms
      using rw that tw by fastforce
    moreover have "wall w \<le> wall w2"
      using rw tw by linarith
    ultimately show ?thesis
      using 2(2) by blast
  next
    case 3
    let ?w3 = "sleep io (5 / 100) w2"
    have adv: "wall w + 5 / 100 \<le> wall ?w3"
      using tw rw wall_sleep [of w2 "5 / 100"] by linarith
    have step: "wait_leader_loop io ns crashed port start timeout w = wait_leader_loop io ns crashed port start timeout ?w3"
      using t r 3 by (subst wait_leader_loop.simps) simp
    have "nat \<lceil>(start + timeout - wall ?w3) / (5 / 100)\<rceil> < nat \<lceil>(start + timeout - wall w) / (5 / 100)\<rceil>"
      by (rule deadline_closer) (use adv 3 tw in auto)
    moreover have "start \<le> wall ?w3"
      using adv less.prems by linarith
    ultimately obtain q w' where q: "wait_leader_loop io ns crashed port start timeout ?w3 = Some (q, w')"
        "wall ?w3 \<le> wall w'" "q = Inr None \<longrightarrow> timeout \<le> wall w' - start"
        "\<forall>n k ms. q = Inr (Some (n, k, ms)) \<longrightarrow>
          (\<exists>ip. (n, ip) \<in> set ns \<and> ip \<noteq> crashed) \<and>
          (\<exists>t. ms = (t - start) * 1000 \<and> wall ?w3 \<le> t \<and> t \<le> wall w')"
      using less.hyps by blast
    moreover have "wall w \<le> wall w'"
      using q(2) adv by linarith
    moreover have "\<exists>u. ms = (u - start) * 1000 \<and> wall w \<le> u \<and> u \<le> wall w'" if "q = Inr (Some (n, x, ms))" for n x ms
      using q(4) that adv by fastforce
    ultimately show ?thesis
      unfolding step by blast
  qed
qed

lemma wait_for_new_leader_returns:
  "\<exists>r w'. wait_for_new_leader io ns crashed port timeout w = Some (r, w') \<and> wall w \<le> wall w' \<and>
    (r = Inr None \<longrightarrow> timeout \<le> wall w' - wall w) \<and>
    (\<forall>n k ms. r = Inr (Some (n, k, ms)) \<longrightarrow>
       (\<exists>ip. (n, ip) \<in> set ns \<and> ip \<noteq> crashed) \<and>
       (\<exists>t. ms = (t - wall w) * 1000 \<and> wall w \<le> t \<and> t \<le> wall w'))"
proof -
  obtain t w1 where t: "time_time io w = (t, w1)"
    by fastforce
  note tw = time_timeD [OF t]
  then have eq: "wait_for_new_leader io ns crashed port timeout w = wait_leader_loop io ns crashed port (wall w) timeout w1"
    using t by (simp add: wait_for_new_leader_def)
  obtain r w' where q: "wait_leader_loop io ns crashed port (wall w) timeout w1 = Some (r, w')" "wall w1 \<le> wall w'"
      "r = Inr None \<longrightarrow> timeout \<le> wall w' - wall w"
      "\<forall>n k ms. r = Inr (Some (n, k, ms)) \<longrightarrow> (\<exists>ip. (n, ip) \<in> set ns \<and> ip \<noteq> crashed) \<and>
         (\<exists>t. ms = (t - wall w) * 1000 \<and> wall w1 \<le> t \<and> t \<le> wall w')"
    using wait_leader_loop_returns [of "wall w" w1 ns crashed port timeout] tw by blast
  moreover have "wall w \<le> wall w'"
    using q(2) tw by linarith
  moreover have "\<exists>u. ms = (u - wall w) * 1000 \<and> wall w \<le> u \<and> u \<le> wall w'" if "r = Inr (Some (n, k, ms))" for n k ms
    using q(4) that tw by fastforce
  ultimately show ?thesis
    unfolding eq by blast
qed

lemma wait_for_new_leader_Some [simp]: "wait_for_new_leader io ns crashed port timeout w \<noteq> None"
proof -
  obtain r where "wait_for_new_leader io ns crashed port timeout w = Some r"
    using wait_for_new_leader_returns by blast
  then show ?thesis by simp
qed

lemma le_round_returns: "\<exists>r. le_round io args n st w = Some r"
proof -
  have "le_round io args n st w \<noteq> None"
    by (auto simp: le_round_def Let_def split: prod.splits sum.splits option.splits)
  then show ?thesis by blast
qed

lemma le_rounds_returns: "\<exists>r. le_rounds io args ns st w = Some r"
proof (induction ns arbitrary: st w)
  case Nil
  then show ?case by simp
next
  case (Cons n ns)
  obtain r w' where "le_round io args n st w = Some (r, w')"
    using le_round_returns [of args n st w] by (metis surj_pair)
  with Cons show ?case
    by (cases r) simp_all
qed

lemma run_experiment_returns: "\<exists>r. run_experiment io args w = Some r"
proof -
  have nn: "le_rounds io args ns st w \<noteq> None" for ns st w
    using le_rounds_returns [of args ns st w] by blast
  have "run_experiment io args w \<noteq> None"
    using nn by (auto simp: run_experiment_def simp del: not_None_eq split: prod.splits sum.splits option.splits bool.splits)
  then show ?thesis by blast
qed

lemma infra_round_returns: "\<exists>r. infra_round io args ts w = Some r"
proof -
  have "infra_round io args ts w \<noteq> None"
    by (auto simp: infra_round_def infra_wait_for_new_leader_def Let_def split: prod.splits sum.splits option.splits)
  then show ?thesis by blast
qed

lemma infra_rounds_returns: "\<exists>r. infra_rounds io args n ts w = Some r"
proof (induction n arbitrary: ts w)
  case 0
  then show ?case by simp
next
  case (Suc n)
  obtain r w' where "infra_round io args ts w = Some (r, w')"
    using infra_round_returns [of args ts w] by (metis surj_pair)
  with Suc show ?case
    by (cases r) simp_all
qed

end

subsection \<open>Accounting\<close>

lemma count_visible_bounds:
  "count_visible io ip port kvs w = (n, w') \<Longrightarrow> 0 \<le> n \<and> n \<le> int (length kvs)"
proof (induction kvs arbitrary: w n w')
  case Nil
  then show ?case by simp
next
  case (Cons kv kvs)
  obtain got w1 n2 w2 where "read_key io ip port (fst kv) w = (got, w1)" "count_visible io ip port kvs w1 = (n2, w2)"
    by fastforce
  with Cons show ?case
    by (cases kv) (fastforce split: if_splits)
qed

lemma write_keys_length: "write_keys io ip port p is w = (kvs, w') \<Longrightarrow> length kvs \<le> length is"
proof (induction "is" arbitrary: w kvs w')
  case Nil
  then show ?case by simp
next
  case (Cons i "is")
  obtain picks w1 where d: "draws io w = (picks, w1)"
    by fastforce
  obtain ok w2 where k: "write_key io ip port (p @ str_of_int (int i)) (random_value 8 picks) w1 = (ok, w2)"
    by fastforce
  obtain kvs' w3 where r: "write_keys io ip port p is w2 = (kvs', w3)"
    by fastforce
  with Cons.prems d k Cons.IH [OF r] show ?case
    by (auto split: if_splits)
qed

lemma summarize_timings_ordered:
  assumes "xs \<noteq> []"
  shows "\<exists>t. summarize_timings xs = Inr t \<and> ts_min t \<le> ts_avg t \<and> ts_avg t \<le> ts_max t \<and>
    ts_min t \<in> set xs \<and> ts_max t \<in> set xs \<and> (\<forall>x \<in> set xs. ts_min t \<le> x \<and> x \<le> ts_max t)"
proof -
  obtain mn where mn: "py_min xs = Inr mn" "mn \<in> set xs" "\<forall>x \<in> set xs. mn \<le> x"
    using py_min_Inr [OF assms] by blast
  obtain mx where mx: "py_max xs = Inr mx" "mx \<in> set xs" "\<forall>x \<in> set xs. x \<le> mx"
    using py_max_Inr [OF assms] by blast
  obtain a where a: "mean xs = Inr a" "mn \<le> a" "a \<le> mx"
    using mean_bounds [OF assms, of mn mx] mn mx by blast
  then show ?thesis
    using mn mx by (auto simp: summarize_timings_def stdev_def)
qed

text \<open>The state of the experiment after at most \<open>n\<close> completed rounds.\<close>

definition election_ok :: "(pystr \<times> pystr) list \<Rightarrow> nat \<Rightarrow> election_state \<Rightarrow> bool" where
  "election_ok nodes n st \<longleftrightarrow>
     map fst (es_nodes st) = map fst nodes \<and>
     length (election_times st) \<le> n \<and>
     length (data_loss_counts st) = length (election_times st) \<and>
     length (catchup_counts st) \<le> length (election_times st) \<and>
     (\<forall>l \<in> set (data_loss_counts st). 0 \<le> l \<and> l \<le> 10) \<and>
     (\<forall>c \<in> set (catchup_counts st). 0 \<le> c \<and> c \<le> 10)"

lemma election_ok_mono: "election_ok nodes n st \<Longrightarrow> n \<le> m \<Longrightarrow> election_ok nodes m st"
  by (auto simp: election_ok_def)

lemma update_keys: "k \<in> set (map fst kvs) \<Longrightarrow> map fst (AList.update k v kvs) = map fst kvs"
  by (induction kvs) (auto split: if_splits)

lemma rejoin_ok:
  assumes "election_ok nodes n st" "length (catchup_counts st) < length (election_times st)"
    "l \<in> set (map fst nodes)" "length post \<le> 10" "rejoin io args l inst post st w = (Inr st', w')"
  shows "election_ok nodes n st'"
proof -
  consider "st' = st" | ip caught w1 w2 where "count_visible io ip (ea_port args) post w1 = (caught, w2)"
      "st' = st\<lparr>es_nodes := AList.update l ip (es_nodes st), catchup_counts := catchup_counts st @ [caught]\<rparr>"
    using assms(5) by (auto simp: rejoin_def Let_def split: prod.splits sum.splits option.splits)
  then show ?thesis
  proof cases
    case 1
    with assms show ?thesis by simp
  next
    case 2
    have "map fst (AList.update l ip (es_nodes st)) = map fst nodes"
      using assms(1,3) update_keys [of l "es_nodes st" ip] by (simp add: election_ok_def)
    with 2 assms(1,2,4) count_visible_bounds [OF 2(1)] show ?thesis
      by (auto simp: election_ok_def)
  qed
qed

lemma after_election_ok:
  assumes "election_ok nodes n st" "l \<in> set (map fst nodes)" "length pre \<le> 10"
    "after_election io args r l inst pre new ms st w = (Inr st', w')"
  shows "election_ok nodes (Suc n) st'"
proof -
  obtain ip where ip: "map_of (es_nodes st) new = Some ip"
    using assms(4) by (auto simp: after_election_def split: option.splits)
  obtain survived w1 where c: "count_visible io ip (ea_port args) pre w = (survived, w1)"
    by fastforce
  obtain post w2 where p: "write_keys io ip (ea_port args) (lit ''r'' @ str_of_int r @ lit ''-post-'') [0..<10] w1 = (post, w2)"
    by fastforce
  let ?st = "st\<lparr>election_times := election_times st @ [ms],
      data_loss_counts := data_loss_counts st @ [int (length pre) - survived]\<rparr>"
  have 1: "election_ok nodes (Suc n) ?st"
    using assms(1,3) count_visible_bounds [OF c] by (auto simp: election_ok_def)
  have 2: "length (catchup_counts ?st) < length (election_times ?st)"
    using assms(1) by (auto simp: election_ok_def)
  have 3: "length post \<le> 10"
    using write_keys_length [OF p] by simp
  have "rejoin io args l inst post ?st w2 = (Inr st', w')"
    using assms(4) ip c p by (simp add: after_election_def del: upt_rec_numeral)
  from rejoin_ok [OF 1 2 assms(2) 3 this] show ?thesis .
qed

lemma le_round_ok:
  assumes "election_ok nodes n st" "le_round io args r st w = Some (Inr st', w')"
  shows "election_ok nodes (Suc n) st'"
proof -
  consider "st' = st" | l lip w1 pre w2 w3 inst new ms w4 where "le_find_leader io (es_nodes st) (ea_port args) w = (Inr (Some (l, lip)), w1)"
      "write_keys io lip (ea_port args) (lit ''r'' @ str_of_int r @ lit ''-pre-'') [0..<10] w2 = (pre, w3)"
      "after_election io args r l inst pre new ms st w4 = (Inr st', w')"
    using assms(2) by (simp add: le_round_def Let_def split: prod.splits sum.splits option.splits)
  then show ?thesis
  proof cases
    case 1
    with assms(1) show ?thesis
      by (auto intro: election_ok_mono)
  next
    case 2
    have "l \<in> fst ` set (es_nodes st)"
      using le_find_leader_mem [OF 2(1)] by force
    then have "l \<in> set (map fst (es_nodes st))"
      by simp
    then have "l \<in> set (map fst nodes)"
      using assms(1) by (simp only: election_ok_def)
    moreover have "length pre \<le> 10"
      using write_keys_length [OF 2(2)] by simp
    ultimately show ?thesis
      by (rule after_election_ok [OF assms(1) _ _ 2(3)])
  qed
qed

lemma le_rounds_ok:
  assumes "election_ok nodes n st" "le_rounds io args rs st w = Some (Inr st', w')"
  shows "election_ok nodes (n + length rs) st'"
  using assms
proof (induction rs arbitrary: n st w)
  case Nil
  then show ?case by simp
next
  case (Cons r rs)
  then obtain st1 w1 where "le_round io args r st w = Some (Inr st1, w1)" "le_rounds io args rs st1 w1 = Some (Inr st', w')"
    by (auto split: option.splits prod.splits sum.splits)
  with Cons.IH [of "Suc n" st1 w1] le_round_ok [OF Cons.prems(1)] show ?case
    by fastforce
qed

lemma le_report_total:
  assumes "election_ok nodes n st"
  shows "\<exists>rep. le_report st = Inr rep \<and> er_completed rep = length (election_times st) \<and>
    er_completed rep \<le> n \<and> (er_timings rep = None \<longleftrightarrow> er_completed rep = 0) \<and>
    (\<forall>t. er_timings rep = Some t \<longrightarrow> ts_min t \<le> ts_avg t \<and> ts_avg t \<le> ts_max t) \<and>
    (\<forall>l. er_data_loss rep = Some l \<longrightarrow> 0 \<le> l \<and> l \<le> 10 * int (er_completed rep)) \<and>
    (\<forall>c. er_avg_catchup rep = Some c \<longrightarrow> 0 \<le> c \<and> c \<le> 10)"
proof (cases "election_times st = []")
  case True
  with assms show ?thesis
    by (simp add: le_report_def election_ok_def)
next
  case False
  obtain t where t: "summarize_timings (election_times st) = Inr t" "ts_min t \<le> ts_avg t" "ts_avg t \<le> ts_max t"
    using summarize_timings_ordered [OF False] by blast
  have loss: "0 \<le> sum_list ls \<and> sum_list ls \<le> 10 * int (length ls)" if "\<forall>l \<in> set ls. 0 \<le> l \<and> l \<le> 10" for ls
    using that by (induction ls) auto
  have "\<exists>a. mean (map of_int (catchup_counts st)) = Inr a \<and> 0 \<le> a \<and> a \<le> 10" if "catchup_counts st \<noteq> []"
    using assms that by (intro mean_bounds) (auto simp: election_ok_def)
  then show ?thesis
    using t False assms loss [of "data_loss_counts st"]
    by (cases "catchup_counts st = []") (auto simp: le_report_def election_ok_def)
qed

end
