(* ===== verification/Raft_Log.thy ===== *)
theory Raft_Log
  imports Prelude
begin

text \<open>
  The replicated log of \<^verbatim>\<open>raft/log.go\<close>: a slice of entries that starts with a sentinel of
  index 0, searched by index. Terms and indices are 64-bit words, as in the code. The
  well-formedness invariant says that the entry at position \<open>i\<close> has index \<open>i\<close>; under it every
  operation is the list operation one expects.
\<close>

lemma unat_plus_1: "a < b \<Longrightarrow> unat (a + 1 :: uint64) = Suc (unat a)"
proof -
  assume "a < b"
  moreover have "unat b < 2 ^ LENGTH(64)"
    using unsigned_less [of b] by simp
  ultimately have "Suc (unat a) < 2 ^ 64"
    by (simp add: word_less_nat_alt)
  then show ?thesis
    by (simp add: unat_word_ariths)
qed

record LogEntry =
  Term :: uint64
  Index :: uint64
  Command :: string

type_synonym logStore = "LogEntry list"

definition newLogStore :: logStore where
  "newLogStore = [\<lparr>Term = 0, Index = 0, Command = []\<rparr>]"

text \<open>The log is never empty (part of the invariant), so the last element exists.\<close>

definition lastIndexAndTerm :: "logStore \<Rightarrow> uint64 \<times> uint64" where
  "lastIndexAndTerm l = (Index (last l), Term (last l))"

definition lastIndex :: "logStore \<Rightarrow> uint64" where
  "lastIndex l = Index (last l)"

definition entryAt :: "logStore \<Rightarrow> uint64 \<Rightarrow> LogEntry option" where
  "entryAt l i = find (\<lambda>e. Index e = i) l"

definition appendEntry :: "LogEntry \<Rightarrow> logStore \<Rightarrow> logStore" where
  "appendEntry e l = l @ [e]"

definition truncateAfter :: "uint64 \<Rightarrow> logStore \<Rightarrow> logStore" where
  "truncateAfter i l = takeWhile (\<lambda>e. \<not> i < Index e) l"

definition entriesFrom :: "uint64 \<Rightarrow> logStore \<Rightarrow> LogEntry list" where
  "entriesFrom i l = dropWhile (\<lambda>e. \<not> i \<le> Index e) l"

subsection \<open>The invariant\<close>

definition log_wf :: "logStore \<Rightarrow> bool" where
  "log_wf l \<longleftrightarrow> l \<noteq> [] \<and> length l \<le> 2 ^ 64 \<and> (\<forall>i < length l. Index (l ! i) = of_nat i) \<and> Term (hd l) = 0"

lemma log_wf_new [simp]: "log_wf newLogStore"
  by (simp add: log_wf_def newLogStore_def)

lemma log_wf_nonempty: "log_wf l \<Longrightarrow> l \<noteq> []"
  by (simp add: log_wf_def)

lemma log_wf_unat: "log_wf l \<Longrightarrow> i < length l \<Longrightarrow> unat (Index (l ! i)) = i"
  by (simp add: log_wf_def unat_of_nat)

lemma lastIndex_unat: "log_wf l \<Longrightarrow> unat (lastIndex l) = length l - 1"
  using log_wf_unat [of l "length l - 1"] by (simp add: lastIndex_def log_wf_nonempty last_conv_nth)

lemma lastIndexAndTerm_eq: "lastIndexAndTerm l = (lastIndex l, Term (last l))"
  by (simp add: lastIndexAndTerm_def lastIndex_def)

text \<open>Lookup by index is lookup by position.\<close>

lemma entryAt_nth:
  assumes "log_wf l"
  shows "entryAt l i = (if unat i < length l then Some (l ! unat i) else None)"
proof (cases "unat i < length l")
  case True
  moreover have "Index (l ! unat i) = i"
    using assms True by (simp add: log_wf_def)
  moreover have "Index (l ! j) \<noteq> i" if "j < unat i" for j
    using log_wf_unat [OF assms, of j] that True by auto
  ultimately show ?thesis
    by (auto simp: entryAt_def find_Some_iff)
next
  case False
  then have "Index e \<noteq> i" if "e \<in> set l" for e
    using that log_wf_unat [OF assms] by (auto simp: in_set_conv_nth)
  with False show ?thesis
    by (simp add: entryAt_def find_None_iff)
qed

lemma truncateAfter_take:
  assumes "log_wf l"
  shows "truncateAfter i l = take (Suc (unat i)) l"
proof -
  have "\<not> i < Index (l ! j) \<longleftrightarrow> j \<le> unat i" if "j < length l" for j
    using log_wf_unat [OF assms that] by (simp add: word_less_nat_alt not_less)
  then have "truncateAfter i l = take (min (Suc (unat i)) (length l)) l"
    unfolding truncateAfter_def by (intro takeWhile_eq_take_P_nth) auto
  then show ?thesis
    by (simp add: min_def)
qed

lemma entriesFrom_drop:
  assumes "log_wf l"
  shows "entriesFrom i l = drop (unat i) l"
proof -
  have "\<not> i \<le> Index (l ! j) \<longleftrightarrow> j < unat i" if "j < length l" for j
    using log_wf_unat [OF assms that] by (simp add: word_le_nat_alt not_le)
  then have "takeWhile (\<lambda>e. \<not> i \<le> Index e) l = take (min (unat i) (length l)) l"
    by (intro takeWhile_eq_take_P_nth) auto
  moreover have "entriesFrom i l = drop (length (takeWhile (\<lambda>e. \<not> i \<le> Index e) l)) l"
    by (simp add: entriesFrom_def dropWhile_eq_drop)
  ultimately show ?thesis
    by (simp add: min_def)
qed

lemma log_wf_take: "log_wf l \<Longrightarrow> 0 < n \<Longrightarrow> log_wf (take n l)"
  by (auto simp: log_wf_def hd_take min_def)

lemma log_wf_append:
  "log_wf l \<Longrightarrow> Index e = of_nat (length l) \<Longrightarrow> length l < 2 ^ 64 \<Longrightarrow> log_wf (appendEntry e l)"
  by (auto simp: log_wf_def appendEntry_def nth_append less_Suc_eq)

end
