(* ===== verification/Raft_Node.thy ===== *)
theory Raft_Node
  imports Raft_Log
begin

text \<open>
  One node of \<^verbatim>\<open>raft/\<close>: its state (\<^verbatim>\<open>raft.go\<close>, \<^verbatim>\<open>state.go\<close>), the messages (\<^verbatim>\<open>transport.go\<close>), the
  two request handlers and the parts of an election (\<^verbatim>\<open>election.go\<close>), and the parts of
  replication (\<^verbatim>\<open>replication.go\<close>). Every definition is one section of code that runs under
  the node's mutex, so it is one atomic step; the goroutines that connect them are in
  \<^verbatim>\<open>Raft_Cluster\<close>. A map of indices reads as 0 where it has no entry, as a Go map does.
\<close>

subsection \<open>State\<close>

datatype NodeState = Follower | Candidate | Leader

definition NodeState_String :: "NodeState \<Rightarrow> string" where
  "NodeState_String s = (case s of Follower \<Rightarrow> ''Follower'' | Candidate \<Rightarrow> ''Candidate'' | Leader \<Rightarrow> ''Leader'')"

record NodeMetrics =
  ElectionsStarted :: int
  VotesGranted :: int
  HeartbeatsSent :: int
  HeartbeatsRecvd :: int
  CurrentLeaderID :: string

text \<open>
  The reset channel carries no data, so it is the number of pending signals; the channel of
  committed commands is \<^const>\<open>None\<close> when absent, else what has been sent on it.
\<close>

record Node =
  nid :: string
  peers :: "string list"
  currentTerm :: uint64
  votedFor :: string
  nlog :: logStore
  commitIndex :: uint64
  lastApplied :: uint64
  nextIndex :: "string \<Rightarrow> uint64"
  matchIndex :: "string \<Rightarrow> uint64"
  nstate :: NodeState
  Metrics :: NodeMetrics
  applyCh :: "string list option"
  resetTimerCh :: nat
  stepDownCh :: "uint64 list"

definition NewNode :: "string \<Rightarrow> string list \<Rightarrow> bool \<Rightarrow> Node" where
  "NewNode i ps with_applyCh =
     \<lparr>nid = i, peers = ps, currentTerm = 0, votedFor = [], nlog = newLogStore, commitIndex = 0, lastApplied = 0,
      nextIndex = (\<lambda>_. 0), matchIndex = (\<lambda>_. 0), nstate = Follower,
      Metrics = \<lparr>ElectionsStarted = 0, VotesGranted = 0, HeartbeatsSent = 0, HeartbeatsRecvd = 0, CurrentLeaderID = []\<rparr>,
      applyCh = (if with_applyCh then Some [] else None), resetTimerCh = 0, stepDownCh = []\<rparr>"

definition IsLeader :: "Node \<Rightarrow> bool" where
  "IsLeader n \<longleftrightarrow> nstate n = Leader"

definition LeaderID :: "Node \<Rightarrow> string" where
  "LeaderID n = CurrentLeaderID (Metrics n)"

definition becomeFollower :: "uint64 \<Rightarrow> Node \<Rightarrow> Node" where
  "becomeFollower t n =
     (if currentTerm n < t then n\<lparr>currentTerm := t, votedFor := [], nstate := Follower\<rparr>
      else n\<lparr>nstate := Follower\<rparr>)"

text \<open>The two non-blocking sends: a full channel drops the signal.\<close>

definition signalReset :: "Node \<Rightarrow> Node" where
  "signalReset n = (if resetTimerCh n < 8 then n\<lparr>resetTimerCh := resetTimerCh n + 1\<rparr> else n)"

definition signalStepDown :: "uint64 \<Rightarrow> Node \<Rightarrow> Node" where
  "signalStepDown t n = (if length (stepDownCh n) < 4 then n\<lparr>stepDownCh := stepDownCh n @ [t]\<rparr> else n)"

subsection \<open>Messages\<close>

record RequestVoteArgs =
  rvTerm :: uint64
  rvCandidateID :: string
  rvLastLogIndex :: uint64
  rvLastLogTerm :: uint64

record RequestVoteReply =
  rrTerm :: uint64
  rrVoteGranted :: bool

record AppendEntriesArgs =
  aeTerm :: uint64
  aeLeaderID :: string
  aePrevLogIndex :: uint64
  aePrevLogTerm :: uint64
  aeEntries :: "LogEntry list"
  aeLeaderCommit :: uint64

record AppendEntriesReply =
  arTerm :: uint64
  arSuccess :: bool

subsection \<open>Request handlers\<close>

definition logOK :: "RequestVoteArgs \<Rightarrow> logStore \<Rightarrow> bool" where
  "logOK args l =
     (let (myLastIdx, myLastTerm) = lastIndexAndTerm l
      in myLastTerm < rvLastLogTerm args \<or>
         (rvLastLogTerm args = myLastTerm \<and> myLastIdx \<le> rvLastLogIndex args))"

definition HandleRequestVote :: "RequestVoteArgs \<Rightarrow> Node \<Rightarrow> RequestVoteReply \<times> Node" where
  "HandleRequestVote args n =
     (if rvTerm args < currentTerm n then (\<lparr>rrTerm = currentTerm n, rrVoteGranted = False\<rparr>, n)
      else
        (let n = (if currentTerm n < rvTerm args then becomeFollower (rvTerm args) n else n);
             alreadyVoted = (votedFor n \<noteq> [] \<and> votedFor n \<noteq> rvCandidateID args)
         in if alreadyVoted \<or> \<not> logOK args (nlog n)
            then (\<lparr>rrTerm = currentTerm n, rrVoteGranted = False\<rparr>, n)
            else
              (\<lparr>rrTerm = currentTerm n, rrVoteGranted = True\<rparr>,
               signalReset (n\<lparr>votedFor := rvCandidateID args,
                              Metrics := (Metrics n)\<lparr>VotesGranted := VotesGranted (Metrics n) + 1\<rparr>\<rparr>))))"

text \<open>One entry into the log: skipped when present with its term, else rewritten from there.\<close>

definition appendOne :: "LogEntry \<Rightarrow> logStore \<Rightarrow> logStore" where
  "appendOne e l =
     (case entryAt l (Index e) of
        Some existing \<Rightarrow>
          if Term existing \<noteq> Term e then appendEntry e (truncateAfter (Index e - 1) l) else l
      | None \<Rightarrow> appendEntry e l)"

definition prevOK :: "AppendEntriesArgs \<Rightarrow> logStore \<Rightarrow> bool" where
  "prevOK args l \<longleftrightarrow>
     (aePrevLogIndex args = 0 \<or>
      (case entryAt l (aePrevLogIndex args) of None \<Rightarrow> False | Some prev \<Rightarrow> Term prev = aePrevLogTerm args))"

text \<open>What every accepted request does first: adopt the term, step down, note the leader.\<close>

definition noteLeader :: "AppendEntriesArgs \<Rightarrow> Node \<Rightarrow> Node" where
  "noteLeader args n =
     (let n = (if currentTerm n < aeTerm args then becomeFollower (aeTerm args) n else n);
          n = (if nstate n = Candidate then n\<lparr>nstate := Follower\<rparr> else n);
          n = signalReset n
      in n\<lparr>Metrics := (Metrics n)\<lparr>HeartbeatsRecvd := HeartbeatsRecvd (Metrics n) + 1,
                               CurrentLeaderID := aeLeaderID args\<rparr>\<rparr>)"

text \<open>The flag says whether the handler starts \<^verbatim>\<open>applyCommitted\<close> in a goroutine.\<close>

definition HandleAppendEntries :: "AppendEntriesArgs \<Rightarrow> Node \<Rightarrow> AppendEntriesReply \<times> Node \<times> bool" where
  "HandleAppendEntries args n =
     (if aeTerm args < currentTerm n then (\<lparr>arTerm = currentTerm n, arSuccess = False\<rparr>, n, False)
      else
        (let n = noteLeader args n
         in if \<not> prevOK args (nlog n) then (\<lparr>arTerm = currentTerm n, arSuccess = False\<rparr>, n, False)
            else
              (let n = n\<lparr>nlog := fold appendOne (aeEntries args) (nlog n)\<rparr>
               in if commitIndex n < aeLeaderCommit args
                  then (\<lparr>arTerm = currentTerm n, arSuccess = True\<rparr>,
                        n\<lparr>commitIndex := min (aeLeaderCommit args) (lastIndex (nlog n))\<rparr>, True)
                  else (\<lparr>arTerm = currentTerm n, arSuccess = True\<rparr>, n, False))))"

subsection \<open>Elections\<close>

text \<open>The first section of \<^verbatim>\<open>loopCandidate\<close>, with the request it sends to every peer.\<close>

definition startElection :: "Node \<Rightarrow> RequestVoteArgs \<times> Node" where
  "startElection n =
     (let n = n\<lparr>currentTerm := currentTerm n + 1, votedFor := nid n\<rparr>;
          (lastIdx, lastTerm) = lastIndexAndTerm (nlog n)
      in (\<lparr>rvTerm = currentTerm n, rvCandidateID = nid n, rvLastLogIndex = lastIdx, rvLastLogTerm = lastTerm\<rparr>,
          n\<lparr>Metrics := (Metrics n)\<lparr>ElectionsStarted := ElectionsStarted (Metrics n) + 1\<rparr>\<rparr>))"

definition majority :: "Node \<Rightarrow> nat" where
  "majority n = (length (peers n) + 1) div 2 + 1"

definition becomeLeader :: "uint64 \<Rightarrow> Node \<Rightarrow> Node" where
  "becomeLeader t n =
     (if currentTerm n \<noteq> t then n
      else if nstate n \<noteq> Candidate then n
      else
        (let lastIdx = fst (lastIndexAndTerm (nlog n))
         in n\<lparr>nstate := Leader,
              nextIndex := fold (\<lambda>p f. f(p := lastIdx + 1)) (peers n) (nextIndex n),
              matchIndex := fold (\<lambda>p f. f(p := 0)) (peers n) (matchIndex n),
              Metrics := (Metrics n)\<lparr>CurrentLeaderID := nid n\<rparr>\<rparr>))"

subsection \<open>Replication\<close>

text \<open>The first section of \<^verbatim>\<open>Replicate\<close>: the new entry, or nothing when not the leader.\<close>

definition replicateStart :: "string \<Rightarrow> Node \<Rightarrow> (LogEntry \<times> Node) option" where
  "replicateStart command n =
     (if \<not> IsLeader n then None
      else
        (let entry = \<lparr>Term = currentTerm n, Index = fst (lastIndexAndTerm (nlog n)) + 1, Command = command\<rparr>
         in Some (entry, n\<lparr>nlog := appendEntry entry (nlog n), matchIndex := (matchIndex n)(nid n := Index entry)\<rparr>)))"

text \<open>\<^verbatim>\<open>for idx := nextIdx; idx <= last; idx++\<close>: it would not end for the largest index.\<close>

partial_function (option) collectEntries :: "logStore \<Rightarrow> uint64 \<Rightarrow> uint64 \<Rightarrow> LogEntry list option" where
  "collectEntries l idx lst =
     (if idx \<le> lst then
        Option.bind (collectEntries l (idx + 1) lst)
          (\<lambda>es. Some (case entryAt l idx of None \<Rightarrow> es | Some e \<Rightarrow> e # es))
      else Some [])"

definition prevTerm :: "logStore \<Rightarrow> uint64 \<Rightarrow> uint64" where
  "prevTerm l prevLogIndex =
     (if 0 < prevLogIndex then (case entryAt l prevLogIndex of None \<Rightarrow> 0 | Some prev \<Rightarrow> Term prev) else 0)"

text \<open>One turn of \<^verbatim>\<open>replicateToPeer\<close> up to the send; the inner \<^const>\<open>None\<close> means it gave up.\<close>

definition replicateArgs ::
    "string \<Rightarrow> LogEntry \<Rightarrow> uint64 \<Rightarrow> uint64 \<Rightarrow> Node \<Rightarrow> AppendEntriesArgs option option" where
  "replicateArgs peer entry t leaderCommit n =
     (if currentTerm n \<noteq> t \<or> \<not> IsLeader n then Some None
      else
        (let nextIdx = nextIndex n peer
         in case collectEntries (nlog n) nextIdx (Index entry) of
              None \<Rightarrow> None
            | Some entries \<Rightarrow>
                Some (Some \<lparr>aeTerm = t, aeLeaderID = nid n, aePrevLogIndex = nextIdx - 1,
                            aePrevLogTerm = prevTerm (nlog n) (nextIdx - 1), aeEntries = entries,
                            aeLeaderCommit = leaderCommit\<rparr>)))"

datatype replicate_next = Acked bool | Retry

text \<open>The rest of the turn, on a reply: done, or another turn with a lower index.\<close>

definition replicateReply ::
    "string \<Rightarrow> LogEntry \<Rightarrow> uint64 \<Rightarrow> AppendEntriesReply \<Rightarrow> Node \<Rightarrow> replicate_next \<times> Node" where
  "replicateReply peer entry t reply n =
     (if t < arTerm reply then (Acked False, signalStepDown (arTerm reply) n)
      else if arSuccess reply then
        (Acked True,
         n\<lparr>matchIndex := (if matchIndex n peer < Index entry then (matchIndex n)(peer := Index entry) else matchIndex n),
           nextIndex := (nextIndex n)(peer := Index entry + 1)\<rparr>)
      else if 1 < nextIndex n peer then (Retry, n\<lparr>nextIndex := (nextIndex n)(peer := nextIndex n peer - 1)\<rparr>)
      else (Acked False, n))"

text \<open>A majority acknowledged the entry.\<close>

definition replicateCommit :: "LogEntry \<Rightarrow> Node \<Rightarrow> Node" where
  "replicateCommit entry n = (if commitIndex n < Index entry then n\<lparr>commitIndex := Index entry\<rparr> else n)"

definition heartbeatArgs :: "string \<Rightarrow> Node \<Rightarrow> AppendEntriesArgs" where
  "heartbeatArgs peer n =
     (let nextIdx = nextIndex n peer;
          lastIdx = fst (lastIndexAndTerm (nlog n));
          behind = (nextIdx \<le> lastIdx)
      in \<lparr>aeTerm = currentTerm n, aeLeaderID = nid n,
          aePrevLogIndex = (if behind then nextIdx - 1 else 0),
          aePrevLogTerm = (if behind then prevTerm (nlog n) (nextIdx - 1) else 0),
          aeEntries = (if behind then entriesFrom nextIdx (nlog n) else []),
          aeLeaderCommit = commitIndex n\<rparr>)"

text \<open>\<^verbatim>\<open>advanceCommitIndex\<close>: the loop over indices, committing only entries of the current term.\<close>

definition replicas :: "Node \<Rightarrow> uint64 \<Rightarrow> nat" where
  "replicas n idx = 1 + length (filter (\<lambda>p. idx \<le> matchIndex n p) (peers n))"

partial_function (option) advanceLoop :: "uint64 \<Rightarrow> uint64 \<Rightarrow> Node \<Rightarrow> Node option" where
  "advanceLoop idx lastIdx n =
     (if idx \<le> lastIdx then
        advanceLoop (idx + 1) lastIdx
          (case entryAt (nlog n) idx of
             None \<Rightarrow> n
           | Some entry \<Rightarrow>
               if Term entry \<noteq> currentTerm n then n
               else if majority n \<le> replicas n idx then n\<lparr>commitIndex := idx\<rparr> else n)
      else Some n)"

definition advanceCommitIndex :: "Node \<Rightarrow> Node option" where
  "advanceCommitIndex n = advanceLoop (commitIndex n + 1) (fst (lastIndexAndTerm (nlog n))) n"

text \<open>
  The rest of \<^verbatim>\<open>sendHeartbeatToPeer\<close>, on a reply to the request \<open>args\<close>; the flag says whether
  \<^verbatim>\<open>applyCommitted\<close> runs next.
\<close>

definition heartbeatReply ::
    "string \<Rightarrow> AppendEntriesArgs \<Rightarrow> AppendEntriesReply \<Rightarrow> Node \<Rightarrow> (Node \<times> bool) option" where
  "heartbeatReply peer args reply n =
     (let n = n\<lparr>Metrics := (Metrics n)\<lparr>HeartbeatsSent := HeartbeatsSent (Metrics n) + 1\<rparr>\<rparr>
      in if aeTerm args < arTerm reply then Some (signalStepDown (arTerm reply) n, False)
         else if aeEntries args = [] then Some (n, False)
         else if arSuccess reply then
           (let newMatch = aePrevLogIndex args + of_nat (length (aeEntries args));
                n = (if matchIndex n peer < newMatch
                     then n\<lparr>matchIndex := (matchIndex n)(peer := newMatch),
                            nextIndex := (nextIndex n)(peer := newMatch + 1)\<rparr>
                     else n)
            in map_option (\<lambda>n. (n, True)) (advanceCommitIndex n))
         else if 1 < nextIndex n peer then Some (n\<lparr>nextIndex := (nextIndex n)(peer := nextIndex n peer - 1)\<rparr>, False)
         else Some (n, False))"

text \<open>
  The section of \<^verbatim>\<open>applyCommitted\<close> under the mutex: the commands between the last applied and
  the commit index. Sending them on the channel happens after it, outside the mutex.
\<close>

function applyLoop :: "logStore \<Rightarrow> uint64 \<Rightarrow> uint64 \<Rightarrow> string list" where
  "applyLoop l applied commit =
     (if applied < commit then
        (case entryAt l (applied + 1) of None \<Rightarrow> [] | Some e \<Rightarrow> [Command e]) @ applyLoop l (applied + 1) commit
      else [])"
  by pat_completeness auto
termination
proof (relation "measure (\<lambda>(l, applied, commit). unat commit - unat applied)")
  fix applied commit :: uint64 and l :: logStore
  assume "applied < commit"
  moreover from this have "unat (applied + 1) = Suc (unat applied)"
    by (rule unat_plus_1)
  ultimately show "((l, applied + 1, commit), l, applied, commit) \<in> measure (\<lambda>(l, applied, commit). unat commit - unat applied)"
    by (simp add: word_less_nat_alt)
qed simp

declare applyLoop.simps [simp del]

definition applyCommitted :: "Node \<Rightarrow> string list \<times> Node" where
  "applyCommitted n =
     (applyLoop (nlog n) (lastApplied n) (commitIndex n), n\<lparr>lastApplied := max (lastApplied n) (commitIndex n)\<rparr>)"

end
