(* ===== verification/Raft_Handlers.thy ===== *)
theory Raft_Handlers
  imports Raft_Node
begin

text \<open>
  What the locked sections of a Raft node do: the loops return, appending entries is a merge
  at the first conflict, and the two request handlers and the commit and apply steps meet
  their specifications.
\<close>

subsection \<open>The loops return\<close>

lemma word_le_cases: "(a :: uint64) \<le> b \<longleftrightarrow> unat a \<le> unat b"
  by (simp add: word_le_nat_alt)

lemma unat_suc_le: "a \<le> b \<Longrightarrow> b \<noteq> - 1 \<Longrightarrow> unat (a + 1 :: uint64) = Suc (unat a)"
proof -
  assume "a \<le> b" "b \<noteq> - 1"
  moreover from this have "b < - 1"
    using word_order.extremum [of b] by (simp add: order.not_eq_order_implies_strict)
  ultimately show ?thesis
    using unat_plus_1 [of a "- 1"] by (simp add: order.strict_trans1)
qed

lemma term_grows: "(t :: uint64) \<noteq> - 1 \<Longrightarrow> t < t + 1"
proof -
  assume "t \<noteq> - 1"
  then have "t < - 1"
    using word_order.extremum [of t] by (simp add: order.not_eq_order_implies_strict)
  then show ?thesis
    using unat_plus_1 [of t "- 1"] by (simp add: word_less_nat_alt)
qed

lemma drop_take_step: "i < n \<Longrightarrow> i < length l \<Longrightarrow> drop i (take n l) = l ! i # drop (Suc i) (take n l)"
  using Cons_nth_drop_Suc [of i "take n l"] by simp

text \<open>On a well-formed log the collected entries are a segment of it.\<close>

lemma collectEntries_segment:
  assumes "log_wf l" "lst \<noteq> - 1"
  shows "collectEntries l idx lst = Some (drop (unat idx) (take (Suc (unat lst)) l))"
proof (induction "Suc (unat lst) - unat idx" arbitrary: idx)
  case 0
  then have "\<not> idx \<le> lst"
    by (simp add: word_le_nat_alt)
  with 0 show ?case
    by (subst collectEntries.simps) simp
next
  case (Suc k)
  then have le: "idx \<le> lst"
    by (simp add: word_le_nat_alt)
  then have u: "unat (idx + 1) = Suc (unat idx)"
    using unat_suc_le assms(2) by blast
  with Suc have IH: "collectEntries l (idx + 1) lst = Some (drop (Suc (unat idx)) (take (Suc (unat lst)) l))"
    by (simp add: Suc.hyps(1) [of "idx + 1"])
  have d: "drop (unat idx) (take (Suc (unat lst)) l) =
      (case entryAt l idx of None \<Rightarrow> [] | Some e \<Rightarrow> [e]) @ drop (Suc (unat idx)) (take (Suc (unat lst)) l)"
    using le by (auto simp: entryAt_nth [OF assms(1)] word_le_nat_alt drop_take_step)
  show ?case
    using le by (subst collectEntries.simps) (simp add: IH d split: option.split)
qed

text \<open>
  The commit loop returns, and ends with the old commit index or with one that it may commit.
\<close>

lemma advanceLoop_returns:
  assumes "lst \<noteq> - 1"
  shows "\<exists>c. advanceLoop idx lst n = Some (n\<lparr>commitIndex := c\<rparr>) \<and>
     (c = commitIndex n \<or>
      (idx \<le> c \<and> c \<le> lst \<and> majority n \<le> replicas n c \<and>
       (\<exists>e. entryAt (nlog n) c = Some e \<and> Term e = currentTerm n)))"
proof (induction "Suc (unat lst) - unat idx" arbitrary: idx n)
  case 0
  then have "\<not> idx \<le> lst"
    by (simp add: word_le_nat_alt)
  then show ?case
    by (subst advanceLoop.simps) (auto intro: exI [of _ "commitIndex n"])
next
  case (Suc k)
  then have le: "idx \<le> lst"
    by (simp add: word_le_nat_alt)
  then have u: "unat (idx + 1) = Suc (unat idx)"
    using unat_suc_le assms by blast
  then have lt: "idx \<le> c" if "idx + 1 \<le> c" for c
    using that by (simp add: word_le_nat_alt)
  define m where "m = (case entryAt (nlog n) idx of None \<Rightarrow> n
    | Some entry \<Rightarrow> if Term entry \<noteq> currentTerm n then n
        else if majority n \<le> replicas n idx then n\<lparr>commitIndex := idx\<rparr> else n)"
  have step: "advanceLoop idx lst n = advanceLoop (idx + 1) lst m"
    using le by (subst advanceLoop.simps) (simp add: m_def)
  have m: "m = n \<or> (m = n\<lparr>commitIndex := idx\<rparr> \<and> majority n \<le> replicas n idx \<and>
      (\<exists>e. entryAt (nlog n) idx = Some e \<and> Term e = currentTerm n))"
    by (auto simp: m_def split: option.splits if_splits)
  have k: "k = Suc (unat lst) - unat (idx + 1)"
    using Suc.hyps(2) u by simp
  obtain c where "advanceLoop (idx + 1) lst m = Some (m\<lparr>commitIndex := c\<rparr>)"
    "c = commitIndex m \<or> (idx + 1 \<le> c \<and> c \<le> lst \<and> majority m \<le> replicas m c \<and>
       (\<exists>e. entryAt (nlog m) c = Some e \<and> Term e = currentTerm m))"
    using Suc.hyps(1) [of "idx + 1" m, OF k] by blast
  with m le lt step show ?case
    by (auto simp: majority_def replicas_def)
qed

lemma applyLoop_segment:
  assumes "log_wf l"
  shows "applyLoop l applied commit = map Command (drop (Suc (unat applied)) (take (Suc (unat commit)) l))"
proof (induction "unat commit - unat applied" arbitrary: applied)
  case 0
  then have "\<not> applied < commit"
    by (simp add: word_less_nat_alt)
  with 0 show ?case
    by (subst applyLoop.simps) simp
next
  case (Suc k)
  then have lt: "applied < commit"
    by (simp add: word_less_nat_alt)
  then have u: "unat (applied + 1) = Suc (unat applied)"
    by (rule unat_plus_1)
  have IH: "applyLoop l (applied + 1) commit = map Command (drop (Suc (Suc (unat applied))) (take (Suc (unat commit)) l))"
    using Suc.hyps(1) [of "applied + 1"] Suc.hyps(2) u by simp
  have d: "drop (Suc (unat applied)) (take (Suc (unat commit)) l) =
      (case entryAt l (applied + 1) of None \<Rightarrow> [] | Some e \<Rightarrow> [e]) @ drop (Suc (Suc (unat applied))) (take (Suc (unat commit)) l)"
    using lt by (auto simp: entryAt_nth [OF assms] u word_less_nat_alt drop_take_step)
  show ?case
    using lt by (subst applyLoop.simps) (simp add: IH d split: option.split)
qed

subsection \<open>Appending entries\<close>

text \<open>Entries whose indices count up from \<open>p\<close>.\<close>

definition consecutive :: "nat \<Rightarrow> LogEntry list \<Rightarrow> bool" where
  "consecutive p es \<longleftrightarrow> (\<forall>i < length es. Index (es ! i) = of_nat (p + i)) \<and> p + length es \<le> 2 ^ 64"

lemma consecutive_Cons: "consecutive p (e # es) \<longleftrightarrow> Index e = of_nat p \<and> consecutive (Suc p) es"
  by (auto simp: consecutive_def nth_Cons split: nat.splits)

text \<open>
  What appending is meant to do: keep the log as long as it agrees with the entries on the
  terms, and replace it from the first disagreement on.
\<close>

fun merge_at :: "nat \<Rightarrow> LogEntry list \<Rightarrow> logStore \<Rightarrow> logStore" where
  "merge_at p [] l = l"
| "merge_at p (e # es) l =
     (if p < length l \<and> Term (l ! p) = Term e then merge_at (Suc p) es l else take p l @ e # es)"

lemma fold_appendOne_fresh:
  "log_wf l \<Longrightarrow> consecutive (length l) es \<Longrightarrow> fold appendOne es l = l @ es"
proof (induction es arbitrary: l)
  case Nil
  then show ?case by simp
next
  case (Cons e es)
  then have e: "Index e = of_nat (length l)" "consecutive (Suc (length l)) es" "length l < 2 ^ 64"
    by (auto simp: consecutive_Cons consecutive_def)
  then have "entryAt l (Index e) = None"
    using Cons.prems(1) by (simp add: entryAt_nth unat_of_nat)
  then have "appendOne e l = l @ [e]"
    by (simp add: appendOne_def appendEntry_def)
  with e Cons.IH [of "l @ [e]"] log_wf_append [OF Cons.prems(1) e(1,3)] show ?case
    by (simp add: appendEntry_def)
qed

lemma fold_appendOne_merge:
  "log_wf l \<Longrightarrow> 0 < p \<Longrightarrow> p \<le> length l \<Longrightarrow> consecutive p es \<Longrightarrow> fold appendOne es l = merge_at p es l"
proof (induction es arbitrary: p)
  case Nil
  then show ?case by simp
next
  case (Cons e es)
  then have e: "Index e = of_nat p" "consecutive (Suc p) es" "p < 2 ^ 64"
    by (auto simp: consecutive_Cons consecutive_def)
  then have at: "entryAt l (Index e) = (if p < length l then Some (l ! p) else None)"
    using Cons.prems(1) by (simp add: entryAt_nth unat_of_nat)
  show ?case
  proof (cases "p < length l \<and> Term (l ! p) = Term e")
    case True
    with at Cons e show ?thesis
      by (simp add: appendOne_def)
  next
    case False
    have "Index e - 1 = of_nat (p - 1)"
      using Cons.prems(2) e(1) by (simp add: of_nat_diff)
    then have "unat (Index e - 1) = p - 1"
      using e(3) by (simp add: unat_of_nat)
    then have "truncateAfter (Index e - 1) l = take p l"
      using Cons.prems(1,2) by (simp add: truncateAfter_take)
    moreover have "take p l = l" if "\<not> p < length l"
      using that by simp
    ultimately have "appendOne e l = take p l @ [e]"
      using at False by (auto simp: appendOne_def appendEntry_def)
    moreover have "log_wf (take p l @ [e])"
      using log_wf_append [OF log_wf_take [OF Cons.prems(1,2)]] e Cons.prems(3) by (simp add: appendEntry_def min_def)
    moreover have "length (take p l @ [e]) = Suc p"
      using Cons.prems(3) by simp
    ultimately have "fold appendOne (e # es) l = take p l @ e # es"
      using e(2) fold_appendOne_fresh [of "take p l @ [e]" es] by simp
    then show ?thesis
      using False by (simp only: merge_at.simps if_False)
  qed
qed

lemma log_wf_extend: "log_wf l \<Longrightarrow> consecutive (length l) es \<Longrightarrow> log_wf (l @ es)"
  by (auto simp: log_wf_def consecutive_def nth_append)

lemma merge_at_wf:
  "log_wf l \<Longrightarrow> 0 < p \<Longrightarrow> p \<le> length l \<Longrightarrow> consecutive p es \<Longrightarrow> log_wf (merge_at p es l)"
proof (induction es arbitrary: p)
  case Nil
  then show ?case by simp
next
  case (Cons e es)
  then show ?case
    using log_wf_extend [OF log_wf_take [OF Cons.prems(1,2)], of "e # es"]
    by (auto simp: min_def consecutive_Cons)
qed

lemma merge_at_prefix: "p \<le> length l \<Longrightarrow> take p (merge_at p es l) = take p l"
proof (induction es arbitrary: p)
  case Nil
  then show ?case by simp
next
  case (Cons e es)
  show ?case
  proof (cases "p < length l \<and> Term (l ! p) = Term e")
    case True
    have "take p (merge_at (Suc p) es l) = take p (take (Suc p) (merge_at (Suc p) es l))"
      by (simp add: min_def)
    also have "\<dots> = take p l"
      using Cons.IH [of "Suc p"] True by (simp add: min_def)
    finally show ?thesis
      using True by simp
  next
    case False
    with Cons.prems show ?thesis by auto
  qed
qed

lemma merge_at_length: "p \<le> length l \<Longrightarrow> p + length es \<le> length (merge_at p es l)"
proof (induction es arbitrary: p)
  case Nil
  then show ?case by simp
next
  case (Cons e es)
  then show ?case using Cons.IH [of "Suc p"] by auto
qed

lemma merge_at_terms:
  "p \<le> length l \<Longrightarrow> i < length es \<Longrightarrow> Term (merge_at p es l ! (p + i)) = Term (es ! i)"
proof (induction es arbitrary: p i)
  case Nil
  then show ?case by simp
next
  case (Cons e es)
  show ?case
  proof (cases "p < length l \<and> Term (l ! p) = Term e")
    case True
    have "take (Suc p) (merge_at (Suc p) es l) ! p = take (Suc p) l ! p"
      using merge_at_prefix [of "Suc p" l es] True by simp
    with True Cons Cons.IH [of "Suc p" "i - 1"] show ?thesis
      by (cases i) auto
  next
    case False
    with Cons.prems show ?thesis
      by (auto simp: nth_append)
  qed
qed

lemma merge_at_shape:
  "p \<le> length l \<Longrightarrow> merge_at p es l = l \<or> (\<exists>k < length es. merge_at p es l = take (p + k) l @ drop k es \<and>
     p + k \<le> length l \<and> (\<forall>i < k. Term (l ! (p + i)) = Term (es ! i)) \<and>
     (p + k < length l \<longrightarrow> Term (l ! (p + k)) \<noteq> Term (es ! k)))"
proof (induction es arbitrary: p)
  case Nil
  then show ?case by simp
next
  case (Cons e es)
  show ?case
  proof (cases "p < length l \<and> Term (l ! p) = Term e")
    case True
    with Cons.IH [of "Suc p"] consider "merge_at (Suc p) es l = l"
      | k where "k < length es" "merge_at (Suc p) es l = take (Suc p + k) l @ drop k es" "Suc p + k \<le> length l"
          "\<forall>i < k. Term (l ! (Suc p + i)) = Term (es ! i)" "Suc p + k < length l \<longrightarrow> Term (l ! (Suc p + k)) \<noteq> Term (es ! k)"
      by auto
    then show ?thesis
    proof cases
      case 1
      with True show ?thesis by simp
    next
      case 2
      with True have "\<forall>i < Suc k. Term (l ! (p + i)) = Term ((e # es) ! i)"
        by (auto simp: less_Suc_eq_0_disj)
      with 2 True show ?thesis
        by (intro disjI2 exI [of _ "Suc k"]) simp
    qed
  next
    case False
    with Cons.prems show ?thesis
      by (intro disjI2 exI [of _ 0]) auto
  qed
qed

subsection \<open>Votes\<close>

lemma becomeFollower_simps [simp]:
  "currentTerm (becomeFollower t n) = max (currentTerm n) t"
  "votedFor (becomeFollower t n) = (if currentTerm n < t then [] else votedFor n)"
  "nstate (becomeFollower t n) = Follower" "nlog (becomeFollower t n) = nlog n"
  "nid (becomeFollower t n) = nid n" "peers (becomeFollower t n) = peers n"
  "commitIndex (becomeFollower t n) = commitIndex n" "lastApplied (becomeFollower t n) = lastApplied n"
  "nextIndex (becomeFollower t n) = nextIndex n" "matchIndex (becomeFollower t n) = matchIndex n"
  "applyCh (becomeFollower t n) = applyCh n" "stepDownCh (becomeFollower t n) = stepDownCh n"
  by (auto simp: becomeFollower_def max_def)

lemma signalReset_simps [simp]:
  "currentTerm (signalReset n) = currentTerm n" "votedFor (signalReset n) = votedFor n"
  "nstate (signalReset n) = nstate n" "nlog (signalReset n) = nlog n" "nid (signalReset n) = nid n"
  "peers (signalReset n) = peers n" "commitIndex (signalReset n) = commitIndex n"
  "lastApplied (signalReset n) = lastApplied n" "nextIndex (signalReset n) = nextIndex n"
  "matchIndex (signalReset n) = matchIndex n" "applyCh (signalReset n) = applyCh n"
  "stepDownCh (signalReset n) = stepDownCh n"
  by (simp_all add: signalReset_def)

lemma signalStepDown_simps [simp]:
  "currentTerm (signalStepDown t n) = currentTerm n" "votedFor (signalStepDown t n) = votedFor n"
  "nstate (signalStepDown t n) = nstate n" "nlog (signalStepDown t n) = nlog n" "nid (signalStepDown t n) = nid n"
  "peers (signalStepDown t n) = peers n" "commitIndex (signalStepDown t n) = commitIndex n"
  "lastApplied (signalStepDown t n) = lastApplied n" "nextIndex (signalStepDown t n) = nextIndex n"
  "matchIndex (signalStepDown t n) = matchIndex n" "applyCh (signalStepDown t n) = applyCh n"
  by (simp_all add: signalStepDown_def)

text \<open>
  The vote handler. For every request and every node: the term becomes the larger of the
  two and is reported; the vote is granted exactly when the request is not from an older term,
  the node has not voted for somebody else in that term, and the candidate's log is at least
  as up to date; the vote is remembered, a new term forgets the old vote and makes the node a
  follower; the log and the commit index do not change.
\<close>

lemma request_vote_spec:
  "case HandleRequestVote args n of (r, n') \<Rightarrow>
     currentTerm n' = max (currentTerm n) (rvTerm args) \<and> rrTerm r = currentTerm n' \<and>
     (rrVoteGranted r \<longleftrightarrow> currentTerm n \<le> rvTerm args \<and>
        (currentTerm n < rvTerm args \<or> votedFor n = [] \<or> votedFor n = rvCandidateID args) \<and> logOK args (nlog n)) \<and>
     votedFor n' = (if rrVoteGranted r then rvCandidateID args
                    else if currentTerm n < rvTerm args then [] else votedFor n) \<and>
     nstate n' = (if currentTerm n < rvTerm args then Follower else nstate n) \<and>
     nlog n' = nlog n \<and> commitIndex n' = commitIndex n"
  by (auto simp: HandleRequestVote_def Let_def max_def split: if_splits)

text \<open>The same facts as rules, for the proofs about clusters.\<close>

lemma HandleRequestVote_facts:
  assumes "HandleRequestVote args n = (r, n')"
  shows "currentTerm n' = max (currentTerm n) (rvTerm args)" "rrTerm r = currentTerm n'"
    "rrVoteGranted r \<Longrightarrow> currentTerm n' = rvTerm args \<and> votedFor n' = rvCandidateID args \<and>
       (currentTerm n < rvTerm args \<or> votedFor n = [] \<or> votedFor n = rvCandidateID args) \<and> logOK args (nlog n)"
    "\<not> rrVoteGranted r \<Longrightarrow> votedFor n' = (if currentTerm n < rvTerm args then [] else votedFor n)"
    "nstate n' = (if currentTerm n < rvTerm args then Follower else nstate n)"
    "nlog n' = nlog n" "commitIndex n' = commitIndex n" "nid n' = nid n" "peers n' = peers n"
    "lastApplied n' = lastApplied n" "nextIndex n' = nextIndex n" "matchIndex n' = matchIndex n"
    "applyCh n' = applyCh n" "stepDownCh n' = stepDownCh n"
  using assms by (auto simp: HandleRequestVote_def Let_def max_def split: if_splits)

subsection \<open>Appending\<close>

lemma noteLeader_simps [simp]:
  "currentTerm (noteLeader args n) = max (currentTerm n) (aeTerm args)"
  "votedFor (noteLeader args n) = (if currentTerm n < aeTerm args then [] else votedFor n)"
  "nstate (noteLeader args n) = (if currentTerm n < aeTerm args \<or> nstate n = Candidate then Follower else nstate n)"
  "nlog (noteLeader args n) = nlog n" "nid (noteLeader args n) = nid n" "peers (noteLeader args n) = peers n"
  "commitIndex (noteLeader args n) = commitIndex n" "lastApplied (noteLeader args n) = lastApplied n"
  "nextIndex (noteLeader args n) = nextIndex n" "matchIndex (noteLeader args n) = matchIndex n"
  "applyCh (noteLeader args n) = applyCh n" "stepDownCh (noteLeader args n) = stepDownCh n"
  by (auto simp: noteLeader_def Let_def max_def)

lemma HandleAppendEntries_facts:
  assumes "HandleAppendEntries args n = (r, n', go)"
  shows "aeTerm args < currentTerm n \<Longrightarrow> n' = n \<and> \<not> go \<and> \<not> arSuccess r"
    "currentTerm n' = max (currentTerm n) (aeTerm args)" "arTerm r = currentTerm n'"
    "arSuccess r \<longleftrightarrow> currentTerm n \<le> aeTerm args \<and> prevOK args (nlog n)"
    "votedFor n' = (if currentTerm n < aeTerm args then [] else votedFor n)"
    "nstate n' = (if currentTerm n < aeTerm args \<or> (nstate n = Candidate \<and> currentTerm n = aeTerm args)
       then Follower else nstate n)"
    "nlog n' = (if arSuccess r then fold appendOne (aeEntries args) (nlog n) else nlog n)"
    "go \<longleftrightarrow> arSuccess r \<and> commitIndex n < aeLeaderCommit args"
    "commitIndex n' = (if go then min (aeLeaderCommit args) (lastIndex (nlog n')) else commitIndex n)"
    "nid n' = nid n" "peers n' = peers n" "lastApplied n' = lastApplied n" "nextIndex n' = nextIndex n"
    "matchIndex n' = matchIndex n" "applyCh n' = applyCh n" "stepDownCh n' = stepDownCh n"
  using assms by (auto simp: HandleAppendEntries_def Let_def max_def split: if_splits)

text \<open>A request whose entries follow its previous index.\<close>

definition args_wf :: "AppendEntriesArgs \<Rightarrow> bool" where
  "args_wf args \<longleftrightarrow> consecutive (Suc (unat (aePrevLogIndex args))) (aeEntries args)"

lemma prevOK_length:
  assumes "log_wf l" "prevOK args l"
  shows "Suc (unat (aePrevLogIndex args)) \<le> length l"
  using assms log_wf_nonempty [OF assms(1)]
  by (auto simp: prevOK_def entryAt_nth Suc_le_eq split: option.splits if_splits)

lemma HandleAppendEntries_log:
  assumes "HandleAppendEntries args n = (r, n', go)" "log_wf (nlog n)" "args_wf args"
  shows "nlog n' = (if arSuccess r then merge_at (Suc (unat (aePrevLogIndex args))) (aeEntries args) (nlog n) else nlog n)"
    "log_wf (nlog n')"
proof -
  have *: "fold appendOne (aeEntries args) (nlog n) = merge_at (Suc (unat (aePrevLogIndex args))) (aeEntries args) (nlog n) \<and>
      log_wf (merge_at (Suc (unat (aePrevLogIndex args))) (aeEntries args) (nlog n))" if "arSuccess r"
    using that assms HandleAppendEntries_facts(4) [OF assms(1)] prevOK_length [OF assms(2)]
    by (auto simp: args_wf_def intro: fold_appendOne_merge merge_at_wf)
  then show "nlog n' = (if arSuccess r then merge_at (Suc (unat (aePrevLogIndex args))) (aeEntries args) (nlog n) else nlog n)"
    "log_wf (nlog n')"
    using HandleAppendEntries_facts(7) [OF assms(1)] assms(2) by auto
qed

text \<open>
  C19. The append handler on a well-formed log and a well-formed request. It succeeds exactly
  when the request is not from an older term and the log has an entry of the stated term at
  the previous index. Then the log is well formed again, agrees with the request on the term
  of every entry, keeps everything up to the previous index, and either is unchanged or was cut
  at the first entry whose term differs and continued with the entries of the request. When it
  does not succeed the log is unchanged.
\<close>

theorem append_entries_spec:
  assumes "log_wf (nlog n)" and "args_wf args" and "HandleAppendEntries args n = (r, n', go)"
  shows "log_wf (nlog n') \<and> (arSuccess r \<longleftrightarrow> currentTerm n \<le> aeTerm args \<and> prevOK args (nlog n)) \<and>
    (if arSuccess r then
       (let p = Suc (unat (aePrevLogIndex args)); es = aeEntries args
        in take p (nlog n') = take p (nlog n) \<and> p + length es \<le> length (nlog n') \<and>
           (\<forall>i < length es. Term (nlog n' ! (p + i)) = Term (es ! i)) \<and>
           (nlog n' = nlog n \<or>
            (\<exists>k < length es. nlog n' = take (p + k) (nlog n) @ drop k es \<and>
               (p + k < length (nlog n) \<longrightarrow> Term (nlog n ! (p + k)) \<noteq> Term (es ! k)))))
     else nlog n' = nlog n)"
proof (cases "arSuccess r")
  case True
  let ?p = "Suc (unat (aePrevLogIndex args))"
  have p: "?p \<le> length (nlog n)"
    using True HandleAppendEntries_facts(4) [OF assms(3)] prevOK_length [OF assms(1)] by blast
  note log = HandleAppendEntries_log [OF assms(3,1,2)]
  show ?thesis
    using True log HandleAppendEntries_facts(4) [OF assms(3)] merge_at_prefix [OF p, of "aeEntries args"]
      merge_at_length [OF p, of "aeEntries args"] merge_at_terms [OF p] merge_at_shape [OF p, of "aeEntries args"]
    by (simp add: Let_def) blast
next
  case False
  with HandleAppendEntries_log [OF assms(3,1,2)] HandleAppendEntries_facts(4) [OF assms(3)] show ?thesis
    by auto
qed

theorem append_entries_spec_witness:
  "\<exists>n' go. HandleAppendEntries \<lparr>aeTerm = 1, aeLeaderID = ''B'', aePrevLogIndex = 0, aePrevLogTerm = 0,
       aeEntries = [\<lparr>Term = 1, Index = 1, Command = ''x''\<rparr>], aeLeaderCommit = 0\<rparr> (NewNode ''A'' [''B''] True)
     = (\<lparr>arTerm = 1, arSuccess = True\<rparr>, n', go) \<and> log_wf (nlog n') \<and> Term (nlog n' ! 1) = 1"
proof -
  let ?args = "\<lparr>aeTerm = 1, aeLeaderID = ''B'', aePrevLogIndex = 0, aePrevLogTerm = 0,
       aeEntries = [\<lparr>Term = 1, Index = 1, Command = ''x''\<rparr>], aeLeaderCommit = 0\<rparr>"
  let ?n = "NewNode ''A'' [''B''] True"
  obtain r n' go where h: "HandleAppendEntries ?args ?n = (r, n', go)"
    by (metis prod.collapse)
  have "log_wf (nlog ?n)" "args_wf ?args"
    by (simp_all add: NewNode_def args_wf_def consecutive_def)
  note spec = append_entries_spec [OF this h]
  have "prevOK ?args (nlog ?n)" "currentTerm ?n \<le> 1"
    by (simp_all add: prevOK_def NewNode_def)
  with spec h HandleAppendEntries_facts(2,3) [OF h] show ?thesis
    by (cases r) (auto simp: Let_def NewNode_def)
qed

subsection \<open>Committing and applying\<close>

text \<open>
  C20. \<^verbatim>\<open>advanceCommitIndex\<close> returns on every node whose log does not fill the index space. It
  changes nothing but the commit index, and a new commit index is larger than the old one,
  lies in the log, is reached by a majority (the node itself and the match indices of its
  peers) and belongs to the current term.
\<close>

theorem advance_commit_sound:
  assumes "log_wf (nlog n)" and "length (nlog n) < 2 ^ 64" and "unat (commitIndex n) < length (nlog n)"
  shows "\<exists>c. advanceCommitIndex n = Some (n\<lparr>commitIndex := c\<rparr>) \<and>
    (c = commitIndex n \<or>
     (commitIndex n < c \<and> unat c < length (nlog n) \<and> majority n \<le> replicas n c \<and>
      Term (nlog n ! unat c) = currentTerm n))"
proof -
  have last: "unat (lastIndex (nlog n)) = length (nlog n) - 1"
    by (rule lastIndex_unat [OF assms(1)])
  have "lastIndex (nlog n) \<noteq> - 1"
  proof
    assume "lastIndex (nlog n) = - 1"
    then have "unat (lastIndex (nlog n)) = 2 ^ 64 - 1"
      by (simp add: unsigned_minus_1_eq_mask mask_eq_exp_minus_1)
    with last assms(2) log_wf_nonempty [OF assms(1)] show False
      by (cases "nlog n") simp_all
  qed
  from advanceLoop_returns [OF this, of "commitIndex n + 1" n] obtain c where
    c: "advanceCommitIndex n = Some (n\<lparr>commitIndex := c\<rparr>)"
      "c = commitIndex n \<or> (commitIndex n + 1 \<le> c \<and> c \<le> lastIndex (nlog n) \<and> majority n \<le> replicas n c \<and>
         (\<exists>e. entryAt (nlog n) c = Some e \<and> Term e = currentTerm n))"
    by (auto simp: advanceCommitIndex_def lastIndexAndTerm_eq)
  have "commitIndex n < c" if "commitIndex n + 1 \<le> c"
  proof -
    have "unat (commitIndex n + 1) = Suc (unat (commitIndex n))"
      using assms(2,3) by (simp add: unat_word_ariths)
    with that show ?thesis
      by (simp add: word_le_nat_alt word_less_nat_alt)
  qed
  with c(2) have "c = commitIndex n \<or> (commitIndex n < c \<and> unat c < length (nlog n) \<and>
      majority n \<le> replicas n c \<and> Term (nlog n ! unat c) = currentTerm n)"
    by (auto simp: entryAt_nth [OF assms(1)] split: if_splits)
  with c(1) show ?thesis by blast
qed

theorem advance_commit_sound_witness:
  "advanceCommitIndex ((NewNode ''A'' [''B'', ''C''] True)\<lparr>currentTerm := 1, nstate := Leader,
       nlog := [\<lparr>Term = 0, Index = 0, Command = []\<rparr>, \<lparr>Term = 1, Index = 1, Command = ''x''\<rparr>],
       matchIndex := (\<lambda>_. 0)(''B'' := 1)\<rparr>) \<noteq> None"
  using advance_commit_sound [of "(NewNode ''A'' [''B'', ''C''] True)\<lparr>currentTerm := 1, nstate := Leader,
       nlog := [\<lparr>Term = 0, Index = 0, Command = []\<rparr>, \<lparr>Term = 1, Index = 1, Command = ''x''\<rparr>],
       matchIndex := (\<lambda>_. 0)(''B'' := 1)\<rparr>"]
  by (auto simp: NewNode_def log_wf_def less_Suc_eq)

text \<open>
  C21. \<^verbatim>\<open>applyCommitted\<close> takes, in log order and each once, exactly the commands after the last
  applied index up to the commit index, and moves the last applied index there; calling it
  again takes nothing.
\<close>

theorem apply_committed_segment:
  assumes "log_wf (nlog n)" and "applyCommitted n = (cmds, n')"
  shows "cmds = map Command (drop (Suc (unat (lastApplied n))) (take (Suc (unat (commitIndex n))) (nlog n))) \<and>
    lastApplied n' = max (lastApplied n) (commitIndex n) \<and> nlog n' = nlog n \<and> fst (applyCommitted n') = []"
proof -
  have "\<not> max (lastApplied n) (commitIndex n) < commitIndex n"
    by (simp add: not_less)
  then have "applyLoop (nlog n) (max (lastApplied n) (commitIndex n)) (commitIndex n) = []"
    by (subst applyLoop.simps) simp
  with assms show ?thesis
    by (auto simp: applyCommitted_def applyLoop_segment)
qed

theorem apply_committed_segment_witness:
  "fst (applyCommitted ((NewNode ''A'' [''B''] True)\<lparr>commitIndex := 1,
       nlog := [\<lparr>Term = 0, Index = 0, Command = []\<rparr>, \<lparr>Term = 1, Index = 1, Command = ''x''\<rparr>]\<rparr>)) = [''x'']"
  using apply_committed_segment [of "(NewNode ''A'' [''B''] True)\<lparr>commitIndex := 1,
       nlog := [\<lparr>Term = 0, Index = 0, Command = []\<rparr>, \<lparr>Term = 1, Index = 1, Command = ''x''\<rparr>]\<rparr>"]
  by (simp add: NewNode_def log_wf_def less_Suc_eq split_paired_all prod_eq_iff)

end
