(* ===== verification/Raft_Cluster.thy ===== *)
theory Raft_Cluster
  imports Raft_Handlers
begin

text \<open>
  A cluster of Raft nodes as the goroutines of \<^verbatim>\<open>raft/election.go\<close> and \<^verbatim>\<open>raft/replication.go\<close> run
  it: the main loop of every node, one goroutine per vote request, heartbeat, replicated entry
  and apply step, and requests and replies in flight that may be delivered in any order or
  lost. A scheduler picks one action at a time; each action is one locked section, one channel
  operation or one delivery. \<^const>\<open>None\<close> means that the action is not enabled.
\<close>

subsection \<open>State\<close>

text \<open>Where the main loop of a node is: at the \<^verbatim>\<open>switch\<close> of \<^verbatim>\<open>run\<close>, or inside one of the loops.\<close>

datatype loop_pc =
    AtTop
  | InFollower
  | AtElection
  | InCandidate uint64 nat "string list"
  | InLeader

text \<open>
  The goroutines: a heartbeat before and after its send, \<^verbatim>\<open>replicateToPeer\<close> before its locked
  section, waiting for the reply and finished, a caller of \<^verbatim>\<open>Replicate\<close> collecting
  acknowledgements, and \<^verbatim>\<open>applyCommitted\<close> before its locked section and while it sends.
\<close>

datatype task =
    HbStart string string
  | HbWait string string AppendEntriesArgs
  | RepStart string string LogEntry uint64 uint64
  | RepWait string string LogEntry uint64 uint64 AppendEntriesArgs
  | RepDone string string LogEntry bool
  | Client string LogEntry nat "string list"
  | ApplyStart string
  | ApplySend string "string list"

datatype msg =
    VoteReq string RequestVoteArgs
  | VoteRep string RequestVoteArgs RequestVoteReply
  | AppReq string AppendEntriesArgs
  | AppRep string AppendEntriesArgs AppendEntriesReply

text \<open>
  The last two fields are history that no code reads: the votes given (term, voter,
  candidate) and the elections won (term, node).
\<close>

record cluster =
  node :: "string \<Rightarrow> Node"
  pc :: "string \<Rightarrow> loop_pc"
  tasks :: "task list"
  msgs :: "msg list"
  granted :: "(uint64 \<times> string \<times> string) list"
  elected :: "(uint64 \<times> string) list"

definition init_cluster :: "string list \<Rightarrow> cluster" where
  "init_cluster members =
     \<lparr>node = (\<lambda>m. NewNode m (remove1 m members) True), pc = (\<lambda>_. AtTop), tasks = [], msgs = [],
      granted = [], elected = []\<rparr>"

subsection \<open>Actions of the main loop\<close>

definition set_node :: "string \<Rightarrow> Node \<Rightarrow> cluster \<Rightarrow> cluster" where
  "set_node i n c = c\<lparr>node := (node c)(i := n)\<rparr>"

definition set_pc :: "string \<Rightarrow> loop_pc \<Rightarrow> cluster \<Rightarrow> cluster" where
  "set_pc i l c = c\<lparr>pc := (pc c)(i := l)\<rparr>"

definition sendHeartbeats :: "string \<Rightarrow> cluster \<Rightarrow> cluster" where
  "sendHeartbeats i c = c\<lparr>tasks := tasks c @ map (HbStart i) (peers (node c i))\<rparr>"

text \<open>One turn of \<^verbatim>\<open>run\<close>: enter the loop of the current state (a leader first beats).\<close>

definition act_top :: "string \<Rightarrow> cluster \<Rightarrow> cluster option" where
  "act_top i c =
     (if pc c i = AtTop then
        (case nstate (node c i) of
           Follower \<Rightarrow> Some (set_pc i InFollower c)
         | Candidate \<Rightarrow> Some (set_pc i AtElection c)
         | Leader \<Rightarrow> Some (sendHeartbeats i (set_pc i InLeader c)))
      else None)"

definition act_timeout :: "string \<Rightarrow> cluster \<Rightarrow> cluster option" where
  "act_timeout i c =
     (if pc c i = InFollower then Some (set_pc i AtTop (set_node i ((node c i)\<lparr>nstate := Candidate\<rparr>) c)) else None)"

definition act_reset :: "string \<Rightarrow> cluster \<Rightarrow> cluster option" where
  "act_reset i c =
     (if pc c i = InFollower \<and> 0 < resetTimerCh (node c i)
      then Some (set_node i ((node c i)\<lparr>resetTimerCh := resetTimerCh (node c i) - 1\<rparr>) c) else None)"

text \<open>A leader's loop is blocked until the goroutines of its last heartbeat are done.\<close>

fun beat_of :: "string \<Rightarrow> task \<Rightarrow> bool" where
  "beat_of i (HbStart j p) = (i = j)"
| "beat_of i (HbWait j p args) = (i = j)"
| "beat_of i _ = False"

definition selecting :: "string \<Rightarrow> cluster \<Rightarrow> bool" where
  "selecting i c =
     (case pc c i of
        InFollower \<Rightarrow> True
      | InCandidate _ _ _ \<Rightarrow> True
      | InLeader \<Rightarrow> \<not> list_ex (beat_of i) (tasks c)
      | _ \<Rightarrow> False)"

definition act_stepdown :: "string \<Rightarrow> cluster \<Rightarrow> cluster option" where
  "act_stepdown i c =
     (if selecting i c then
        (case stepDownCh (node c i) of
           [] \<Rightarrow> None
         | t # ts \<Rightarrow> Some (set_pc i AtTop (set_node i (becomeFollower t ((node c i)\<lparr>stepDownCh := ts\<rparr>)) c)))
      else None)"

text \<open>The start of \<^verbatim>\<open>loopCandidate\<close>. The term counter is assumed not to wrap around.\<close>

definition act_election :: "string \<Rightarrow> cluster \<Rightarrow> cluster option" where
  "act_election i c =
     (if pc c i = AtElection \<and> currentTerm (node c i) \<noteq> - 1 then
        (let (args, n) = startElection (node c i)
         in Some ((set_pc i (InCandidate (currentTerm n) 1 (peers n)) (set_node i n c))
              \<lparr>msgs := msgs c @ map (\<lambda>p. VoteReq p args) (peers n),
               granted := (currentTerm n, i, i) # granted c\<rparr>))
      else None)"

text \<open>A result of the vote goroutine for \<open>p\<close>: an error, or the reply.\<close>

definition act_vote_error :: "string \<Rightarrow> string \<Rightarrow> cluster \<Rightarrow> cluster option" where
  "act_vote_error i p c =
     (case pc c i of
        InCandidate t votes waiting \<Rightarrow>
          if p \<in> set waiting then Some (set_pc i (InCandidate t votes (remove1 p waiting)) c) else None
      | _ \<Rightarrow> None)"

definition act_vote :: "string \<Rightarrow> string \<Rightarrow> RequestVoteArgs \<Rightarrow> RequestVoteReply \<Rightarrow> cluster \<Rightarrow> cluster option" where
  "act_vote i p args reply c =
     (case pc c i of
        InCandidate t votes waiting \<Rightarrow>
          if p \<in> set waiting \<and> VoteRep p args reply \<in> set (msgs c) \<and> rvCandidateID args = i \<and> rvTerm args = t then
            (let c = c\<lparr>msgs := remove1 (VoteRep p args reply) (msgs c)\<rparr>
             in if t < rrTerm reply
                then Some (set_pc i AtTop (set_node i (becomeFollower (rrTerm reply) (node c i)) c))
                else if rrVoteGranted reply then
                  (if majority (node c i) \<le> votes + 1 then
                     Some ((set_pc i AtTop (set_node i (becomeLeader t (node c i)) c))
                       \<lparr>elected := (if currentTerm (node c i) = t \<and> nstate (node c i) = Candidate
                                   then (t, i) # elected c else elected c)\<rparr>)
                   else Some (set_pc i (InCandidate t (votes + 1) (remove1 p waiting)) c))
                else Some (set_pc i (InCandidate t votes (remove1 p waiting)) c))
          else None
      | _ \<Rightarrow> None)"

text \<open>The election timer, or the end of the loop over the peers.\<close>

definition act_election_over :: "string \<Rightarrow> cluster \<Rightarrow> cluster option" where
  "act_election_over i c = (case pc c i of InCandidate _ _ _ \<Rightarrow> Some (set_pc i AtTop c) | _ \<Rightarrow> None)"

definition act_tick :: "string \<Rightarrow> cluster \<Rightarrow> cluster option" where
  "act_tick i c =
     (if pc c i = InLeader \<and> selecting i c
      then Some (if nstate (node c i) \<noteq> Leader then set_pc i AtTop c else sendHeartbeats i c) else None)"

subsection \<open>Deliveries\<close>

definition act_deliver :: "msg \<Rightarrow> cluster \<Rightarrow> cluster option" where
  "act_deliver m c =
     (if m \<in> set (msgs c) then
        (case m of
           VoteReq p args \<Rightarrow>
             (let (r, n) = HandleRequestVote args (node c p)
              in Some ((set_node p n c)
                   \<lparr>msgs := remove1 m (msgs c) @ [VoteRep p args r],
                    granted := (if rrVoteGranted r then (rvTerm args, p, rvCandidateID args) # granted c else granted c)\<rparr>))
         | AppReq p args \<Rightarrow>
             (let (r, n, go) = HandleAppendEntries args (node c p)
              in Some ((set_node p n c)
                   \<lparr>msgs := remove1 m (msgs c) @ [AppRep p args r],
                    tasks := tasks c @ (if go then [ApplyStart p] else [])\<rparr>))
         | _ \<Rightarrow> None)
      else None)"

definition act_drop :: "msg \<Rightarrow> cluster \<Rightarrow> cluster option" where
  "act_drop m c = (if m \<in> set (msgs c) then Some (c\<lparr>msgs := remove1 m (msgs c)\<rparr>) else None)"

subsection \<open>Heartbeats\<close>

definition act_hb_send :: "string \<Rightarrow> string \<Rightarrow> cluster \<Rightarrow> cluster option" where
  "act_hb_send i p c =
     (if HbStart i p \<in> set (tasks c) then
        (let args = heartbeatArgs p (node c i)
         in Some (c\<lparr>tasks := remove1 (HbStart i p) (tasks c) @ [HbWait i p args], msgs := msgs c @ [AppReq p args]\<rparr>))
      else None)"

definition act_hb_error :: "string \<Rightarrow> string \<Rightarrow> AppendEntriesArgs \<Rightarrow> cluster \<Rightarrow> cluster option" where
  "act_hb_error i p args c =
     (if HbWait i p args \<in> set (tasks c) then Some (c\<lparr>tasks := remove1 (HbWait i p args) (tasks c)\<rparr>) else None)"

definition act_hb_reply ::
    "string \<Rightarrow> string \<Rightarrow> AppendEntriesArgs \<Rightarrow> AppendEntriesReply \<Rightarrow> cluster \<Rightarrow> cluster option" where
  "act_hb_reply i p args reply c =
     (if HbWait i p args \<in> set (tasks c) \<and> AppRep p args reply \<in> set (msgs c) then
        (case heartbeatReply p args reply (node c i) of
           None \<Rightarrow> None
         | Some (n, go) \<Rightarrow>
             Some ((set_node i n c)
               \<lparr>tasks := remove1 (HbWait i p args) (tasks c) @ (if go then [ApplyStart i] else []),
                msgs := remove1 (AppRep p args reply) (msgs c)\<rparr>))
      else None)"

subsection \<open>Client commands\<close>

text \<open>
  A call of \<^verbatim>\<open>Replicate\<close> on a leader; on any other node it returns an error and changes nothing.
  The log is assumed not to fill the index space.
\<close>

definition act_replicate :: "string \<Rightarrow> string \<Rightarrow> cluster \<Rightarrow> cluster option" where
  "act_replicate i command c =
     (if length (nlog (node c i)) < 2 ^ 64 - 1 then
        (case replicateStart command (node c i) of
           None \<Rightarrow> None
         | Some (entry, n) \<Rightarrow>
             Some ((set_node i n c)
               \<lparr>tasks := tasks c @ Client i entry 1 (peers n) #
                  map (\<lambda>p. RepStart i p entry (currentTerm n) (commitIndex n)) (peers n)\<rparr>))
      else None)"

definition act_rep_send :: "string \<Rightarrow> string \<Rightarrow> LogEntry \<Rightarrow> uint64 \<Rightarrow> uint64 \<Rightarrow> cluster \<Rightarrow> cluster option" where
  "act_rep_send i p entry t lc c =
     (if RepStart i p entry t lc \<in> set (tasks c) then
        (case replicateArgs p entry t lc (node c i) of
           None \<Rightarrow> None
         | Some None \<Rightarrow>
             Some (c\<lparr>tasks := remove1 (RepStart i p entry t lc) (tasks c) @ [RepDone i p entry False]\<rparr>)
         | Some (Some args) \<Rightarrow>
             Some (c\<lparr>tasks := remove1 (RepStart i p entry t lc) (tasks c) @ [RepWait i p entry t lc args],
                    msgs := msgs c @ [AppReq p args]\<rparr>))
      else None)"

definition act_rep_error ::
    "string \<Rightarrow> string \<Rightarrow> LogEntry \<Rightarrow> uint64 \<Rightarrow> uint64 \<Rightarrow> AppendEntriesArgs \<Rightarrow> cluster \<Rightarrow> cluster option" where
  "act_rep_error i p entry t lc args c =
     (if RepWait i p entry t lc args \<in> set (tasks c)
      then Some (c\<lparr>tasks := remove1 (RepWait i p entry t lc args) (tasks c) @ [RepDone i p entry False]\<rparr>)
      else None)"

definition act_rep_reply ::
    "string \<Rightarrow> string \<Rightarrow> LogEntry \<Rightarrow> uint64 \<Rightarrow> uint64 \<Rightarrow> AppendEntriesArgs \<Rightarrow> AppendEntriesReply \<Rightarrow> cluster \<Rightarrow>
       cluster option" where
  "act_rep_reply i p entry t lc args reply c =
     (if RepWait i p entry t lc args \<in> set (tasks c) \<and> AppRep p args reply \<in> set (msgs c) then
        (let (next, n) = replicateReply p entry t reply (node c i)
         in Some ((set_node i n c)
              \<lparr>tasks := remove1 (RepWait i p entry t lc args) (tasks c) @
                 [case next of Acked b \<Rightarrow> RepDone i p entry b | Retry \<Rightarrow> RepStart i p entry t lc],
               msgs := remove1 (AppRep p args reply) (msgs c)\<rparr>))
      else None)"

text \<open>The caller takes one result from the channel; with a majority it commits and applies.\<close>

definition act_ack ::
    "string \<Rightarrow> LogEntry \<Rightarrow> nat \<Rightarrow> string list \<Rightarrow> string \<Rightarrow> bool \<Rightarrow> cluster \<Rightarrow> cluster option" where
  "act_ack i entry acks waiting p ok c =
     (if Client i entry acks waiting \<in> set (tasks c) \<and> RepDone i p entry ok \<in> set (tasks c) \<and> p \<in> set waiting then
        (let ts = remove1 (Client i entry acks waiting) (remove1 (RepDone i p entry ok) (tasks c))
         in if ok \<and> majority (node c i) \<le> acks + 1
            then Some ((set_node i (replicateCommit entry (node c i)) c)\<lparr>tasks := ts @ [ApplyStart i]\<rparr>)
            else Some (c\<lparr>tasks := ts @ [Client i entry (if ok then acks + 1 else acks) (remove1 p waiting)]\<rparr>))
      else None)"

definition act_client_timeout :: "string \<Rightarrow> LogEntry \<Rightarrow> nat \<Rightarrow> string list \<Rightarrow> cluster \<Rightarrow> cluster option" where
  "act_client_timeout i entry acks waiting c =
     (if Client i entry acks waiting \<in> set (tasks c)
      then Some (c\<lparr>tasks := remove1 (Client i entry acks waiting) (tasks c)\<rparr>) else None)"

subsection \<open>Applying\<close>

definition act_apply :: "string \<Rightarrow> cluster \<Rightarrow> cluster option" where
  "act_apply i c =
     (if ApplyStart i \<in> set (tasks c) then
        (let (cmds, n) = applyCommitted (node c i)
         in Some ((set_node i n c)\<lparr>tasks := remove1 (ApplyStart i) (tasks c) @ [ApplySend i cmds]\<rparr>))
      else None)"

definition act_apply_send :: "string \<Rightarrow> string list \<Rightarrow> cluster \<Rightarrow> cluster option" where
  "act_apply_send i cmds c =
     (if ApplySend i cmds \<in> set (tasks c) then
        (case applyCh (node c i) of
           None \<Rightarrow> Some (c\<lparr>tasks := remove1 (ApplySend i cmds) (tasks c)\<rparr>)
         | Some sent \<Rightarrow>
             (case cmds of
                [] \<Rightarrow> Some (c\<lparr>tasks := remove1 (ApplySend i cmds) (tasks c)\<rparr>)
              | cmd # rest \<Rightarrow>
                  Some ((set_node i ((node c i)\<lparr>applyCh := Some (sent @ [cmd])\<rparr>) c)
                    \<lparr>tasks := remove1 (ApplySend i cmds) (tasks c) @ [ApplySend i rest]\<rparr>)))
      else None)"

subsection \<open>Runs\<close>

datatype action =
    Top string
  | Timeout string
  | TakeReset string
  | StepDown string
  | StartElection string
  | VoteError string string
  | TakeVote string string RequestVoteArgs RequestVoteReply
  | ElectionOver string
  | Tick string
  | Deliver msg
  | Drop msg
  | HbSend string string
  | HbError string string AppendEntriesArgs
  | HbReply string string AppendEntriesArgs AppendEntriesReply
  | Replicate string string
  | RepSend string string LogEntry uint64 uint64
  | RepError string string LogEntry uint64 uint64 AppendEntriesArgs
  | RepReply string string LogEntry uint64 uint64 AppendEntriesArgs AppendEntriesReply
  | TakeAck string LogEntry nat "string list" string bool
  | ClientTimeout string LogEntry nat "string list"
  | ApplyNext string
  | SendCommand string "string list"

fun exec :: "action \<Rightarrow> cluster \<Rightarrow> cluster option" where
  "exec (Top i) c = act_top i c"
| "exec (Timeout i) c = act_timeout i c"
| "exec (TakeReset i) c = act_reset i c"
| "exec (StepDown i) c = act_stepdown i c"
| "exec (StartElection i) c = act_election i c"
| "exec (VoteError i p) c = act_vote_error i p c"
| "exec (TakeVote i p args reply) c = act_vote i p args reply c"
| "exec (ElectionOver i) c = act_election_over i c"
| "exec (Tick i) c = act_tick i c"
| "exec (Deliver m) c = act_deliver m c"
| "exec (Drop m) c = act_drop m c"
| "exec (HbSend i p) c = act_hb_send i p c"
| "exec (HbError i p args) c = act_hb_error i p args c"
| "exec (HbReply i p args reply) c = act_hb_reply i p args reply c"
| "exec (Replicate i cmd) c = act_replicate i cmd c"
| "exec (RepSend i p e t lc) c = act_rep_send i p e t lc c"
| "exec (RepError i p e t lc args) c = act_rep_error i p e t lc args c"
| "exec (RepReply i p e t lc args reply) c = act_rep_reply i p e t lc args reply c"
| "exec (TakeAck i e acks waiting p ok) c = act_ack i e acks waiting p ok c"
| "exec (ClientTimeout i e acks waiting) c = act_client_timeout i e acks waiting c"
| "exec (ApplyNext i) c = act_apply i c"
| "exec (SendCommand i cmds) c = act_apply_send i cmds c"

text \<open>The node an action of the scheduler concerns; deliveries go to nodes of messages in flight.\<close>

fun actor :: "action \<Rightarrow> string option" where
  "actor (Top i) = Some i"
| "actor (Timeout i) = Some i"
| "actor (TakeReset i) = Some i"
| "actor (StepDown i) = Some i"
| "actor (StartElection i) = Some i"
| "actor (VoteError i p) = Some i"
| "actor (TakeVote i p args reply) = Some i"
| "actor (ElectionOver i) = Some i"
| "actor (Tick i) = Some i"
| "actor (Replicate i cmd) = Some i"
| "actor _ = None"

inductive reachable :: "string list \<Rightarrow> cluster \<Rightarrow> bool" for members where
  init: "reachable members (init_cluster members)"
| step: "\<lbrakk>reachable members c; \<forall>i. actor a = Some i \<longrightarrow> i \<in> set members; exec a c = Some c'\<rbrakk> \<Longrightarrow> reachable members c'"

fun run_actions :: "action list \<Rightarrow> cluster \<Rightarrow> cluster option" where
  "run_actions [] c = Some c"
| "run_actions (a # as) c = (case exec a c of None \<Rightarrow> None | Some c' \<Rightarrow> run_actions as c')"

lemma run_actions_reachable:
  "\<lbrakk>reachable members c; \<forall>a \<in> set as. \<forall>i. actor a = Some i \<longrightarrow> i \<in> set members; run_actions as c = Some c'\<rbrakk> \<Longrightarrow>
     reachable members c'"
proof (induction "as" arbitrary: c)
  case Nil
  then show ?case by simp
next
  case (Cons a "as")
  then obtain c1 where "exec a c = Some c1" "run_actions as c1 = Some c'"
    by (auto split: option.splits)
  with Cons show ?case
    using reachable.step by (metis list.set_intros)
qed

end
