(* ===== verification/Raft_Runs.thy ===== *)
theory Raft_Runs
  imports Raft_Cluster
begin

text \<open>
  Concrete runs of a cluster: how to build lists of actions, the facts that execute them by
  rewriting, and that their final states are reachable. The properties of clusters use them in
  their witnesses and scenarios.
\<close>

subsection \<open>Executing actions\<close>

lemmas cluster_defs = set_node_def set_pc_def sendHeartbeats_def

lemmas quiet_acts = act_top_def act_timeout_def act_reset_def act_stepdown_def act_vote_error_def
  act_election_over_def act_tick_def act_drop_def act_hb_send_def act_hb_error_def act_hb_reply_def
  act_replicate_def act_rep_send_def act_rep_error_def act_rep_reply_def act_ack_def
  act_client_timeout_def act_apply_def act_apply_send_def

definition members3 :: "string list" where
  "members3 = [''A'', ''B'', ''C'']"

fun members_only :: "string list \<Rightarrow> action list \<Rightarrow> bool" where
  "members_only ms as = list_all (\<lambda>a. case actor a of None \<Rightarrow> True | Some i \<Rightarrow> i \<in> set ms) as"

lemma run_from_init:
  assumes "run_actions as (init_cluster ms) = Some c" "members_only ms as"
  shows "reachable ms c"
  by (rule run_actions_reachable [OF reachable.init _ assms(1)])
    (use assms(2) in \<open>auto simp: list_all_iff split: option.splits\<close>)

lemma members3_ok: "distinct members3" "[] \<notin> set members3"
  by (simp_all add: members3_def)

subsection \<open>Pieces of runs\<close>

definition vote_request :: "uint64 \<Rightarrow> string \<Rightarrow> uint64 \<Rightarrow> uint64 \<Rightarrow> RequestVoteArgs" where
  "vote_request t i lastIdx lastTerm =
     \<lparr>rvTerm = t, rvCandidateID = i, rvLastLogIndex = lastIdx, rvLastLogTerm = lastTerm\<rparr>"

definition vote_yes :: "uint64 \<Rightarrow> RequestVoteReply" where
  "vote_yes t = \<lparr>rrTerm = t, rrVoteGranted = True\<rparr>"

definition mk_entry :: "uint64 \<Rightarrow> uint64 \<Rightarrow> string \<Rightarrow> LogEntry" where
  "mk_entry t i cmd = \<lparr>Term = t, Index = i, Command = cmd\<rparr>"

definition append_request :: "uint64 \<Rightarrow> string \<Rightarrow> LogEntry list \<Rightarrow> uint64 \<Rightarrow> AppendEntriesArgs" where
  "append_request t i es commit =
     \<lparr>aeTerm = t, aeLeaderID = i, aePrevLogIndex = 0, aePrevLogTerm = 0, aeEntries = es, aeLeaderCommit = commit\<rparr>"

definition append_ok :: "uint64 \<Rightarrow> AppendEntriesReply" where
  "append_ok t = \<lparr>arTerm = t, arSuccess = True\<rparr>"

text \<open>Node \<open>i\<close> times out, asks \<open>p\<close> for its vote in term \<open>t\<close> and is elected with it.\<close>

definition elect_with :: "string \<Rightarrow> string \<Rightarrow> uint64 \<Rightarrow> uint64 \<Rightarrow> uint64 \<Rightarrow> action list" where
  "elect_with i p t lastIdx lastTerm =
     [Top i, Timeout i, Top i, StartElection i, Deliver (VoteReq p (vote_request t i lastIdx lastTerm)),
      TakeVote i p (vote_request t i lastIdx lastTerm) (vote_yes t)]"

text \<open>Leader \<open>i\<close> takes a command as its first entry and \<open>p\<close> acknowledges it.\<close>

definition commit_first :: "string \<Rightarrow> string \<Rightarrow> uint64 \<Rightarrow> string \<Rightarrow> string list \<Rightarrow> action list" where
  "commit_first i p t cmd waiting =
     (let e = mk_entry t 1 cmd; args = append_request t i [e] 0
      in [Replicate i cmd, RepSend i p e t 0, Deliver (AppReq p args), RepReply i p e t 0 args (append_ok t),
          TakeAck i e 1 waiting p True, ApplyNext i, SendCommand i [cmd]])"

lemmas act_defs = quiet_acts act_election_def act_vote_def act_deliver_def cluster_defs selecting_def

lemmas node_defs = NewNode_def becomeFollower_def signalReset_def signalStepDown_def logOK_def HandleRequestVote_def
  appendOne_def prevOK_def noteLeader_def HandleAppendEntries_def startElection_def majority_def becomeLeader_def
  replicateStart_def prevTerm_def replicateArgs_def replicateReply_def replicateCommit_def heartbeatArgs_def
  replicas_def advanceCommitIndex_def heartbeatReply_def applyCommitted_def IsLeader_def
  newLogStore_def lastIndexAndTerm_def lastIndex_def entryAt_def appendEntry_def truncateAfter_def entriesFrom_def

lemmas run_defs = elect_with_def commit_first_def vote_request_def vote_yes_def mk_entry_def append_request_def append_ok_def

lemma sort_updates:
  "f(''B'' := b, ''A'' := a) = f(''A'' := a, ''B'' := b)"
  "f(''C'' := b, ''A'' := a) = f(''A'' := a, ''C'' := b)"
  "f(''C'' := b, ''B'' := a) = f(''B'' := a, ''C'' := b)"
  by (simp_all add: fun_upd_twist)

lemma loop_steps:
  "idx \<le> lst \<Longrightarrow> collectEntries l idx lst =
     Option.bind (collectEntries l (idx + 1) lst) (\<lambda>es. Some (case entryAt l idx of None \<Rightarrow> es | Some e \<Rightarrow> e # es))"
  "\<not> idx \<le> lst \<Longrightarrow> collectEntries l idx lst = Some []"
  "applied < commit \<Longrightarrow> applyLoop l applied commit =
     (case entryAt l (applied + 1) of None \<Rightarrow> [] | Some e \<Rightarrow> [Command e]) @ applyLoop l (applied + 1) commit"
  "\<not> applied < commit \<Longrightarrow> applyLoop l applied commit = []"
  by (simp_all add: collectEntries.simps applyLoop.simps)

lemmas run_simps = run_defs members3_def init_cluster_def act_defs node_defs Let_def loop_steps sort_updates word_le_nat_alt word_less_nat_alt

lemma run_reaches:
  assumes "\<exists>c. run_actions as (init_cluster ms) = Some c \<and> P c" "members_only ms as"
  shows "\<exists>c. reachable ms c \<and> P c"
  using assms run_from_init by blast

text \<open>The first election, with and without a command.\<close>

lemma elect_A_run:
  "\<exists>c. run_actions (elect_with ''A'' ''B'' 1 0 0) (init_cluster members3) = Some c \<and> nstate (node c ''A'') = Leader"
  by (simp add: run_simps)

lemma elect_A_reaches: "\<exists>c. reachable members3 c \<and> nstate (node c ''A'') = Leader"
  by (rule run_reaches [OF elect_A_run]) (simp add: run_defs members3_def)

end
