(* ===== verification/Raft_Election_Safety.thy ===== *)
theory Raft_Election_Safety
  imports Raft_Runs
begin


text \<open>
  Election safety of the cluster: at most one node is elected in a term, under every
  interleaving, message loss and delay.
\<close>

subsection \<open>Quorums\<close>

locale quorums =
  fixes quorum :: "'a set \<Rightarrow> bool"
  assumes meet: "quorum A \<Longrightarrow> quorum B \<Longrightarrow> A \<inter> B \<noteq> {}"
begin

text \<open>When every member votes at most once, two candidates with a quorum of votes are the same.\<close>

lemma one_winner:
  assumes "quorum {v. votes v x}" "quorum {v. votes v y}" "\<And>v x y. votes v x \<Longrightarrow> votes v y \<Longrightarrow> x = y"
  shows "x = y"
proof -
  obtain v where "votes v x" "votes v y"
    using meet [OF assms(1,2)] by blast
  then show ?thesis
    by (rule assms(3))
qed

end

definition is_majority :: "string list \<Rightarrow> string set \<Rightarrow> bool" where
  "is_majority ms A \<longleftrightarrow> A \<subseteq> set ms \<and> length ms div 2 + 1 \<le> card A"

interpretation majorities: quorums "is_majority ms" for ms
proof
  fix A B
  assume "is_majority ms A" "is_majority ms B"
  then have *: "A \<subseteq> set ms" "B \<subseteq> set ms" "length ms div 2 + 1 \<le> card A" "length ms div 2 + 1 \<le> card B"
    by (simp_all add: is_majority_def)
  have "card (A \<union> B) \<le> card (set ms)"
    using * by (intro card_mono) auto
  also have "\<dots> \<le> length ms"
    by (rule card_length)
  finally have "card (A \<union> B) < card A + card B"
    using * by linarith
  then show "A \<inter> B \<noteq> {}"
    using card_Un_disjoint [OF finite_subset [OF *(1)] finite_subset [OF *(2)]] by auto
qed

subsection \<open>The invariant\<close>

text \<open>Steps of a node that give no vote and make no leader.\<close>

definition keeps :: "Node \<Rightarrow> Node \<Rightarrow> bool" where
  "keeps n n' \<longleftrightarrow> nid n' = nid n \<and> peers n' = peers n \<and> currentTerm n \<le> currentTerm n' \<and>
     (currentTerm n' = currentTerm n \<longrightarrow> votedFor n' = votedFor n) \<and>
     (nstate n' = Leader \<longrightarrow> nstate n = Leader \<and> currentTerm n' = currentTerm n)"

fun pc_ok :: "string list \<Rightarrow> (uint64 \<times> string \<times> string) set \<Rightarrow> Node \<Rightarrow> string \<Rightarrow> loop_pc \<Rightarrow> bool" where
  "pc_ok ms G n i (InCandidate t votes waiting) \<longleftrightarrow>
     nstate n \<noteq> Leader \<and> i \<in> set ms \<and> (t, i, i) \<in> G \<and> distinct waiting \<and> set waiting \<subseteq> set ms - {i} \<and>
     votes \<le> Suc (card {p \<in> set ms - {i} - set waiting. (t, p, i) \<in> G})"
| "pc_ok ms G n i InFollower \<longleftrightarrow> nstate n \<noteq> Leader"
| "pc_ok ms G n i AtElection \<longleftrightarrow> nstate n \<noteq> Leader"
| "pc_ok ms G n i _ \<longleftrightarrow> True"

definition static_inv :: "string list \<Rightarrow> cluster \<Rightarrow> bool" where
  "static_inv ms c \<longleftrightarrow> (\<forall>i. nid (node c i) = i \<and> peers (node c i) = remove1 i ms)"

definition granted_inv :: "string list \<Rightarrow> cluster \<Rightarrow> bool" where
  "granted_inv ms c \<longleftrightarrow> (\<forall>t v x. (t, v, x) \<in> set (granted c) \<longrightarrow>
     v \<in> set ms \<and> x \<in> set ms \<and> t \<le> currentTerm (node c v) \<and>
     (t = currentTerm (node c v) \<longrightarrow> votedFor (node c v) = x) \<and>
     (\<forall>y. (t, v, y) \<in> set (granted c) \<longrightarrow> y = x))"

definition ballot_inv :: "string list \<Rightarrow> cluster \<Rightarrow> bool" where
  "ballot_inv ms c \<longleftrightarrow>
     (\<forall>p args. VoteReq p args \<in> set (msgs c) \<longrightarrow> p \<in> set ms \<and> rvCandidateID args \<in> set ms) \<and>
     (\<forall>p args r. VoteRep p args r \<in> set (msgs c) \<longrightarrow> rrVoteGranted r \<longrightarrow>
        (rvTerm args, p, rvCandidateID args) \<in> set (granted c))"

definition pc_inv :: "string list \<Rightarrow> cluster \<Rightarrow> bool" where
  "pc_inv ms c \<longleftrightarrow> (\<forall>i. pc_ok ms (set (granted c)) (node c i) i (pc c i))"

definition elected_inv :: "string list \<Rightarrow> cluster \<Rightarrow> bool" where
  "elected_inv ms c \<longleftrightarrow>
     (\<forall>t i. (t, i) \<in> set (elected c) \<longrightarrow> is_majority ms {v. (t, v, i) \<in> set (granted c)}) \<and>
     (\<forall>i. nstate (node c i) = Leader \<longrightarrow> (currentTerm (node c i), i) \<in> set (elected c))"

definition voting_inv :: "string list \<Rightarrow> cluster \<Rightarrow> bool" where
  "voting_inv ms c \<longleftrightarrow>
     static_inv ms c \<and> granted_inv ms c \<and> ballot_inv ms c \<and> pc_inv ms c \<and> elected_inv ms c"

lemmas voting_defs = voting_inv_def static_inv_def granted_inv_def ballot_inv_def pc_inv_def elected_inv_def

lemma voting_inv_init: "voting_inv ms (init_cluster ms)"
  by (simp add: voting_defs init_cluster_def NewNode_def)

subsection \<open>Steps that give no vote\<close>

lemma keeps_refl [simp]: "keeps n n"
  by (simp add: keeps_def)

lemma keeps_trans: "keeps a b \<Longrightarrow> keeps b c \<Longrightarrow> keeps a c"
  unfolding keeps_def by (metis order.antisym order.trans)

lemma keeps_becomeFollower [simp]: "keeps n (becomeFollower t m) \<longleftrightarrow>
    nid m = nid n \<and> peers m = peers n \<and> currentTerm n \<le> max (currentTerm m) t \<and>
    (max (currentTerm m) t = currentTerm n \<longrightarrow> (if currentTerm m < t then [] else votedFor m) = votedFor n)"
  by (simp add: keeps_def)

lemma keeps_handle_append:
  "HandleAppendEntries args n = (r, n', go) \<Longrightarrow> keeps n n'"
  using HandleAppendEntries_facts [of args n r n' go]
  by (auto simp: keeps_def max_def split: if_splits)

lemma keeps_denied_vote:
  "HandleRequestVote args n = (r, n') \<Longrightarrow> \<not> rrVoteGranted r \<Longrightarrow> keeps n n'"
  using HandleRequestVote_facts [of args n r n']
  by (auto simp: keeps_def max_def split: if_splits)

lemma keeps_replicate_start: "replicateStart cmd n = Some (e, n') \<Longrightarrow> keeps n n'"
  by (auto simp: replicateStart_def Let_def keeps_def split: if_splits)

lemma keeps_replicate_reply: "replicateReply p e t r n = (x, n') \<Longrightarrow> keeps n n'"
  by (auto simp: replicateReply_def keeps_def split: if_splits)

lemma keeps_replicate_commit [simp]: "keeps n (replicateCommit e n)"
  by (simp add: replicateCommit_def keeps_def)

lemma keeps_apply: "applyCommitted n = (cmds, n') \<Longrightarrow> keeps n n'"
  by (auto simp: applyCommitted_def keeps_def)

lemma advanceLoop_commit_only:
  assumes "advanceLoop idx lst n = Some n'"
  shows "\<exists>x. n' = n\<lparr>commitIndex := x\<rparr>"
proof (rule advanceLoop.raw_induct [where P = "\<lambda>_ _ n n'. \<exists>x. n' = n\<lparr>commitIndex := x\<rparr>", OF _ assms])
  fix f idx lst n n'
  let ?m = "case entryAt (nlog n) idx of None \<Rightarrow> n
    | Some entry \<Rightarrow> if Term entry \<noteq> currentTerm n then n
        else if majority n \<le> replicas n idx then n\<lparr>commitIndex := idx\<rparr> else n"
  assume IH: "\<And>idx lst n n'. f idx lst n = Some n' \<Longrightarrow> \<exists>x. n' = n\<lparr>commitIndex := x\<rparr>"
    and step: "(if idx \<le> lst then f (idx + 1) lst ?m else Some n) = Some n'"
  have "\<exists>y. ?m = n\<lparr>commitIndex := y\<rparr>"
    by (auto split: option.split intro: exI [of _ "commitIndex n"])
  with IH [of "idx + 1" lst ?m n'] step show "\<exists>x. n' = n\<lparr>commitIndex := x\<rparr>"
    by (cases "idx \<le> lst") (auto intro: exI [of _ "commitIndex n"])
qed

lemma keeps_heartbeat_reply: "heartbeatReply p args r n = Some (n', go) \<Longrightarrow> keeps n n'"
  by (auto simp: heartbeatReply_def Let_def keeps_def advanceCommitIndex_def dest!: advanceLoop_commit_only split: if_splits)

lemma pc_ok_mono:
  assumes "pc_ok ms G n i l" "G \<subseteq> G'" "nstate n' = Leader \<longrightarrow> nstate n = Leader"
  shows "pc_ok ms G' n' i l"
proof (cases l)
  case (InCandidate t votes waiting)
  have "card {p \<in> set ms - {i} - set waiting. (t, p, i) \<in> G} \<le> card {p \<in> set ms - {i} - set waiting. (t, p, i) \<in> G'}"
    using assms(2) by (intro card_mono) auto
  with assms InCandidate show ?thesis
    by (auto intro: le_trans)
qed (use assms in auto)

lemma voting_frame:
  assumes inv: "voting_inv ms c"
    and same: "granted c' = granted c" "elected c' = elected c"
    and keeps: "\<And>i. keeps (node c i) (node c' i)"
    and ballots: "\<And>p args. VoteReq p args \<in> set (msgs c') \<Longrightarrow> VoteReq p args \<in> set (msgs c)"
      "\<And>p args r. VoteRep p args r \<in> set (msgs c') \<Longrightarrow> rrVoteGranted r \<Longrightarrow> VoteRep p args r \<in> set (msgs c)"
    and pcs: "\<And>i. pc c' i = pc c i \<or> pc_ok ms (set (granted c)) (node c' i) i (pc c' i)"
  shows "voting_inv ms c'"
proof -
  have k: "nid (node c' i) = nid (node c i)" "peers (node c' i) = peers (node c i)"
    "currentTerm (node c i) \<le> currentTerm (node c' i)"
    "currentTerm (node c' i) = currentTerm (node c i) \<Longrightarrow> votedFor (node c' i) = votedFor (node c i)"
    "nstate (node c' i) = Leader \<Longrightarrow> nstate (node c i) = Leader \<and> currentTerm (node c' i) = currentTerm (node c i)" for i
    using keeps [of i] by (auto simp: keeps_def)
  have "static_inv ms c'"
    using inv k by (simp add: voting_defs)
  moreover have "granted_inv ms c'"
    unfolding granted_inv_def same
  proof (intro allI impI)
    fix t v x
    assume "(t, v, x) \<in> set (granted c)"
    with inv have "v \<in> set ms \<and> x \<in> set ms" "t \<le> currentTerm (node c v)"
      "t = currentTerm (node c v) \<longrightarrow> votedFor (node c v) = x" "\<forall>y. (t, v, y) \<in> set (granted c) \<longrightarrow> y = x"
      unfolding voting_inv_def granted_inv_def by blast+
    with k(3,4) [of v] show "v \<in> set ms \<and> x \<in> set ms \<and> t \<le> currentTerm (node c' v) \<and>
        (t = currentTerm (node c' v) \<longrightarrow> votedFor (node c' v) = x) \<and> (\<forall>y. (t, v, y) \<in> set (granted c) \<longrightarrow> y = x)"
      by auto
  qed
  moreover have "ballot_inv ms c'"
    using inv ballots unfolding voting_inv_def ballot_inv_def same by blast
  moreover have "pc_inv ms c'"
    unfolding pc_inv_def same
  proof
    fix i
    have "pc_ok ms (set (granted c)) (node c i) i (pc c i)"
      using inv by (simp add: voting_defs)
    then have "pc_ok ms (set (granted c)) (node c' i) i (pc c i)"
      by (rule pc_ok_mono) (use k(5) [of i] in auto)
    with pcs [of i] show "pc_ok ms (set (granted c)) (node c' i) i (pc c' i)"
      by auto
  qed
  moreover have "elected_inv ms c'"
    using inv k(5) unfolding voting_inv_def elected_inv_def same by auto
  ultimately show ?thesis
    by (simp add: voting_inv_def)
qed


text \<open>Forgetting a peer that has not answered keeps the count of a candidate.\<close>

lemma pc_ok_remove:
  assumes "pc_ok ms G n i (InCandidate t votes waiting)"
  shows "pc_ok ms G n i (InCandidate t votes (remove1 p waiting))"
proof -
  have "card {q \<in> set ms - {i} - set waiting. (t, q, i) \<in> G} \<le>
      card {q \<in> set ms - {i} - set (remove1 p waiting). (t, q, i) \<in> G}"
    by (rule card_mono) (use set_remove1_subset [of p waiting] in auto)
  with assms show ?thesis
    using set_remove1_subset [of p waiting] by (auto intro: le_trans)
qed

lemma pc_ok_count:
  assumes "pc_ok ms G n i (InCandidate t votes waiting)" "p \<in> set waiting" "(t, p, i) \<in> G"
  shows "pc_ok ms G n i (InCandidate t (votes + 1) (remove1 p waiting))"
proof -
  let ?A = "{q \<in> set ms - {i} - set waiting. (t, q, i) \<in> G}"
  have "{q \<in> set ms - {i} - set (remove1 p waiting). (t, q, i) \<in> G} = insert p ?A"
    using assms by (auto simp: distinct_remove1)
  then have "card {q \<in> set ms - {i} - set (remove1 p waiting). (t, q, i) \<in> G} = Suc (card ?A)"
    using assms(2) by (simp add: card_insert_if)
  with assms show ?thesis
    by auto
qed

lemma in_remove1: "x \<in> set (remove1 y xs) \<Longrightarrow> x \<in> set xs"
  using set_remove1_subset by fast

lemma voting_step_top: "voting_inv ms c \<Longrightarrow> act_top i c = Some c' \<Longrightarrow> voting_inv ms c'"
  by (erule voting_frame) (auto simp: act_top_def cluster_defs split: if_splits NodeState.splits)

lemma voting_step_timeout: "voting_inv ms c \<Longrightarrow> act_timeout i c = Some c' \<Longrightarrow> voting_inv ms c'"
  by (erule voting_frame) (auto simp: act_timeout_def cluster_defs keeps_def split: if_splits)

lemma voting_step_reset: "voting_inv ms c \<Longrightarrow> act_reset i c = Some c' \<Longrightarrow> voting_inv ms c'"
  by (erule voting_frame) (auto simp: act_reset_def cluster_defs keeps_def split: if_splits)

lemma voting_step_stepdown: "voting_inv ms c \<Longrightarrow> act_stepdown i c = Some c' \<Longrightarrow> voting_inv ms c'"
  by (erule voting_frame)
    (auto simp: act_stepdown_def cluster_defs le_max_iff_disj split: if_splits list.splits)

lemma voting_step_vote_error:
  assumes "voting_inv ms c" "act_vote_error i p c = Some c'"
  shows "voting_inv ms c'"
proof (rule voting_frame [OF assms(1)])
  fix j
  have "pc_ok ms (set (granted c)) (node c i) i (pc c i)"
    using assms(1) by (simp add: voting_defs)
  with assms(2) show "pc c' j = pc c j \<or> pc_ok ms (set (granted c)) (node c' j) j (pc c' j)"
    by (auto simp: act_vote_error_def cluster_defs pc_ok_remove simp del: pc_ok.simps split: if_splits loop_pc.splits)
qed (use assms(2) in \<open>auto simp: act_vote_error_def cluster_defs split: if_splits loop_pc.splits\<close>)

lemma voting_step_election_over: "voting_inv ms c \<Longrightarrow> act_election_over i c = Some c' \<Longrightarrow> voting_inv ms c'"
  by (erule voting_frame) (auto simp: act_election_over_def cluster_defs split: loop_pc.splits)

lemma voting_step_tick: "voting_inv ms c \<Longrightarrow> act_tick i c = Some c' \<Longrightarrow> voting_inv ms c'"
  by (erule voting_frame) (auto simp: act_tick_def cluster_defs split: if_splits)

lemma voting_step_drop: "voting_inv ms c \<Longrightarrow> act_drop m c = Some c' \<Longrightarrow> voting_inv ms c'"
  by (erule voting_frame) (auto simp: act_drop_def dest: in_remove1 split: if_splits)

lemma voting_step_heartbeats:
  "voting_inv ms c \<Longrightarrow> act_hb_send i p c = Some c' \<Longrightarrow> voting_inv ms c'"
  "voting_inv ms c \<Longrightarrow> act_hb_error i p args c = Some c' \<Longrightarrow> voting_inv ms c'"
  "voting_inv ms c \<Longrightarrow> act_hb_reply i p args reply c = Some c' \<Longrightarrow> voting_inv ms c'"
    apply (erule voting_frame; auto simp: act_hb_send_def Let_def split: if_splits)
   apply (erule voting_frame; auto simp: act_hb_error_def split: if_splits)
  apply (erule voting_frame; auto simp: act_hb_reply_def cluster_defs dest: in_remove1 keeps_heartbeat_reply split: if_splits option.splits)
  done

lemma voting_step_replicate:
  "voting_inv ms c \<Longrightarrow> act_replicate i cmd c = Some c' \<Longrightarrow> voting_inv ms c'"
  "voting_inv ms c \<Longrightarrow> act_rep_send i p e t lc c = Some c' \<Longrightarrow> voting_inv ms c'"
  "voting_inv ms c \<Longrightarrow> act_rep_error i p e t lc args c = Some c' \<Longrightarrow> voting_inv ms c'"
  "voting_inv ms c \<Longrightarrow> act_rep_reply i p e t lc args reply c = Some c' \<Longrightarrow> voting_inv ms c'"
     apply (erule voting_frame; auto simp: act_replicate_def cluster_defs dest: keeps_replicate_start split: if_splits option.splits)
    apply (erule voting_frame; auto simp: act_rep_send_def split: if_splits option.splits)
   apply (erule voting_frame; auto simp: act_rep_error_def split: if_splits)
  apply (erule voting_frame; auto simp: act_rep_reply_def cluster_defs dest: in_remove1 keeps_replicate_reply split: if_splits prod.splits)
  done

lemma voting_step_client:
  "voting_inv ms c \<Longrightarrow> act_ack i e acks waiting p ok c = Some c' \<Longrightarrow> voting_inv ms c'"
  "voting_inv ms c \<Longrightarrow> act_client_timeout i e acks waiting c = Some c' \<Longrightarrow> voting_inv ms c'"
   apply (erule voting_frame; auto simp: act_ack_def cluster_defs Let_def split: if_splits)
  apply (erule voting_frame; auto simp: act_client_timeout_def split: if_splits)
  done

lemma voting_step_apply:
  "voting_inv ms c \<Longrightarrow> act_apply i c = Some c' \<Longrightarrow> voting_inv ms c'"
  "voting_inv ms c \<Longrightarrow> act_apply_send i cmds c = Some c' \<Longrightarrow> voting_inv ms c'"
   apply (erule voting_frame; auto simp: act_apply_def cluster_defs dest: keeps_apply split: if_splits prod.splits)
  apply (erule voting_frame; auto simp: act_apply_send_def cluster_defs keeps_def split: if_splits option.splits list.splits)
  done


subsection \<open>Steps that give a vote or make a leader\<close>

lemma startElection_facts:
  "startElection n = (args, n') \<Longrightarrow> currentTerm n' = currentTerm n + 1 \<and> votedFor n' = nid n \<and> nid n' = nid n \<and>
     peers n' = peers n \<and> nstate n' = nstate n \<and> nlog n' = nlog n \<and> rvTerm args = currentTerm n' \<and> rvCandidateID args = nid n \<and>
     nextIndex n' = nextIndex n \<and> commitIndex n' = commitIndex n \<and> lastApplied n' = lastApplied n"
  by (auto simp: startElection_def Let_def split: prod.splits)

lemma becomeLeader_facts:
  "nid (becomeLeader t n) = nid n" "peers (becomeLeader t n) = peers n"
  "currentTerm (becomeLeader t n) = currentTerm n" "votedFor (becomeLeader t n) = votedFor n"
  "nlog (becomeLeader t n) = nlog n"
  "nstate (becomeLeader t n) = (if currentTerm n = t \<and> nstate n = Candidate then Leader else nstate n)"
  "commitIndex (becomeLeader t n) = commitIndex n" "lastApplied (becomeLeader t n) = lastApplied n"
  "applyCh (becomeLeader t n) = applyCh n"
  by (simp_all add: becomeLeader_def Let_def)

text \<open>A vote for a term in which the voter has not voted for another keeps the votes unique.\<close>

lemma granted_add:
  assumes inv: "granted_inv ms c"
    and new: "v \<in> set ms" "x \<in> set ms" "currentTerm n' = t" "votedFor n' = x" "currentTerm (node c v) \<le> t"
    and free: "currentTerm (node c v) = t \<longrightarrow> votedFor (node c v) = x \<or> votedFor (node c v) \<notin> set ms"
    and c': "granted c' = (t, v, x) # granted c" "node c' = (node c)(v := n')"
  shows "granted_inv ms c'"
proof -
  have same: "y = x" if "(t, v, y) \<in> set (granted c)" for y
  proof -
    have "t \<le> currentTerm (node c v)" "t = currentTerm (node c v) \<longrightarrow> votedFor (node c v) = y" "y \<in> set ms"
      using inv that unfolding granted_inv_def by blast+
    with new(5) free show ?thesis by auto
  qed
  show ?thesis
    unfolding granted_inv_def
  proof (intro allI impI)
    fix s u y
    assume y: "(s, u, y) \<in> set (granted c')"
    have old: "u \<in> set ms \<and> y \<in> set ms \<and> s \<le> currentTerm (node c u) \<and>
        (s = currentTerm (node c u) \<longrightarrow> votedFor (node c u) = y) \<and> (\<forall>z. (s, u, z) \<in> set (granted c) \<longrightarrow> z = y)"
      if "(s, u, y) \<in> set (granted c)"
      using inv that unfolding granted_inv_def by blast
    show "u \<in> set ms \<and> y \<in> set ms \<and> s \<le> currentTerm (node c' u) \<and>
        (s = currentTerm (node c' u) \<longrightarrow> votedFor (node c' u) = y) \<and> (\<forall>z. (s, u, z) \<in> set (granted c') \<longrightarrow> z = y)"
    proof (cases "(s, u, y) = (t, v, x)")
      case True
      with same new c' show ?thesis by auto
    next
      case False
      with y c'(1) have g: "(s, u, y) \<in> set (granted c)"
        by auto
      note o = old [OF g]
      have st: "s \<noteq> t" if "u = v"
        using that g same False by blast
      have z: "(s, u, z) \<in> set (granted c') \<Longrightarrow> (s, u, z) \<in> set (granted c)" for z
        using st c'(1) by auto
      show ?thesis
      proof (cases "u = v")
        case True
        with o have "s \<le> t"
          using new(5) by auto
        with o z st True new(3) c'(2) show ?thesis
          by simp
      next
        case False
        with o z c'(2) show ?thesis
          by simp
      qed
    qed
  qed
qed

lemma is_majority_mono: "is_majority ms A \<Longrightarrow> A \<subseteq> B \<Longrightarrow> B \<subseteq> set ms \<Longrightarrow> is_majority ms B"
  using card_mono [of B A] finite_subset [of B "set ms"] by (auto simp: is_majority_def)

text \<open>
  The frame for a step of node \<open>v\<close> that records one vote: everything else is as before, and
  the node does not become leader by it.
\<close>

lemma voting_frame_vote:
  assumes inv: "voting_inv ms c"
    and new: "v \<in> set ms" "x \<in> set ms" "currentTerm n' = t" "votedFor n' = x" "currentTerm (node c v) \<le> t"
    and free: "currentTerm (node c v) = t \<longrightarrow> votedFor (node c v) = x \<or> votedFor (node c v) \<notin> set ms"
    and n': "nid n' = v" "peers n' = remove1 v ms"
      "nstate n' = Leader \<longrightarrow> nstate (node c v) = Leader \<and> currentTerm (node c v) = t"
    and c': "granted c' = (t, v, x) # granted c" "node c' = (node c)(v := n')" "elected c' = elected c"
    and ballots: "\<And>p args. VoteReq p args \<in> set (msgs c') \<Longrightarrow>
        VoteReq p args \<in> set (msgs c) \<or> (p \<in> set ms \<and> rvCandidateID args \<in> set ms)"
      "\<And>p args r. VoteRep p args r \<in> set (msgs c') \<Longrightarrow> rrVoteGranted r \<Longrightarrow>
        VoteRep p args r \<in> set (msgs c) \<or> (rvTerm args, p, rvCandidateID args) = (t, v, x)"
    and pcs: "\<And>i. pc c' i = pc c i \<or> pc_ok ms (set (granted c')) (node c' i) i (pc c' i)"
  shows "voting_inv ms c'"
proof -
  have sub: "set (granted c) \<subseteq> set (granted c')"
    using c'(1) by auto
  have "static_inv ms c'"
    using inv n' c'(2) by (auto simp: voting_defs)
  moreover have g: "granted_inv ms c'"
    using inv granted_add [OF _ new free c'(1,2)] by (simp add: voting_inv_def)
  moreover have "ballot_inv ms c'"
    unfolding ballot_inv_def
  proof (intro conjI allI impI)
    fix p args
    assume "VoteReq p args \<in> set (msgs c')"
    with ballots(1) inv show "p \<in> set ms" "rvCandidateID args \<in> set ms"
      unfolding voting_inv_def ballot_inv_def by blast+
  next
    fix p args r
    assume "VoteRep p args r \<in> set (msgs c')" "rrVoteGranted r"
    with ballots(2) inv have "(rvTerm args, p, rvCandidateID args) \<in> set (granted c) \<union> {(t, v, x)}"
      unfolding voting_inv_def ballot_inv_def by blast
    then show "(rvTerm args, p, rvCandidateID args) \<in> set (granted c')"
      using c'(1) by auto
  qed
  moreover have "pc_inv ms c'"
    unfolding pc_inv_def
  proof
    fix i
    have "pc_ok ms (set (granted c)) (node c i) i (pc c i)"
      using inv by (simp add: voting_defs)
    then have "pc_ok ms (set (granted c')) (node c' i) i (pc c i)"
      by (rule pc_ok_mono) (use sub n'(3) c'(2) in auto)
    with pcs [of i] show "pc_ok ms (set (granted c')) (node c' i) i (pc c' i)"
      by auto
  qed
  moreover have "elected_inv ms c'"
    unfolding elected_inv_def
  proof (intro conjI allI impI)
    fix s i
    assume "(s, i) \<in> set (elected c')"
    with inv c'(3) have "is_majority ms {w. (s, w, i) \<in> set (granted c)}"
      by (simp add: voting_defs)
    then show "is_majority ms {w. (s, w, i) \<in> set (granted c')}"
      by (rule is_majority_mono) (use sub g in \<open>auto simp: granted_inv_def\<close>)
  next
    fix i
    assume "nstate (node c' i) = Leader"
    with inv n'(3) c'(2,3) new(3) show "(currentTerm (node c' i), i) \<in> set (elected c')"
      by (auto simp: voting_inv_def elected_inv_def split: if_splits)
  qed
  ultimately show ?thesis
    by (simp add: voting_inv_def)
qed


lemma remove1_set: "distinct ms \<Longrightarrow> set (remove1 i ms) = set ms - {i}"
  by (simp add: set_remove1_eq)

lemma voting_step_election:
  assumes inv: "voting_inv ms c" and ms: "distinct ms" and i: "i \<in> set ms" and act: "act_election i c = Some c'"
  shows "voting_inv ms c'"
proof -
  obtain args n where s: "startElection (node c i) = (args, n)"
    by (metis surj_pair)
  from act s have g: "pc c i = AtElection" "currentTerm (node c i) \<noteq> - 1" and
    c': "c' = (set_pc i (InCandidate (currentTerm n) 1 (peers n)) (set_node i n c))
              \<lparr>msgs := msgs c @ map (\<lambda>p. VoteReq p args) (peers n), granted := (currentTerm n, i, i) # granted c\<rparr>"
    by (auto simp: act_election_def split: if_splits)
  have st: "nid (node c i) = i" "peers (node c i) = remove1 i ms"
    using inv by (simp_all add: voting_defs)
  note n = startElection_facts [OF s, unfolded st]
  have lt: "currentTerm (node c i) < currentTerm n"
    using n term_grows [OF g(2)] by simp
  have "pc_ok ms (set (granted c)) (node c i) i (pc c i)"
    using inv by (simp add: voting_defs)
  then have nl: "nstate n \<noteq> Leader"
    using g(1) n by simp
  show ?thesis
  proof (rule voting_frame_vote [OF inv i i, where n' = n and t = "currentTerm n"])
    show "currentTerm (node c i) = currentTerm n \<longrightarrow> votedFor (node c i) = i \<or> votedFor (node c i) \<notin> set ms"
      using lt by auto
    fix j
    show "pc c' j = pc c j \<or> pc_ok ms (set (granted c')) (node c' j) j (pc c' j)"
      using nl n i ms by (simp add: c' cluster_defs remove1_set)
  qed (use n lt nl i ms in \<open>auto simp: c' cluster_defs remove1_set less_imp_le dest: in_remove1\<close>)
qed

lemma majority_members:
  "voting_inv ms c \<Longrightarrow> i \<in> set ms \<Longrightarrow> majority (node c i) = length ms div 2 + 1"
proof -
  assume "voting_inv ms c" "i \<in> set ms"
  moreover from this have "0 < length ms"
    by (cases ms) simp_all
  ultimately show ?thesis
    by (simp add: majority_def voting_inv_def static_inv_def length_remove1)
qed

lemma votes_majority:
  assumes inv: "voting_inv ms c" and ok: "pc_ok ms (set (granted c)) n i (InCandidate t votes waiting)"
    and "majority (node c i) \<le> votes"
  shows "is_majority ms {v. (t, v, i) \<in> set (granted c)}"
proof -
  let ?A = "{p \<in> set ms - {i} - set waiting. (t, p, i) \<in> set (granted c)}"
  have i: "i \<in> set ms" "(t, i, i) \<in> set (granted c)" and v: "votes \<le> Suc (card ?A)"
    using ok by auto
  have V: "{v. (t, v, i) \<in> set (granted c)} \<subseteq> set ms"
    using inv by (auto simp: voting_inv_def granted_inv_def)
  have "Suc (card ?A) = card (insert i ?A)"
    by (simp add: card_insert_if)
  also have "\<dots> \<le> card {v. (t, v, i) \<in> set (granted c)}"
    using i by (intro card_mono finite_subset [OF V]) auto
  finally show ?thesis
    using v assms(3) majority_members [OF inv i(1)] V by (simp add: is_majority_def)
qed

lemma voting_elect:
  assumes inv: "voting_inv ms c" and maj: "is_majority ms {v. (t, v, i) \<in> set (granted c)}"
    and c': "node c' = (node c)(i := becomeLeader t (node c i))" "pc c' = (pc c)(i := AtTop)"
      "granted c' = granted c" "set (msgs c') \<subseteq> set (msgs c)"
      "elected c' = (if currentTerm (node c i) = t \<and> nstate (node c i) = Candidate then (t, i) # elected c else elected c)"
  shows "voting_inv ms c'"
proof -
  have "static_inv ms c'" "granted_inv ms c'"
    using inv c' by (auto simp: voting_inv_def static_inv_def granted_inv_def becomeLeader_facts)
  moreover have "ballot_inv ms c'"
    using inv c'(3,4) unfolding voting_inv_def ballot_inv_def c'(3) by blast
  moreover have "pc_inv ms c'"
    using inv c' by (auto simp: voting_inv_def pc_inv_def)
  moreover have "elected_inv ms c'"
    using inv maj unfolding voting_inv_def elected_inv_def c'(3)
    by (auto simp: c'(1,5) becomeLeader_facts split: if_splits)
  ultimately show ?thesis
    by (simp add: voting_inv_def)
qed

lemma voting_step_vote:
  assumes inv: "voting_inv ms c" and act: "act_vote i p args reply c = Some c'"
  shows "voting_inv ms c'"
proof -
  from act obtain t votes waiting where pc: "pc c i = InCandidate t votes waiting" and p: "p \<in> set waiting"
    and m: "VoteRep p args reply \<in> set (msgs c)" and a: "rvCandidateID args = i" "rvTerm args = t"
    by (auto simp: act_vote_def split: loop_pc.splits if_splits)
  have ok: "pc_ok ms (set (granted c)) (node c i) i (InCandidate t votes waiting)"
    using inv unfolding pc [symmetric] by (simp add: voting_defs)
  have g: "(t, p, i) \<in> set (granted c)" if "rrVoteGranted reply"
    using inv m a that unfolding voting_inv_def ballot_inv_def by blast
  consider (higher) "t < rrTerm reply" | (won) "\<not> t < rrTerm reply" "rrVoteGranted reply" "majority (node c i) \<le> votes + 1"
    | (more) "\<not> t < rrTerm reply" "rrVoteGranted reply" "\<not> majority (node c i) \<le> votes + 1"
    | (denied) "\<not> t < rrTerm reply" "\<not> rrVoteGranted reply"
    by blast
  then show ?thesis
  proof cases
    case higher
    with act pc p m a show ?thesis
      by (intro voting_frame [OF inv]) (auto simp: act_vote_def cluster_defs Let_def le_max_iff_disj dest: in_remove1)
  next
    case won
    have "is_majority ms {v. (t, v, i) \<in> set (granted c)}"
      using votes_majority [OF inv pc_ok_count [OF ok p g [OF won(2)]]] won(3) by simp
    then show ?thesis
      by (rule voting_elect [OF inv]) (use won act pc p m a in \<open>auto simp: act_vote_def cluster_defs Let_def dest: in_remove1\<close>)
  next
    case more
    with act pc p m a pc_ok_count [OF ok p g] show ?thesis
      by (intro voting_frame [OF inv])
        (auto simp: act_vote_def cluster_defs Let_def simp del: pc_ok.simps dest: in_remove1)
  next
    case denied
    with act pc p m a pc_ok_remove [OF ok, of p] show ?thesis
      by (intro voting_frame [OF inv])
        (auto simp: act_vote_def cluster_defs Let_def simp del: pc_ok.simps dest: in_remove1)
  qed
qed

lemma voting_step_deliver:
  assumes inv: "voting_inv ms c" and ms: "[] \<notin> set ms" and act: "act_deliver m c = Some c'"
  shows "voting_inv ms c'"
proof (cases m)
  case (AppReq p args)
  with act show ?thesis
    by (intro voting_frame [OF inv])
      (auto simp: act_deliver_def cluster_defs dest: in_remove1 keeps_handle_append split: if_splits prod.splits)
next
  case (VoteReq p args)
  with act have m: "VoteReq p args \<in> set (msgs c)"
    by (auto simp: act_deliver_def split: if_splits)
  then have p: "p \<in> set ms" "rvCandidateID args \<in> set ms"
    using inv unfolding voting_inv_def ballot_inv_def by blast+
  obtain r n where h: "HandleRequestVote args (node c p) = (r, n)"
    by (metis surj_pair)
  note f = HandleRequestVote_facts [OF h]
  have st: "nid (node c p) = p" "peers (node c p) = remove1 p ms"
    using inv by (simp_all add: voting_defs)
  have c': "c' = (set_node p n c)\<lparr>msgs := remove1 m (msgs c) @ [VoteRep p args r],
      granted := (if rrVoteGranted r then (rvTerm args, p, rvCandidateID args) # granted c else granted c)\<rparr>"
    using act h m VoteReq by (simp add: act_deliver_def)
  show ?thesis
  proof (cases "rrVoteGranted r")
    case False
    with h show ?thesis
      by (intro voting_frame [OF inv]) (auto simp: c' cluster_defs dest: in_remove1 keeps_denied_vote)
  next
    case True
    have free: "currentTerm (node c p) = rvTerm args \<longrightarrow>
        votedFor (node c p) = rvCandidateID args \<or> votedFor (node c p) \<notin> set ms"
      using f(3) [OF True] ms by auto
    have le: "currentTerm (node c p) \<le> rvTerm args"
      using f(1) f(3) [OF True] by (simp add: max_def split: if_splits)
    show ?thesis
      by (rule voting_frame_vote [OF inv p _ _ le free, of n])
        (use True le f(3) [OF True] f(5,8,9) st in \<open>auto simp: c' cluster_defs dest: in_remove1 split: if_splits\<close>)
  qed
qed (use act in \<open>auto simp: act_deliver_def split: if_splits\<close>)

lemma elected_unique:
  assumes "voting_inv ms c" "(t, i) \<in> set (elected c)" "(t, j) \<in> set (elected c)"
  shows "i = j"
  by (rule majorities.one_winner [of ms "\<lambda>v x. (t, v, x) \<in> set (granted c)"])
    (use assms in \<open>auto simp: voting_inv_def elected_inv_def granted_inv_def\<close>)

lemma voting_step:
  assumes "voting_inv ms c" "distinct ms" "[] \<notin> set ms" "\<forall>i. actor a = Some i \<longrightarrow> i \<in> set ms" "exec a c = Some c'"
  shows "voting_inv ms c'"
  using assms
  by (cases a)
    (auto intro: voting_step_top voting_step_timeout voting_step_reset voting_step_stepdown voting_step_election
      voting_step_vote_error voting_step_vote voting_step_election_over voting_step_tick voting_step_deliver
      voting_step_drop voting_step_heartbeats voting_step_replicate voting_step_client voting_step_apply)

lemma reachable_voting:
  assumes "reachable ms c" "distinct ms" "[] \<notin> set ms"
  shows "voting_inv ms c"
  using assms(1)
proof induction
  case init
  show ?case by (rule voting_inv_init)
next
  case (step c a c')
  then show ?case using voting_step assms(2,3) by blast
qed

subsection \<open>Terms and elections only grow\<close>

lemma HandleRequestVote_term: "HandleRequestVote args n = (r, n') \<Longrightarrow> currentTerm n \<le> currentTerm n'"
  using HandleRequestVote_facts [of args n r n'] by (auto simp: max_def split: if_splits)

lemma keeps_term: "keeps n n' \<Longrightarrow> currentTerm n \<le> currentTerm n'"
  by (simp add: keeps_def)

lemmas node_terms = HandleRequestVote_term keeps_handle_append [THEN keeps_term] keeps_replicate_start [THEN keeps_term]
  keeps_replicate_reply [THEN keeps_term] keeps_apply [THEN keeps_term] keeps_heartbeat_reply [THEN keeps_term]

lemma exec_forward:
  assumes "exec a c = Some c'"
  shows "currentTerm (node c j) \<le> currentTerm (node c' j) \<and> set (elected c) \<subseteq> set (elected c')"
proof (cases a)
  case (StartElection i)
  obtain args n where n: "startElection (node c i) = (args, n)"
    by fastforce
  with assms StartElection have "currentTerm (node c i) \<noteq> - 1"
    by (auto simp: act_election_def split: if_splits)
  then have "currentTerm (node c i) \<le> currentTerm (node c i) + 1"
    by (rule order.strict_implies_order [OF term_grows])
  with assms StartElection startElection_facts [OF n] n show ?thesis
    by (auto simp: act_election_def cluster_defs split: if_splits)
next
  case (TakeVote i p args reply)
  with assms show ?thesis
    by (auto simp: act_vote_def cluster_defs Let_def becomeLeader_facts becomeFollower_def split: loop_pc.splits if_splits)
next
  case (Deliver m)
  with assms show ?thesis
    by (cases m) (auto simp: act_deliver_def cluster_defs split: if_splits prod.splits dest: node_terms)
next
  case (TakeAck i e acks waiting p ok)
  with assms show ?thesis
    by (auto simp: act_ack_def cluster_defs Let_def replicateCommit_def split: if_splits)
next
  case (StepDown i)
  with assms show ?thesis
    by (auto simp: act_stepdown_def cluster_defs becomeFollower_def split: if_splits list.splits)
qed (use assms in \<open>auto simp: quiet_acts cluster_defs Let_def dest: node_terms
  split: if_splits option.splits prod.splits list.splits NodeState.splits loop_pc.splits\<close>)

subsection \<open>One leader per term\<close>

text \<open>
  C1. Election safety. In every reachable state of every cluster (distinct, non-empty node
  identifiers), under every interleaving of the goroutines and every loss and delay of
  messages: no two nodes are elected in the same term, a node is in state Leader only in a term
  it was elected in, and so two leaders of the same term are the same node.
\<close>

theorem election_safety:
  assumes "reachable ms c" and "distinct ms" and "[] \<notin> set ms"
  shows "(\<forall>t i j. (t, i) \<in> set (elected c) \<longrightarrow> (t, j) \<in> set (elected c) \<longrightarrow> i = j) \<and>
    (\<forall>i. nstate (node c i) = Leader \<longrightarrow> (currentTerm (node c i), i) \<in> set (elected c)) \<and>
    (\<forall>i j. nstate (node c i) = Leader \<longrightarrow> nstate (node c j) = Leader \<longrightarrow>
       currentTerm (node c i) = currentTerm (node c j) \<longrightarrow> i = j)"
proof -
  note inv = reachable_voting [OF assms]
  have "i = j" if "(t, i) \<in> set (elected c)" "(t, j) \<in> set (elected c)" for t i j
    by (rule elected_unique [OF inv that])
  moreover have "(currentTerm (node c i), i) \<in> set (elected c)" if "nstate (node c i) = Leader" for i
    using that inv by (simp add: voting_inv_def elected_inv_def)
  ultimately show ?thesis
    by metis
qed

theorem election_safety_witness:
  "\<exists>c. reachable members3 c \<and> nstate (node c ''A'') = Leader \<and>
     (\<forall>i. nstate (node c i) = Leader \<longrightarrow> currentTerm (node c i) = currentTerm (node c ''A'') \<longrightarrow> i = ''A'')"
proof -
  obtain c where "reachable members3 c" "nstate (node c ''A'') = Leader"
    using elect_A_reaches by blast
  then show ?thesis
    using election_safety [of members3 c] members3_ok by blast
qed

text \<open>Only a candidate that takes an answer can be elected.\<close>

lemma elected_step:
  assumes "exec a c = Some c'" "elected c' \<noteq> elected c"
  shows "\<exists>i p t votes waiting. pc c i = InCandidate t votes waiting \<and> p \<in> set waiting"
proof (cases a)
  case (TakeVote i p args reply)
  with assms(1) obtain t votes waiting where "pc c i = InCandidate t votes waiting" "p \<in> set waiting"
    by (auto simp: act_vote_def split: loop_pc.splits if_splits)
  then show ?thesis by blast
next
  case (Deliver m)
  with assms show ?thesis
    by (cases m) (auto simp: act_deliver_def set_node_def split: if_splits prod.splits)
next
  case (StartElection i)
  with assms show ?thesis
    by (auto simp: act_election_def cluster_defs split: if_splits prod.splits)
qed (use assms in \<open>auto simp: quiet_acts cluster_defs Let_def
  split: if_splits option.splits prod.splits list.splits NodeState.splits loop_pc.splits\<close>)

text \<open>
  C23. A cluster of one node never elects a leader: the loop over the answers of the peers, in
  which the votes are counted, has no iteration, although the node's own vote is a majority. So
  such a cluster accepts no command.
\<close>

theorem single_node_never_leads:
  assumes "reachable [i] c" and "i \<noteq> []"
  shows "elected c = [] \<and> nstate (node c i) \<noteq> Leader \<and> replicateStart command (node c i) = None"
proof -
  have inv: "voting_inv [i] c'" if "reachable [i] c'" for c'
    using that assms(2) by (auto intro: reachable_voting)
  have "elected c = []"
    using assms(1)
  proof induction
    case init
    show ?case by (simp add: init_cluster_def)
  next
    case (step c a c')
    have "p \<notin> set waiting" if "pc c j = InCandidate t votes waiting" for j t votes waiting p
    proof -
      have "pc_ok [i] (set (granted c)) (node c j) j (pc c j)"
        using inv [OF step(1)] by (simp add: voting_defs)
      with that show ?thesis by auto
    qed
    then have "elected c' = elected c"
      using elected_step [OF step(3)] by blast
    then show ?case
      using step.IH by simp
  qed
  with inv [OF assms(1)] show ?thesis
    by (auto simp: voting_inv_def elected_inv_def replicateStart_def IsLeader_def)
qed

theorem single_node_never_leads_witness:
  "\<exists>c. reachable [''A''] c \<and> votedFor (node c ''A'') = ''A'' \<and> elected c = []"
proof -
  have "\<exists>c. reachable [''A''] c \<and> votedFor (node c ''A'') = ''A''"
    by (rule run_reaches [of "[Top ''A'', Timeout ''A'', Top ''A'', StartElection ''A'', ElectionOver ''A'']"])
      (simp_all add: run_simps)
  then obtain c where "reachable [''A''] c" "votedFor (node c ''A'') = ''A''"
    by blast
  then show ?thesis
    using single_node_never_leads [of "''A''" c] by blast
qed

end
