(* ===== verification/Raft_Log_Safety.thy ===== *)
theory Raft_Log_Safety
  imports Raft_Election_Safety
begin


text \<open>
  The logs of a cluster: in every reachable state they are well formed, every entry carries a
  term in which somebody was elected, and no loop over log indices runs forever.
\<close>

subsection \<open>The invariant\<close>

definition entry_ok :: "(uint64 \<times> string) set \<Rightarrow> uint64 \<Rightarrow> LogEntry \<Rightarrow> bool" where
  "entry_ok E t e \<longleftrightarrow> Term e \<le> t \<and> (\<exists>j. (Term e, j) \<in> E)"

definition node_ok :: "(uint64 \<times> string) set \<Rightarrow> Node \<Rightarrow> bool" where
  "node_ok E n \<longleftrightarrow> log_wf (nlog n) \<and> length (nlog n) < 2 ^ 64 \<and>
     (\<forall>e \<in> set (tl (nlog n)). entry_ok E (currentTerm n) e) \<and>
     (nstate n = Leader \<longrightarrow> (\<forall>p \<in> set (peers n). nextIndex n p \<noteq> 0))"

definition args_ok :: "(uint64 \<times> string) set \<Rightarrow> AppendEntriesArgs \<Rightarrow> bool" where
  "args_ok E args \<longleftrightarrow> args_wf args \<and> Suc (unat (aePrevLogIndex args)) + length (aeEntries args) < 2 ^ 64 \<and>
     (\<forall>e \<in> set (aeEntries args). entry_ok E (aeTerm args) e)"

fun task_ok :: "(uint64 \<times> string) set \<Rightarrow> (string \<Rightarrow> Node) \<Rightarrow> task \<Rightarrow> bool" where
  "task_ok E f (HbStart i p) \<longleftrightarrow> nextIndex (f i) p \<noteq> 0"
| "task_ok E f (HbWait i p args) \<longleftrightarrow> nextIndex (f i) p \<noteq> 0 \<and> args_ok E args"
| "task_ok E f (RepStart i p e t lc) \<longleftrightarrow> nextIndex (f i) p \<noteq> 0 \<and> Index e \<noteq> - 1"
| "task_ok E f (RepWait i p e t lc args) \<longleftrightarrow> nextIndex (f i) p \<noteq> 0 \<and> Index e \<noteq> - 1"
| "task_ok E f _ \<longleftrightarrow> True"

definition log_inv :: "cluster \<Rightarrow> bool" where
  "log_inv c \<longleftrightarrow>
     (\<forall>i. node_ok (set (elected c)) (node c i)) \<and>
     (\<forall>p args. AppReq p args \<in> set (msgs c) \<longrightarrow> args_ok (set (elected c)) args) \<and>
     (\<forall>t \<in> set (tasks c). task_ok (set (elected c)) (node c) t)"

lemma log_wf_newLogStore: "log_wf newLogStore"
  by (simp add: newLogStore_def log_wf_def)

lemma log_inv_init: "log_inv (init_cluster ms)"
  by (simp add: log_inv_def init_cluster_def NewNode_def node_ok_def newLogStore_def log_wf_def)

subsection \<open>Frames\<close>

text \<open>A next index that was set stays set.\<close>

definition keeps_next :: "Node \<Rightarrow> Node \<Rightarrow> bool" where
  "keeps_next n n' \<longleftrightarrow> (\<forall>p. nextIndex n p \<noteq> 0 \<longrightarrow> nextIndex n' p \<noteq> 0)"

lemma keeps_next_refl [simp]: "keeps_next n n"
  by (simp add: keeps_next_def)

lemma entry_ok_mono: "entry_ok E t e \<Longrightarrow> E \<subseteq> E' \<Longrightarrow> t \<le> t' \<Longrightarrow> entry_ok E' t' e"
  by (auto simp: entry_ok_def)

lemma node_ok_mono: "node_ok E n \<Longrightarrow> E \<subseteq> E' \<Longrightarrow> node_ok E' n"
  by (auto simp: node_ok_def intro: entry_ok_mono)

lemma args_ok_mono: "args_ok E args \<Longrightarrow> E \<subseteq> E' \<Longrightarrow> args_ok E' args"
  by (auto simp: args_ok_def intro: entry_ok_mono)

lemma task_ok_mono: "task_ok E f t \<Longrightarrow> E \<subseteq> E' \<Longrightarrow> \<forall>i. keeps_next (f i) (f' i) \<Longrightarrow> task_ok E' f' t"
  by (cases t) (auto simp: keeps_next_def intro: args_ok_mono)

text \<open>A step of node \<open>i\<close> to \<open>n'\<close>; what it adds to the tasks and messages is given.\<close>

lemma log_frame:
  assumes inv: "log_inv c"
    and n': "node c' = (node c)(i := n')" "node_ok (set (elected c')) n'" "keeps_next (node c i) n'"
    and el: "set (elected c) \<subseteq> set (elected c')"
    and msgs: "\<And>p args. AppReq p args \<in> set (msgs c') \<Longrightarrow>
      AppReq p args \<in> set (msgs c) \<or> args_ok (set (elected c')) args"
    and tasks: "\<And>t. t \<in> set (tasks c') \<Longrightarrow> t \<in> set (tasks c) \<or> task_ok (set (elected c')) (node c') t"
  shows "log_inv c'"
proof -
  have "keeps_next (node c j) (node c' j)" for j
    using n'(1,3) by simp
  then have "t \<in> set (tasks c') \<Longrightarrow> task_ok (set (elected c')) (node c') t" for t
    using tasks [of t] inv task_ok_mono [OF _ el] by (auto simp: log_inv_def)
  moreover have "node_ok (set (elected c')) (node c' j)" for j
    using inv n'(1,2) node_ok_mono [OF _ el] by (auto simp: log_inv_def)
  moreover have "AppReq p args \<in> set (msgs c') \<Longrightarrow> args_ok (set (elected c')) args" for p args
    using inv msgs [of p args] args_ok_mono [OF _ el] unfolding log_inv_def by blast
  ultimately show ?thesis
    by (auto simp: log_inv_def)
qed

text \<open>A step that changes no node.\<close>

lemma log_frame_same:
  assumes inv: "log_inv c"
    and "node c' = node c" "elected c' = elected c"
      "\<And>p args. AppReq p args \<in> set (msgs c') \<Longrightarrow> AppReq p args \<in> set (msgs c) \<or> args_ok (set (elected c)) args"
      "\<And>t. t \<in> set (tasks c') \<Longrightarrow> t \<in> set (tasks c) \<or> task_ok (set (elected c)) (node c) t"
  shows "log_inv c'"
proof (rule log_frame [OF inv, of c' i "node c i" for i])
  show "node_ok (set (elected c')) (node c i)" for i
    using inv assms(3) by (simp add: log_inv_def)
qed (use assms in auto)

text \<open>A step of a node that leaves its log alone.\<close>

lemma node_ok_same_log:
  assumes "node_ok E n" "nlog n' = nlog n" "currentTerm n \<le> currentTerm n'" "peers n' = peers n" "keeps_next n n'"
    "nstate n' = Leader \<Longrightarrow> nstate n = Leader"
  shows "node_ok E n'"
  using assms by (auto simp: node_ok_def keeps_next_def intro: entry_ok_mono)

subsection \<open>What a node does to its log\<close>

lemma nth_0_tl: "xs \<noteq> [] \<Longrightarrow> set (tl (take (Suc k) xs @ ys)) \<subseteq> set (tl xs) \<union> set ys"
  by (cases xs) (auto dest: in_set_takeD)

lemma merge_at_entries:
  assumes "p \<le> length l" "0 < p"
  shows "set (tl (merge_at p es l)) \<subseteq> set (tl l) \<union> set es"
    and "length (merge_at p es l) \<le> max (length l) (p + length es)"
proof -
  consider "merge_at p es l = l" | k where "k < length es" "merge_at p es l = take (p + k) l @ drop k es"
    using merge_at_shape [OF assms(1), of es] by blast
  note cases = this
  show "set (tl (merge_at p es l)) \<subseteq> set (tl l) \<union> set es"
  proof (cases rule: cases)
    case (2 k)
    have "l \<noteq> []" "p + k = Suc (p + k - 1)"
      using assms by auto
    then have "set (tl (take (p + k) l @ drop k es)) \<subseteq> set (tl l) \<union> set (drop k es)"
      using nth_0_tl [of l "p + k - 1" "drop k es"] by simp
    with 2 show ?thesis
      using set_drop_subset [of k es] by auto
  qed simp
  show "length (merge_at p es l) \<le> max (length l) (p + length es)"
    by (cases rule: cases) auto
qed

lemma handle_append_ok:
  assumes "HandleAppendEntries args n = (r, n', go)" "node_ok E n" "args_ok E args"
  shows "node_ok E n' \<and> keeps_next n n'"
proof -
  have wf: "log_wf (nlog n)" "args_wf args"
    using assms(2,3) by (simp_all add: node_ok_def args_ok_def)
  note f = HandleAppendEntries_facts [OF assms(1)]
  note log = HandleAppendEntries_log [OF assms(1) wf]
  let ?p = "Suc (unat (aePrevLogIndex args))"
  show ?thesis
  proof (cases "arSuccess r")
    case True
    then have p: "?p \<le> length (nlog n)" and t: "currentTerm n' = aeTerm args" "currentTerm n \<le> aeTerm args"
      using f(2,4) prevOK_length [OF wf(1)] by (auto simp: max_def)
    have "length (nlog n) < 2 ^ 64" "?p + length (aeEntries args) < 2 ^ 64"
      using assms(2,3) by (simp_all add: node_ok_def args_ok_def)
    then have sub: "set (tl (nlog n')) \<subseteq> set (tl (nlog n)) \<union> set (aeEntries args)" and len: "length (nlog n') < 2 ^ 64"
      using log(1) True merge_at_entries [OF p, of "aeEntries args"] by simp_all
    have "entry_ok E (currentTerm n') e" if "e \<in> set (tl (nlog n)) \<union> set (aeEntries args)" for e
      using that assms(2,3) entry_ok_mono [OF _ order.refl t(2)] unfolding t(1) node_ok_def args_ok_def by blast
    with sub have "\<forall>e \<in> set (tl (nlog n')). entry_ok E (currentTerm n') e"
      by blast
    moreover have "\<forall>p \<in> set (peers n'). nextIndex n' p \<noteq> 0" if "nstate n' = Leader"
    proof -
      have "nstate n = Leader"
        using that f(6) by (simp split: if_splits)
      with assms(2) show ?thesis
        by (simp add: node_ok_def f(11,13))
    qed
    ultimately show ?thesis
      using log(2) len f(13) by (simp add: node_ok_def keeps_next_def)
  next
    case False
    have "node_ok E n'"
      by (rule node_ok_same_log [OF assms(2)]) (use False log(1) f(2,6,11,13) in \<open>auto simp: keeps_next_def split: if_splits\<close>)
    with f(13) show ?thesis
      by (simp add: keeps_next_def)
  qed
qed


lemma word_not_max: "unat (a :: uint64) < 2 ^ 64 - 1 \<Longrightarrow> a \<noteq> - 1"
  by (auto simp: unsigned_minus_1_eq_mask mask_eq_exp_minus_1)

lemma lastIndex_not_max:
  assumes "node_ok E n"
  shows "fst (lastIndexAndTerm (nlog n)) \<noteq> - 1" "unat (fst (lastIndexAndTerm (nlog n))) = length (nlog n) - 1"
proof -
  have wf: "log_wf (nlog n)" "length (nlog n) < 2 ^ 64"
    using assms by (simp_all add: node_ok_def)
  show u: "unat (fst (lastIndexAndTerm (nlog n))) = length (nlog n) - 1"
    using lastIndex_unat [OF wf(1)] by (simp add: lastIndexAndTerm_eq)
  show "fst (lastIndexAndTerm (nlog n)) \<noteq> - 1"
    using u wf log_wf_nonempty [OF wf(1)] by (intro word_not_max) (cases "nlog n", auto)
qed

lemma unat_minus_one: "(a :: uint64) \<noteq> 0 \<Longrightarrow> Suc (unat (a - 1)) = unat a"
  by (simp add: unat_minus_one unat_gt_0)

text \<open>A segment of a well-formed log has consecutive indices.\<close>

lemma segment_consecutive:
  assumes "log_wf l" "length l < 2 ^ 64" "i < 2 ^ 64"
  shows "consecutive i (drop i (take k l))" "i + length (drop i (take k l)) < 2 ^ 64"
proof -
  have "Index (drop i (take k l) ! j) = of_nat (i + j)" if "j < length (drop i (take k l))" for j
  proof -
    have "i \<le> length (take k l)" "i + j < length l" "i + j < k"
      using that by auto
    then have "drop i (take k l) ! j = l ! (i + j)" "i + j < length l"
      by (simp_all add: nth_drop)
    with assms(1) show ?thesis
      by (simp add: log_wf_def)
  qed
  then show "consecutive i (drop i (take k l))" "i + length (drop i (take k l)) < 2 ^ 64"
    using assms by (auto simp: consecutive_def)
qed

lemma set_drop_tl: "0 < i \<Longrightarrow> set (drop i (take k l)) \<subseteq> set (tl l)"
proof -
  assume "0 < i"
  then have "set (drop i (take k l)) \<subseteq> set (drop 1 (take k l))"
    by (intro set_drop_subset_set_drop) simp
  also have "\<dots> \<subseteq> set (tl l)"
    by (cases l; cases k) (auto dest: in_set_takeD)
  finally show ?thesis .
qed

lemma heartbeatArgs_ok:
  assumes n: "node_ok E n" and p: "nextIndex n p \<noteq> 0"
  shows "args_ok E (heartbeatArgs p n)"
proof (cases "nextIndex n p \<le> fst (lastIndexAndTerm (nlog n))")
  case True
  have wf: "log_wf (nlog n)" "length (nlog n) < 2 ^ 64" "\<forall>e \<in> set (tl (nlog n)). entry_ok E (currentTerm n) e"
    using n by (simp_all add: node_ok_def)
  have u: "0 < unat (nextIndex n p)" "unat (nextIndex n p) < 2 ^ 64"
    using p unsigned_less [of "nextIndex n p"] by (simp_all add: unat_gt_0)
  have v: "unat (nextIndex n p) = Suc (unat (nextIndex n p - 1))"
    using unat_minus_one [OF p] by simp
  have "entriesFrom (nextIndex n p) (nlog n) = drop (unat (nextIndex n p)) (take (length (nlog n)) (nlog n))"
    using entriesFrom_drop [OF wf(1)] by simp
  with True wf u segment_consecutive [OF wf(1,2) u(2), of "length (nlog n)"]
    set_drop_tl [OF u(1), of "length (nlog n)" "nlog n"] show ?thesis
    by (auto simp: heartbeatArgs_def Let_def args_ok_def args_wf_def v)
next
  case False
  then show ?thesis
    by (simp add: heartbeatArgs_def Let_def args_ok_def args_wf_def consecutive_def)
qed

lemma replicateArgs_ok:
  assumes n: "node_ok E n" and p: "nextIndex n p \<noteq> 0" and e: "Index e \<noteq> - 1"
  shows "\<exists>r. replicateArgs p e t lc n = Some r \<and> (\<forall>args. r = Some args \<longrightarrow> args_ok E args)"
proof -
  have wf: "log_wf (nlog n)" "length (nlog n) < 2 ^ 64" "\<forall>e \<in> set (tl (nlog n)). entry_ok E (currentTerm n) e"
    using n by (simp_all add: node_ok_def)
  have u: "0 < unat (nextIndex n p)" "unat (nextIndex n p) < 2 ^ 64"
    using p unsigned_less [of "nextIndex n p"] by (simp_all add: unat_gt_0)
  have v: "unat (nextIndex n p) = Suc (unat (nextIndex n p - 1))"
    using unat_minus_one [OF p] by simp
  show ?thesis
    using wf segment_consecutive [OF wf(1,2) u(2), of "Suc (unat (Index e))"]
      set_drop_tl [OF u(1), of "Suc (unat (Index e))" "nlog n"]
    by (auto simp: replicateArgs_def Let_def args_ok_def args_wf_def collectEntries_segment [OF wf(1) e] v)
qed

lemma becomeLeader_ok: "node_ok E n \<Longrightarrow> node_ok E (becomeLeader t n) \<and> keeps_next n (becomeLeader t n)"
proof -
  assume n: "node_ok E n"
  let ?x = "fst (lastIndexAndTerm (nlog n)) + 1"
  have x: "?x \<noteq> 0"
    using lastIndex_not_max(1) [OF n] by (metis add_eq_0_iff2)
  have f: "fold (\<lambda>p f. f(p := v)) ps f = (\<lambda>p. if p \<in> set ps then v else f p)" for ps and v :: uint64 and f :: "string \<Rightarrow> uint64"
    by (induction ps arbitrary: f) auto
  show ?thesis
    using n x by (auto simp: node_ok_def becomeLeader_def Let_def f keeps_next_def)
qed

lemma replicateStart_ok:
  assumes n: "node_ok E n" and "(currentTerm n, i) \<in> E" and "length (nlog n) < 2 ^ 64 - 1"
    and r: "replicateStart cmd n = Some (e, n')"
  shows "node_ok E n' \<and> keeps_next n n' \<and> Index e \<noteq> - 1 \<and> (\<forall>p \<in> set (peers n'). nextIndex n' p \<noteq> 0)"
proof -
  have wf: "log_wf (nlog n)"
    using n by (simp add: node_ok_def)
  have e: "e = \<lparr>Term = currentTerm n, Index = fst (lastIndexAndTerm (nlog n)) + 1, Command = cmd\<rparr>"
    and n': "n' = n\<lparr>nlog := appendEntry e (nlog n), matchIndex := (matchIndex n)(nid n := Index e)\<rparr>" and l: "nstate n = Leader"
    using r by (auto simp: replicateStart_def Let_def IsLeader_def split: if_splits)
  have ne: "0 < length (nlog n)"
    using log_wf_nonempty [OF wf] by simp
  have i: "Index e = of_nat (length (nlog n))"
  proof -
    have "of_nat (unat (fst (lastIndexAndTerm (nlog n)))) = (of_nat (length (nlog n) - 1) :: uint64)"
      using lastIndex_not_max(2) [OF n] by simp
    then show ?thesis
      using ne e by (simp add: of_nat_diff)
  qed
  have "Index e \<noteq> - 1"
    using i assms(3) by (intro word_not_max) (simp add: unat_of_nat)
  moreover have "log_wf (appendEntry e (nlog n))"
    using log_wf_append [OF wf i] assms(3) by simp
  moreover have "set (tl (appendEntry e (nlog n))) = insert e (set (tl (nlog n)))"
    using ne by (cases "nlog n") (auto simp: appendEntry_def)
  moreover have "entry_ok E (currentTerm n) e"
    using assms(2) e by (auto simp: entry_ok_def)
  ultimately show ?thesis
    using n l assms(3) by (auto simp: n' node_ok_def keeps_next_def appendEntry_def)
qed

lemma replicateReply_ok:
  assumes "node_ok E n" "Index e \<noteq> - 1" "replicateReply p e t r n = (x, n')"
  shows "node_ok E n' \<and> keeps_next n n'"
proof -
  have "Index e + 1 \<noteq> 0"
    using assms(2) by (metis add_eq_0_iff2)
  then have k: "keeps_next n n'"
    using assms(3) by (auto simp: replicateReply_def keeps_next_def split: if_splits)
  moreover have "node_ok E n'"
    by (rule node_ok_same_log [OF assms(1) _ _ _ k])
      (use assms(3) in \<open>auto simp: replicateReply_def split: if_splits\<close>)
  ultimately show ?thesis by simp
qed

lemma heartbeatReply_ok:
  assumes n: "node_ok E n" and a: "args_ok E args"
  shows "\<exists>n' go. heartbeatReply p args r n = Some (n', go) \<and> node_ok E n' \<and> keeps_next n n'"
proof -
  let ?new = "aePrevLogIndex args + of_nat (length (aeEntries args))"
  have "unat ?new < 2 ^ 64 - 1"
    using a by (simp add: args_ok_def unat_word_ariths unat_of_nat)
  then have new: "?new + 1 \<noteq> 0"
    using word_not_max by (metis add_eq_0_iff2)
  have adv: "\<exists>x. advanceCommitIndex m = Some (m\<lparr>commitIndex := x\<rparr>)" if "nlog m = nlog n" for m
    using advanceLoop_returns [OF lastIndex_not_max(1) [OF n]] that by (auto simp: advanceCommitIndex_def)
  have "\<exists>n' go. heartbeatReply p args r n = Some (n', go) \<and> nlog n' = nlog n \<and> currentTerm n' = currentTerm n \<and>
      peers n' = peers n \<and> nstate n' = nstate n \<and> keeps_next n n'"
  proof (cases "arSuccess r \<and> \<not> aeTerm args < arTerm r \<and> aeEntries args \<noteq> []")
    case True
    let ?m = "n\<lparr>Metrics := (Metrics n)\<lparr>HeartbeatsSent := HeartbeatsSent (Metrics n) + 1\<rparr>\<rparr>"
    let ?u = "?m\<lparr>matchIndex := (matchIndex n)(p := ?new), nextIndex := (nextIndex n)(p := ?new + 1)\<rparr>"
    obtain x y where "advanceCommitIndex ?m = Some (?m\<lparr>commitIndex := x\<rparr>)" "advanceCommitIndex ?u = Some (?u\<lparr>commitIndex := y\<rparr>)"
      using adv [of ?m] adv [of ?u] by auto
    with True new show ?thesis
      by (auto simp: heartbeatReply_def Let_def keeps_next_def)
  next
    case False
    then show ?thesis
      by (auto simp: heartbeatReply_def Let_def keeps_next_def)
  qed
  then show ?thesis
    using node_ok_same_log [OF n] by (metis order.refl)
qed


subsection \<open>Every step keeps the invariant\<close>

lemma log_invD: "log_inv c \<Longrightarrow> node_ok (set (elected c)) (node c i)"
  "log_inv c \<Longrightarrow> AppReq p args \<in> set (msgs c) \<Longrightarrow> args_ok (set (elected c)) args"
  "log_inv c \<Longrightarrow> t \<in> set (tasks c) \<Longrightarrow> task_ok (set (elected c)) (node c) t"
  by (auto simp: log_inv_def)

lemma beats_ok:
  "log_inv c \<Longrightarrow> nstate (node c i) = Leader \<Longrightarrow> p \<in> set (peers (node c i)) \<Longrightarrow> nextIndex (node c i) p \<noteq> 0"
  using log_invD(1) [of c i] by (simp add: node_ok_def)

lemma log_step_quiet:
  "log_inv c \<Longrightarrow> act_top i c = Some c' \<Longrightarrow> log_inv c'"
  "log_inv c \<Longrightarrow> act_tick i c = Some c' \<Longrightarrow> log_inv c'"
  "log_inv c \<Longrightarrow> act_vote_error i p c = Some c' \<Longrightarrow> log_inv c'"
  "log_inv c \<Longrightarrow> act_election_over i c = Some c' \<Longrightarrow> log_inv c'"
  "log_inv c \<Longrightarrow> act_drop m c = Some c' \<Longrightarrow> log_inv c'"
       apply (rule log_frame_same, assumption; auto simp: act_top_def cluster_defs beats_ok split: if_splits NodeState.splits)
      apply (rule log_frame_same, assumption; auto simp: act_tick_def cluster_defs beats_ok split: if_splits)
     apply (rule log_frame_same, assumption; auto simp: act_vote_error_def cluster_defs split: if_splits loop_pc.splits)
    apply (rule log_frame_same, assumption; auto simp: act_election_over_def cluster_defs split: loop_pc.splits)
   apply (rule log_frame_same, assumption; auto simp: act_drop_def dest: in_remove1 split: if_splits)
  done

lemma log_step_client:
  "log_inv c \<Longrightarrow> act_hb_error i p args c = Some c' \<Longrightarrow> log_inv c'"
  "log_inv c \<Longrightarrow> act_rep_error i p e t lc args c = Some c' \<Longrightarrow> log_inv c'"
  "log_inv c \<Longrightarrow> act_client_timeout i e acks waiting c = Some c' \<Longrightarrow> log_inv c'"
     apply (rule log_frame_same, assumption; auto simp: act_hb_error_def dest: in_remove1 split: if_splits)
    apply (rule log_frame_same, assumption; auto simp: act_rep_error_def dest: in_remove1 split: if_splits)
   apply (rule log_frame_same, assumption; auto simp: act_client_timeout_def dest: in_remove1 split: if_splits)
  done

lemma log_step_hb_send:
  assumes inv: "log_inv c" and act: "act_hb_send i p c = Some c'"
  shows "log_inv c'"
proof -
  have t: "HbStart i p \<in> set (tasks c)"
    using act by (simp add: act_hb_send_def split: if_splits)
  then have p: "nextIndex (node c i) p \<noteq> 0"
    using log_invD(3) [OF inv] by fastforce
  show ?thesis
    by (rule log_frame_same [OF inv])
      (use act t p heartbeatArgs_ok [OF log_invD(1) [OF inv, of i] p] in
        \<open>auto simp: act_hb_send_def Let_def dest: in_remove1\<close>)
qed

lemma log_step_rep_send:
  assumes inv: "log_inv c" and act: "act_rep_send i p e t lc c = Some c'"
  shows "log_inv c'"
proof -
  have t: "RepStart i p e t lc \<in> set (tasks c)"
    using act by (simp add: act_rep_send_def split: if_splits)
  then have p: "nextIndex (node c i) p \<noteq> 0" "Index e \<noteq> - 1"
    using log_invD(3) [OF inv] by fastforce+
  show ?thesis
    by (rule log_frame_same [OF inv])
      (use act t p replicateArgs_ok [OF log_invD(1) [OF inv, of i] p, of t lc] in
        \<open>auto simp: act_rep_send_def dest: in_remove1 split: option.splits\<close>)
qed

text \<open>The steps of one node that leave its log, its state and its next indices alone.\<close>

lemma log_step_local:
  "log_inv c \<Longrightarrow> act_timeout i c = Some c' \<Longrightarrow> log_inv c'"
  "log_inv c \<Longrightarrow> act_reset i c = Some c' \<Longrightarrow> log_inv c'"
  "log_inv c \<Longrightarrow> act_stepdown i c = Some c' \<Longrightarrow> log_inv c'"
proof -
  assume inv: "log_inv c"
  note n = log_invD(1) [OF inv, of i]
  let ?n = "(node c i)\<lparr>nstate := Candidate\<rparr>" and ?r = "(node c i)\<lparr>resetTimerCh := resetTimerCh (node c i) - 1\<rparr>"
  have 1: "node_ok (set (elected c)) ?n" "node_ok (set (elected c)) ?r"
    by (rule node_ok_same_log [OF n]; simp add: keeps_next_def)+
  have 2: "node_ok (set (elected c)) (becomeFollower t ((node c i)\<lparr>stepDownCh := ts\<rparr>))" for t ts
    by (rule node_ok_same_log [OF n]) (simp_all add: keeps_next_def)
  show "act_timeout i c = Some c' \<Longrightarrow> log_inv c'"
    by (rule log_frame [OF inv, of c' i ?n])
      (use 1 in \<open>auto simp: act_timeout_def cluster_defs keeps_next_def split: if_splits\<close>)
  show "act_reset i c = Some c' \<Longrightarrow> log_inv c'"
    by (rule log_frame [OF inv, of c' i ?r])
      (use 1 in \<open>auto simp: act_reset_def cluster_defs keeps_next_def split: if_splits\<close>)
  show "act_stepdown i c = Some c' \<Longrightarrow> log_inv c'"
    by (rule log_frame [OF inv, of c' i "becomeFollower (hd (stepDownCh (node c i))) ((node c i)\<lparr>stepDownCh := tl (stepDownCh (node c i))\<rparr>)"])
      (use 2 in \<open>auto simp: act_stepdown_def cluster_defs keeps_next_def split: if_splits list.splits\<close>)
qed

lemma log_step_election:
  assumes inv: "log_inv c" and act: "act_election i c = Some c'"
  shows "log_inv c'"
proof -
  obtain args n where s: "startElection (node c i) = (args, n)"
    by (metis surj_pair)
  note f = startElection_facts [OF s]
  have g: "currentTerm (node c i) \<noteq> - 1"
    using act by (simp add: act_election_def split: if_splits)
  then have "currentTerm (node c i) < - 1"
    using word_order.extremum [of "currentTerm (node c i)"] by (simp add: order.not_eq_order_implies_strict)
  then have "unat (currentTerm (node c i)) \<le> unat (currentTerm n)"
    using f unat_plus_1 [of "currentTerm (node c i)" "- 1"] by simp
  then have n: "node_ok (set (elected c)) n"
    by (intro node_ok_same_log [OF log_invD(1) [OF inv, of i]]) (use f in \<open>auto simp: keeps_next_def word_le_nat_alt\<close>)
  show ?thesis
    by (rule log_frame [OF inv, of c' i n])
      (use act s n f in \<open>auto simp: act_election_def cluster_defs keeps_next_def split: if_splits\<close>)
qed

lemma log_step_vote:
  assumes inv: "log_inv c" and act: "act_vote i p args reply c = Some c'"
  shows "log_inv c'"
proof -
  note n = log_invD(1) [OF inv, of i]
  have bf: "node_ok (set (elected c)) (becomeFollower t (node c i)) \<and> keeps_next (node c i) (becomeFollower t (node c i))" for t
    by (auto intro!: node_ok_same_log [OF n] simp: keeps_next_def)
  have bl: "node_ok (set (elected c)) (becomeLeader t (node c i)) \<and> keeps_next (node c i) (becomeLeader t (node c i))" for t
    using becomeLeader_ok [OF n] by simp
  from act obtain t votes waiting where pc: "pc c i = InCandidate t votes waiting" and g: "p \<in> set waiting"
      "VoteRep p args reply \<in> set (msgs c)" "rvCandidateID args = i" "rvTerm args = t"
    by (auto simp: act_vote_def split: loop_pc.splits if_splits)
  consider (higher) "t < rrTerm reply" | (won) "\<not> t < rrTerm reply" "rrVoteGranted reply" "majority (node c i) \<le> votes + 1"
    | (other) "\<not> t < rrTerm reply" "\<not> (rrVoteGranted reply \<and> majority (node c i) \<le> votes + 1)"
    by blast
  then show ?thesis
  proof cases
    case higher
    with act pc g bf show ?thesis
      by (intro log_frame [OF inv, of c' i "becomeFollower (rrTerm reply) (node c i)"])
        (auto simp: act_vote_def cluster_defs Let_def dest: in_remove1)
  next
    case won
    have sub: "set (elected c) \<subseteq> set (elected c')"
      using won act pc g by (auto simp: act_vote_def cluster_defs Let_def)
    show ?thesis
      by (rule log_frame [OF inv, of c' i "becomeLeader t (node c i)"])
        (use won act pc g sub bl [of t] node_ok_mono [OF _ sub, of "becomeLeader t (node c i)"] in
          \<open>auto simp: act_vote_def cluster_defs Let_def dest: in_remove1\<close>)
  next
    case other
    with act pc g show ?thesis
      by (intro log_frame_same [OF inv])
        (auto simp: act_vote_def cluster_defs Let_def dest: in_remove1 split: if_splits)
  qed
qed


lemma log_step_deliver:
  assumes inv: "log_inv c" and act: "act_deliver m c = Some c'"
  shows "log_inv c'"
proof (cases m)
  case (AppReq p args)
  with act have m: "AppReq p args \<in> set (msgs c)"
    by (auto simp: act_deliver_def split: if_splits)
  obtain r n go where h: "HandleAppendEntries args (node c p) = (r, n, go)"
    by (metis prod.collapse)
  note n = handle_append_ok [OF h log_invD(1) [OF inv] log_invD(2) [OF inv m]]
  show ?thesis
    by (rule log_frame [OF inv, of c' p n])
      (use act AppReq m h n in \<open>auto simp: act_deliver_def cluster_defs dest: in_remove1 split: if_splits\<close>)
next
  case (VoteReq p args)
  with act have m: "VoteReq p args \<in> set (msgs c)"
    by (auto simp: act_deliver_def split: if_splits)
  obtain r n where h: "HandleRequestVote args (node c p) = (r, n)"
    by (metis surj_pair)
  note f = HandleRequestVote_facts [OF h]
  have n: "node_ok (set (elected c)) n"
    by (rule node_ok_same_log [OF log_invD(1) [OF inv, of p]])
      (use f(1,5,6,9,11) in \<open>auto simp: keeps_next_def split: if_splits\<close>)
  show ?thesis
    by (rule log_frame [OF inv, of c' p n])
      (use act VoteReq m h n f(11) in \<open>auto simp: act_deliver_def cluster_defs keeps_next_def dest: in_remove1\<close>)
qed (use act in \<open>auto simp: act_deliver_def split: if_splits\<close>)

lemma log_step_hb_reply:
  assumes inv: "log_inv c" and act: "act_hb_reply i p args reply c = Some c'"
  shows "log_inv c'"
proof -
  have t: "HbWait i p args \<in> set (tasks c)"
    using act by (simp add: act_hb_reply_def split: if_splits)
  then have a: "args_ok (set (elected c)) args"
    using log_invD(3) [OF inv] by fastforce
  obtain n go where h: "heartbeatReply p args reply (node c i) = Some (n, go)"
      and n: "node_ok (set (elected c)) n" "keeps_next (node c i) n"
    using heartbeatReply_ok [OF log_invD(1) [OF inv, of i] a] by blast
  show ?thesis
    by (rule log_frame [OF inv, of c' i n])
      (use act h n in \<open>auto simp: act_hb_reply_def cluster_defs dest: in_remove1 split: if_splits\<close>)
qed

lemma log_step_replicate:
  assumes inv: "log_inv c" and v: "voting_inv ms c" and act: "act_replicate i cmd c = Some c'"
  shows "log_inv c'"
proof -
  obtain e n where s: "replicateStart cmd (node c i) = Some (e, n)" and l: "length (nlog (node c i)) < 2 ^ 64 - 1"
    using act by (auto simp: act_replicate_def split: if_splits option.splits)
  then have "nstate (node c i) = Leader"
    by (simp add: replicateStart_def IsLeader_def split: if_splits)
  then have "(currentTerm (node c i), i) \<in> set (elected c)"
    using v by (simp add: voting_inv_def elected_inv_def)
  note n = replicateStart_ok [OF log_invD(1) [OF inv, of i] this l s]
  show ?thesis
    by (rule log_frame [OF inv, of c' i n])
      (use act s l n in \<open>auto simp: act_replicate_def cluster_defs split: if_splits\<close>)
qed

lemma log_step_rep_reply:
  assumes inv: "log_inv c" and act: "act_rep_reply i p e t lc args reply c = Some c'"
  shows "log_inv c'"
proof -
  have t: "RepWait i p e t lc args \<in> set (tasks c)"
    using act by (simp add: act_rep_reply_def split: if_splits)
  then have a: "Index e \<noteq> - 1" "nextIndex (node c i) p \<noteq> 0"
    using log_invD(3) [OF inv] by fastforce+
  obtain x n where h: "replicateReply p e t reply (node c i) = (x, n)"
    by (metis surj_pair)
  note n = replicateReply_ok [OF log_invD(1) [OF inv, of i] a(1) h]
  show ?thesis
    by (rule log_frame [OF inv, of c' i n])
      (use act h n a in \<open>auto simp: act_rep_reply_def cluster_defs keeps_next_def dest: in_remove1 split: if_splits replicate_next.splits\<close>)
qed

lemma log_step_ack:
  assumes inv: "log_inv c" and act: "act_ack i e acks waiting p ok c = Some c'"
  shows "log_inv c'"
proof -
  have "node_ok (set (elected c)) (replicateCommit e (node c i))"
    by (rule node_ok_same_log [OF log_invD(1) [OF inv, of i]]) (auto simp: replicateCommit_def keeps_next_def split: if_splits)
  moreover have "keeps_next (node c i) (replicateCommit e (node c i))"
    by (simp add: replicateCommit_def keeps_next_def)
  ultimately have commit: "ok \<and> majority (node c i) \<le> acks + 1 \<Longrightarrow> log_inv c'"
    by (intro log_frame [OF inv, of c' i "replicateCommit e (node c i)"])
      (use act in \<open>auto simp: act_ack_def cluster_defs Let_def dest!: in_remove1 split: if_splits\<close>)
  have "log_inv c'" if "\<not> (ok \<and> majority (node c i) \<le> acks + 1)"
    by (rule log_frame_same [OF inv])
      (use act that in \<open>auto simp: act_ack_def Let_def dest!: in_remove1 split: if_splits\<close>)
  with commit show ?thesis by blast
qed

lemma log_step_apply:
  assumes inv: "log_inv c"
  shows "act_apply i c = Some c' \<Longrightarrow> log_inv c'" "act_apply_send i cmds c = Some c' \<Longrightarrow> log_inv c'"
proof -
  note n = log_invD(1) [OF inv, of i]
  have 1: "node_ok (set (elected c)) ((node c i)\<lparr>lastApplied := x\<rparr>)" for x
    by (rule node_ok_same_log [OF n]; simp add: keeps_next_def)
  have 2: "node_ok (set (elected c)) ((node c i)\<lparr>applyCh := x\<rparr>)" for x
    by (rule node_ok_same_log [OF n]; simp add: keeps_next_def)
  show "act_apply i c = Some c' \<Longrightarrow> log_inv c'"
    by (rule log_frame [OF inv, of c' i "snd (applyCommitted (node c i))"])
      (use 1 in \<open>auto simp: act_apply_def applyCommitted_def cluster_defs keeps_next_def dest: in_remove1 split: if_splits\<close>)
  assume act: "act_apply_send i cmds c = Some c'"
  show "log_inv c'"
  proof (cases "applyCh (node c i) = None \<or> cmds = []")
    case True
    with act show ?thesis
      by (intro log_frame_same [OF inv]) (auto simp: act_apply_send_def dest: in_remove1 split: if_splits option.splits)
  next
    case False
    with act show ?thesis
      by (intro log_frame [OF inv, of c' i "(node c i)\<lparr>applyCh := Some (the (applyCh (node c i)) @ [hd cmds])\<rparr>"])
        (auto simp: act_apply_send_def 2 cluster_defs keeps_next_def dest: in_remove1 split: if_splits list.splits)
  qed
qed

lemma log_step:
  assumes "log_inv c" "voting_inv ms c" "exec a c = Some c'"
  shows "log_inv c'"
  using assms
  by (cases a)
    (auto intro: log_step_quiet log_step_client log_step_hb_send log_step_rep_send log_step_local log_step_election
      log_step_vote log_step_deliver log_step_hb_reply log_step_replicate log_step_rep_reply log_step_ack log_step_apply)

lemma reachable_log:
  assumes "reachable ms c" "distinct ms" "[] \<notin> set ms"
  shows "log_inv c"
  using assms(1)
proof induction
  case init
  show ?case by (rule log_inv_init)
next
  case (step c a c')
  then show ?case
    using log_step reachable_voting [OF step(1) assms(2,3)] by blast
qed

subsection \<open>What it gives\<close>

text \<open>
  C4. In every reachable state of every cluster the log of every node is well formed (the
  entry at position \<open>i\<close> has index \<open>i\<close>, the first is the sentinel), and every other entry carries
  a term that is at most the node's own and in which some node was elected. Every request to
  append entries that is in flight carries consecutive entries with the same property.
\<close>

theorem logs_well_formed:
  assumes "reachable ms c" and "distinct ms" and "[] \<notin> set ms"
  shows "(\<forall>i. log_wf (nlog (node c i)) \<and>
      (\<forall>k. 0 < k \<longrightarrow> k < length (nlog (node c i)) \<longrightarrow>
         Term (nlog (node c i) ! k) \<le> currentTerm (node c i) \<and> (\<exists>j. (Term (nlog (node c i) ! k), j) \<in> set (elected c)))) \<and>
    (\<forall>p args. AppReq p args \<in> set (msgs c) \<longrightarrow> args_wf args \<and>
      (\<forall>e \<in> set (aeEntries args). Term e \<le> aeTerm args \<and> (\<exists>j. (Term e, j) \<in> set (elected c))))"
proof -
  have inv: "log_inv c"
    by (rule reachable_log [OF assms])
  have "entry_ok (set (elected c)) (currentTerm (node c i)) (nlog (node c i) ! k)"
    if "0 < k" "k < length (nlog (node c i))" for i k
  proof -
    have "nlog (node c i) ! k \<in> set (tl (nlog (node c i)))"
      using that nth_mem [of "k - 1" "tl (nlog (node c i))"] by (simp add: nth_tl)
    with log_invD(1) [OF inv, of i] show ?thesis
      by (simp add: node_ok_def)
  qed
  then show ?thesis
    using log_invD(1,2) [OF inv] unfolding node_ok_def args_ok_def entry_ok_def by blast
qed

theorem logs_well_formed_witness:
  "\<exists>c. reachable members3 c \<and> length (nlog (node c ''C'')) = 2 \<and> log_wf (nlog (node c ''C'')) \<and>
     Term (nlog (node c ''C'') ! 1) \<le> currentTerm (node c ''C'')"
proof -
  have "\<exists>c. reachable members3 c \<and> length (nlog (node c ''C'')) = 2"
    by (rule run_reaches [of "elect_with ''A'' ''C'' 1 0 0 @ commit_first ''A'' ''C'' 1 ''x'' [''B'', ''C'']"])
      (simp_all add: run_simps)
  then obtain c where "reachable members3 c" "length (nlog (node c ''C'')) = 2"
    by blast
  then show ?thesis
    using logs_well_formed [of members3 c] members3_ok by auto
qed

text \<open>
  C22. No goroutine hangs in a loop over log indices: in every reachable state the loops of
  \<^verbatim>\<open>replicateToPeer\<close> and of \<^verbatim>\<open>advanceCommitIndex\<close> (run for any reply to a heartbeat) return, so the
  next step of every such goroutine is enabled.
\<close>

theorem index_loops_return:
  assumes "reachable ms c" and "distinct ms" and "[] \<notin> set ms"
  shows "(\<forall>i p e t lc. RepStart i p e t lc \<in> set (tasks c) \<longrightarrow> exec (RepSend i p e t lc) c \<noteq> None) \<and>
    (\<forall>i p args reply. HbWait i p args \<in> set (tasks c) \<longrightarrow> AppRep p args reply \<in> set (msgs c) \<longrightarrow>
       exec (HbReply i p args reply) c \<noteq> None)"
proof -
  have inv: "log_inv c"
    by (rule reachable_log [OF assms])
  have "exec (RepSend i p e t lc) c \<noteq> None" if t: "RepStart i p e t lc \<in> set (tasks c)" for i p e t lc
  proof -
    have "nextIndex (node c i) p \<noteq> 0" "Index e \<noteq> - 1"
      using log_invD(3) [OF inv t] by simp_all
    then obtain r where "replicateArgs p e t lc (node c i) = Some r"
      using replicateArgs_ok [OF log_invD(1) [OF inv, of i]] by blast
    with t show ?thesis
      by (cases r) (simp_all add: act_rep_send_def)
  qed
  moreover have "exec (HbReply i p args reply) c \<noteq> None"
    if "HbWait i p args \<in> set (tasks c)" "AppRep p args reply \<in> set (msgs c)" for i p args reply
  proof -
    have "args_ok (set (elected c)) args"
      using log_invD(3) [OF inv that(1)] by simp
    then obtain n go where "heartbeatReply p args reply (node c i) = Some (n, go)"
      using heartbeatReply_ok [OF log_invD(1) [OF inv, of i]] by blast
    with that show ?thesis
      by (simp add: act_hb_reply_def)
  qed
  ultimately show ?thesis by blast
qed

theorem index_loops_return_witness:
  "\<exists>c e. reachable members3 c \<and> RepStart ''A'' ''B'' e 1 0 \<in> set (tasks c) \<and>
     exec (RepSend ''A'' ''B'' e 1 0) c \<noteq> None"
proof -
  have "\<exists>c. reachable members3 c \<and> RepStart ''A'' ''B'' (mk_entry 1 1 ''x'') 1 0 \<in> set (tasks c)"
    by (rule run_reaches [of "elect_with ''A'' ''C'' 1 0 0 @ [Replicate ''A'' ''x'']"]) (simp_all add: run_simps)
  then obtain c where "reachable members3 c" "RepStart ''A'' ''B'' (mk_entry 1 1 ''x'') 1 0 \<in> set (tasks c)"
    by blast
  then show ?thesis
    using index_loops_return [of members3 c] members3_ok by blast
qed

end
