(* ===== verification/Raft_Scenarios.thy ===== *)
theory Raft_Scenarios
  imports Raft_Log_Safety
begin

text \<open>
  Runs of a cluster of three nodes in which the guarantees one expects of Raft beyond election
  safety do not hold. Each run is a list of actions that the model executes, so the state at
  its end is reachable.
\<close>

subsection \<open>A heartbeat commits what the leader does not have\<close>

text \<open>
  \<open>A\<close> is elected in term 1 and stores \<open>x\<close> without reaching anybody. \<open>B\<close> is elected in term 2, and
  \<open>y\<close> is committed by \<open>B\<close> and \<open>C\<close> and applied. \<open>C\<close> is elected in term 3. Its heartbeat to \<open>A\<close>
  carries no entries and previous index 0, so \<open>A\<close> accepts it without a comparison of the logs,
  takes over the commit index and applies \<open>x\<close>.
\<close>

definition divergence_run :: "action list" where
  "divergence_run =
     elect_with ''A'' ''B'' 1 0 0 @ [Replicate ''A'' ''x''] @
     elect_with ''B'' ''C'' 2 0 0 @ commit_first ''B'' ''C'' 2 ''y'' [''A'', ''C''] @
     [Top ''B'', HbSend ''B'' ''C'', Deliver (AppReq ''C'' (append_request 2 ''B'' [] 1))] @
     elect_with ''C'' ''B'' 3 1 2 @
     [Top ''C'', HbSend ''C'' ''A'', Deliver (AppReq ''A'' (append_request 3 ''C'' [] 1)), ApplyNext ''A'',
      SendCommand ''A'' [''x'']]"

text \<open>
  C24. State machine safety does not hold: a state is reachable in which \<open>A\<close> has applied \<open>x\<close> and \<open>B\<close>
  has applied \<open>y\<close> as its first command, with no crash, no lost message and no restart.
\<close>

theorem replicas_apply_different_commands:
  "\<exists>c. reachable members3 c \<and> applyCh (node c ''A'') = Some [''x''] \<and> applyCh (node c ''B'') = Some [''y'']"
proof (rule run_reaches)
  show "\<exists>c. run_actions divergence_run (init_cluster members3) = Some c \<and>
      applyCh (node c ''A'') = Some [''x''] \<and> applyCh (node c ''B'') = Some [''y'']"
    unfolding divergence_run_def by (simp add: run_simps)
  show "members_only members3 divergence_run"
    by (simp add: divergence_run_def run_defs members3_def Let_def)
qed

subsection \<open>A deposed leader overwrites the log of the leader\<close>

text \<open>
  \<open>A\<close>, leader of term 1, stores \<open>x\<close> and starts a heartbeat. Before its goroutine runs, \<open>B\<close> asks \<open>A\<close>
  for its vote in term 2, which makes \<open>A\<close> a follower of term 2, is elected by \<open>C\<close>, and commits and
  applies \<open>y\<close>. The goroutine does not look at the state of the node again, takes the current term 2
  for its request and sends \<open>x\<close> to \<open>B\<close>.
\<close>

definition overwrite_run :: "action list" where
  "overwrite_run =
     elect_with ''A'' ''B'' 1 0 0 @ [Top ''A'', Replicate ''A'' ''x''] @
     [Top ''B'', Timeout ''B'', Top ''B'', StartElection ''B'', Deliver (VoteReq ''A'' (vote_request 2 ''B'' 0 0)),
      Deliver (VoteReq ''C'' (vote_request 2 ''B'' 0 0)), TakeVote ''B'' ''C'' (vote_request 2 ''B'' 0 0) (vote_yes 2)] @
     commit_first ''B'' ''C'' 2 ''y'' [''A'', ''C''] @
     [HbSend ''A'' ''B'', Deliver (AppReq ''B'' (append_request 2 ''A'' [mk_entry 1 1 ''x''] 0))]"

text \<open>
  C25. A leader does not keep its log: a state is reachable in which \<open>B\<close> is the leader of term 2 and
  has applied \<open>y\<close>, but its log holds the entry \<open>x\<close> of term 1 in the place of \<open>y\<close>, sent by a node that
  was never elected in term 2.
\<close>

theorem leader_log_is_overwritten:
  "\<exists>c. reachable members3 c \<and> nstate (node c ''B'') = Leader \<and> currentTerm (node c ''B'') = 2 \<and>
     applyCh (node c ''B'') = Some [''y''] \<and> map Command (tl (nlog (node c ''B''))) = [''x''] \<and>
     (2, ''A'') \<notin> set (elected c)"
proof (rule run_reaches)
  show "\<exists>c. run_actions overwrite_run (init_cluster members3) = Some c \<and> nstate (node c ''B'') = Leader \<and>
     currentTerm (node c ''B'') = 2 \<and> applyCh (node c ''B'') = Some [''y''] \<and>
     map Command (tl (nlog (node c ''B''))) = [''x''] \<and> (2, ''A'') \<notin> set (elected c)"
    unfolding overwrite_run_def by (simp add: run_simps)
  show "members_only members3 overwrite_run"
    by (simp add: overwrite_run_def run_defs members3_def Let_def)
qed

subsection \<open>Two entries with the same index and term\<close>

text \<open>
  The same deposed leader, when \<open>B\<close> has two entries of term 2 and \<open>C\<close> has both: its heartbeat cuts the
  log of \<open>B\<close>, and the next command of \<open>B\<close> takes an index and a term that \<open>C\<close> has for another command.
\<close>

definition mismatch_run :: "action list" where
  "mismatch_run =
     elect_with ''A'' ''B'' 1 0 0 @ [Top ''A'', Replicate ''A'' ''x''] @
     [Top ''B'', Timeout ''B'', Top ''B'', StartElection ''B'', Deliver (VoteReq ''A'' (vote_request 2 ''B'' 0 0)),
      Deliver (VoteReq ''C'' (vote_request 2 ''B'' 0 0)), TakeVote ''B'' ''C'' (vote_request 2 ''B'' 0 0) (vote_yes 2),
      Replicate ''B'' ''y1'', Replicate ''B'' ''y2'', RepSend ''B'' ''C'' (mk_entry 2 2 ''y2'') 2 0,
      Deliver (AppReq ''C'' (append_request 2 ''B'' [mk_entry 2 1 ''y1'', mk_entry 2 2 ''y2''] 0)),
      HbSend ''A'' ''B'', Deliver (AppReq ''B'' (append_request 2 ''A'' [mk_entry 1 1 ''x''] 0)), Replicate ''B'' ''z'']"

text \<open>
  C26. Log Matching does not hold of all runs: a state is reachable in which \<open>B\<close> and \<open>C\<close> have an entry
  with the same index and the same term, but with different commands and different entries before.
\<close>

theorem log_matching_fails:
  "\<exists>c. reachable members3 c \<and> Term (nlog (node c ''B'') ! 2) = Term (nlog (node c ''C'') ! 2) \<and>
     map Command (nlog (node c ''B'')) = [[], ''x'', ''z''] \<and> map Command (nlog (node c ''C'')) = [[], ''y1'', ''y2'']"
proof (rule run_reaches)
  show "\<exists>c. run_actions mismatch_run (init_cluster members3) = Some c \<and> Term (nlog (node c ''B'') ! 2) = Term (nlog (node c ''C'') ! 2) \<and>
     map Command (nlog (node c ''B'')) = [[], ''x'', ''z''] \<and> map Command (nlog (node c ''C'')) = [[], ''y1'', ''y2'']"
    unfolding mismatch_run_def by (simp add: run_simps)
  show "members_only members3 mismatch_run"
    by (simp add: mismatch_run_def run_defs members3_def Let_def)
qed

subsection \<open>Commands overtake each other\<close>

text \<open>
  \<open>A\<close> commits \<open>x\<close>; its goroutine takes \<open>x\<close> under the mutex but has not sent it yet when \<open>y\<close> is
  committed by a second call of \<^verbatim>\<open>Replicate\<close>, whose goroutine sends \<open>y\<close> first.
\<close>

definition overtaking_run :: "action list" where
  "overtaking_run =
     elect_with ''A'' ''B'' 1 0 0 @ butlast (commit_first ''A'' ''B'' 1 ''x'' [''B'', ''C'']) @
     (let e = mk_entry 1 2 ''y'';
          args = \<lparr>aeTerm = 1, aeLeaderID = ''A'', aePrevLogIndex = 1, aePrevLogTerm = 1, aeEntries = [e], aeLeaderCommit = 1\<rparr>
      in [Replicate ''A'' ''y'', RepSend ''A'' ''B'' e 1 1, Deliver (AppReq ''B'' args),
          RepReply ''A'' ''B'' e 1 1 args (append_ok 1), TakeAck ''A'' e 1 [''B'', ''C''] ''B'' True, ApplyNext ''A'',
          SendCommand ''A'' [''y''], SendCommand ''A'' [''x'']])"

text \<open>
  C28. Commands are not always applied in log order: a state is reachable in which the log of the
  leader holds \<open>x\<close> before \<open>y\<close>, both committed, and the store was sent \<open>y\<close> before \<open>x\<close>.
\<close>

theorem commands_overtake:
  "\<exists>c. reachable members3 c \<and> commitIndex (node c ''A'') = 2 \<and>
     map Command (tl (nlog (node c ''A''))) = [''x'', ''y''] \<and> applyCh (node c ''A'') = Some [''y'', ''x'']"
proof (rule run_reaches)
  show "\<exists>c. run_actions overtaking_run (init_cluster members3) = Some c \<and> commitIndex (node c ''A'') = 2 \<and>
     map Command (tl (nlog (node c ''A''))) = [''x'', ''y''] \<and> applyCh (node c ''A'') = Some [''y'', ''x'']"
    unfolding overtaking_run_def by (simp add: run_simps)
  show "members_only members3 overtaking_run"
    by (simp add: overtaking_run_def run_defs members3_def Let_def)
qed

subsection \<open>A restarted node votes again\<close>

text \<open>
  The process of \<^verbatim>\<open>cmd/node\<close> starts with \<^verbatim>\<open>NewNode\<close> whenever it is started: term, vote and log are
  not on disk. A restart ends all goroutines of the node.
\<close>

fun task_of :: "string \<Rightarrow> task \<Rightarrow> bool" where
  "task_of i (HbStart j p) = (i = j)"
| "task_of i (HbWait j p args) = (i = j)"
| "task_of i (RepStart j p e t lc) = (i = j)"
| "task_of i (RepWait j p e t lc args) = (i = j)"
| "task_of i (RepDone j p e b) = (i = j)"
| "task_of i (Client j e acks waiting) = (i = j)"
| "task_of i (ApplyStart j) = (i = j)"
| "task_of i (ApplySend j cmds) = (i = j)"

definition restart :: "string \<Rightarrow> cluster \<Rightarrow> cluster" where
  "restart i c =
     set_pc i AtTop (set_node i (NewNode i (peers (node c i)) True) (c\<lparr>tasks := filter (\<lambda>t. \<not> task_of i t) (tasks c)\<rparr>))"

text \<open>
  C29. Election safety needs that nodes do not restart: after a reachable state and one restart
  of a node that has voted, a run leads to two leaders of the same term.
\<close>

theorem restart_elects_two_leaders:
  "\<exists>c as c'. reachable members3 c \<and> run_actions as (restart ''B'' c) = Some c' \<and> members_only members3 as \<and>
     nstate (node c' ''A'') = Leader \<and> nstate (node c' ''C'') = Leader \<and>
     currentTerm (node c' ''A'') = currentTerm (node c' ''C'')"
proof -
  have "\<exists>c. run_actions (elect_with ''A'' ''B'' 1 0 0) (init_cluster members3) = Some c \<and>
    (\<exists>c'. run_actions (elect_with ''C'' ''B'' 1 0 0) (restart ''B'' c) = Some c' \<and>
       nstate (node c' ''A'') = Leader \<and> nstate (node c' ''C'') = Leader \<and>
       currentTerm (node c' ''A'') = currentTerm (node c' ''C''))"
    by (simp add: run_simps restart_def)
  moreover have "members_only members3 (elect_with ''A'' ''B'' 1 0 0)" "members_only members3 (elect_with ''C'' ''B'' 1 0 0)"
    by (simp_all add: run_defs members3_def)
  ultimately show ?thesis
    using run_from_init by blast
qed

end
