(* ===== verification/Raft_Log_Matching.thy ===== *)
theory Raft_Log_Matching
  imports Raft_Scenarios
begin

text \<open>
  The Log Matching property of Raft. In the code the goroutine of a heartbeat reads the term and
  the log of its node when it runs, and does not look whether the node still leads; a deposed
  leader can so send its own old log under the term of its successor. The property holds in all
  runs in which a heartbeat is only sent while its node leads, and fails in others.
\<close>

subsection \<open>Runs in which heartbeats are sent by leaders\<close>

definition leading :: "action \<Rightarrow> cluster \<Rightarrow> bool" where
  "leading a c \<longleftrightarrow> (case a of HbSend i p \<Rightarrow> nstate (node c i) = Leader | _ \<Rightarrow> True)"

inductive reachable_leading :: "string list \<Rightarrow> cluster \<Rightarrow> bool" for members where
  init: "reachable_leading members (init_cluster members)"
| step: "\<lbrakk>reachable_leading members c; \<forall>i. actor a = Some i \<longrightarrow> i \<in> set members; leading a c; exec a c = Some c'\<rbrakk> \<Longrightarrow>
    reachable_leading members c'"

text \<open>The runs from one state to a later one, and lists of actions that make them.\<close>

inductive leads_to :: "string list \<Rightarrow> cluster \<Rightarrow> cluster \<Rightarrow> bool" for members where
  refl: "leads_to members c c"
| step: "\<lbrakk>leads_to members c c'; \<forall>i. actor a = Some i \<longrightarrow> i \<in> set members; leading a c'; exec a c' = Some c''\<rbrakk> \<Longrightarrow>
    leads_to members c c''"

fun run_leading :: "action list \<Rightarrow> cluster \<Rightarrow> cluster option" where
  "run_leading [] c = Some c"
| "run_leading (a # as) c =
     (if leading a c then (case exec a c of None \<Rightarrow> None | Some c' \<Rightarrow> run_leading as c') else None)"

lemma reachable_leading_reachable: "reachable_leading ms c \<Longrightarrow> reachable ms c"
  by (induction rule: reachable_leading.induct) (auto intro: reachable.intros)

lemma leads_to_reachable: "leads_to ms c c' \<Longrightarrow> reachable_leading ms c \<Longrightarrow> reachable_leading ms c'"
  by (induction rule: leads_to.induct) (auto intro: reachable_leading.intros)

lemma leads_to_trans: "leads_to ms b c \<Longrightarrow> leads_to ms a b \<Longrightarrow> leads_to ms a c"
  by (induction rule: leads_to.induct) (auto intro: leads_to.intros)

lemma run_leads:
  "run_leading as c = Some c' \<Longrightarrow> members_only ms as \<Longrightarrow> leads_to ms c c'"
proof (induction "as" arbitrary: c)
  case Nil
  then show ?case
    by (simp add: leads_to.refl)
next
  case (Cons a "as")
  then obtain b where b: "leading a c" "exec a c = Some b" "run_leading as b = Some c'"
    by (auto split: if_splits option.splits)
  have "\<forall>i. actor a = Some i \<longrightarrow> i \<in> set ms"
    using Cons.prems(2) by auto
  then have "leads_to ms c b"
    by (rule leads_to.step [OF leads_to.refl _ b(1,2)])
  moreover have "leads_to ms b c'"
    by (rule Cons.IH [OF b(3)]) (use Cons.prems(2) in simp)
  ultimately show ?case
    using leads_to_trans by blast
qed

lemma run_leading_reaches:
  assumes "run_leading as (init_cluster ms) = Some c" "members_only ms as"
  shows "reachable_leading ms c"
  by (rule leads_to_reachable [OF run_leads [OF assms] reachable_leading.init])

lemmas leading_simps = run_simps leading_def

lemma commit_x_run:
  "\<exists>c. run_leading (elect_with ''A'' ''B'' 1 0 0 @ commit_first ''A'' ''B'' 1 ''x'' [''B'', ''C'']) (init_cluster members3) = Some c \<and>
     length (nlog (node c ''A'')) = 2 \<and> length (nlog (node c ''B'')) = 2 \<and>
     Term (nlog (node c ''A'') ! 1) = Term (nlog (node c ''B'') ! 1)"
  by (simp add: leading_simps)

subsection \<open>The invariant\<close>

definition good :: "(uint64 \<times> string) set \<Rightarrow> (uint64 \<Rightarrow> logStore) \<Rightarrow> logStore \<Rightarrow> bool" where
  "good E G l \<longleftrightarrow> take 1 l = newLogStore \<and> sorted (map Term l) \<and>
     (\<forall>k. 0 < k \<and> k < length l \<longrightarrow> (\<exists>j. (Term (l ! k), j) \<in> E) \<and> take (Suc k) l = take (Suc k) (G (Term (l ! k))))"

definition segment_of :: "AppendEntriesArgs \<Rightarrow> logStore \<Rightarrow> bool" where
  "segment_of args S \<longleftrightarrow> (let m = Suc (unat (aePrevLogIndex args)) in
     m + length (aeEntries args) \<le> length S \<and> aeEntries args = take (length (aeEntries args)) (drop m S) \<and>
     (aePrevLogIndex args \<noteq> 0 \<longrightarrow> aePrevLogTerm args = Term (S ! (m - 1))))"

text \<open>The other request a leader can send names a previous entry that no log has.\<close>

definition hopeless :: "AppendEntriesArgs \<Rightarrow> bool" where
  "hopeless args \<longleftrightarrow> aePrevLogIndex args \<noteq> 0 \<and> aePrevLogTerm args = 0 \<and> aeEntries args = []"

definition carried :: "(uint64 \<times> string) set \<Rightarrow> (uint64 \<Rightarrow> logStore) \<Rightarrow> string \<Rightarrow> AppendEntriesArgs \<Rightarrow> bool" where
  "carried E G p args \<longleftrightarrow> (segment_of args (G (aeTerm args)) \<or> hopeless args) \<and> (\<exists>j. (aeTerm args, j) \<in> E \<and> j \<noteq> p)"

fun apart :: "task \<Rightarrow> bool" where
  "apart (HbStart i p) \<longleftrightarrow> i \<noteq> p"
| "apart (RepStart i p e t lc) \<longleftrightarrow> i \<noteq> p"
| "apart (RepWait i p e t lc args) \<longleftrightarrow> i \<noteq> p"
| "apart _ \<longleftrightarrow> True"

definition match_inv :: "(uint64 \<Rightarrow> logStore) \<Rightarrow> cluster \<Rightarrow> bool" where
  "match_inv G c \<longleftrightarrow>
     (\<forall>i. good (set (elected c)) G (nlog (node c i))) \<and>
     (\<forall>i. nstate (node c i) = Leader \<longrightarrow> nlog (node c i) = G (currentTerm (node c i))) \<and>
     (\<forall>p args. AppReq p args \<in> set (msgs c) \<longrightarrow> carried (set (elected c)) G p args) \<and>
     (\<forall>t \<in> set (tasks c). apart t) \<and>
     (\<forall>t i. (t, i) \<in> set (elected c) \<longrightarrow> t \<le> currentTerm (node c i)) \<and>
     (\<forall>i t votes waiting. pc c i = InCandidate t votes waiting \<longrightarrow> (t, i) \<notin> set (elected c) \<and> t \<noteq> 0) \<and>
     (\<forall>t i. (t, i) \<in> set (elected c) \<longrightarrow> t \<noteq> 0 \<and> good (set (elected c)) G (G t) \<and> (\<forall>e \<in> set (G t). Term e \<le> t))"

lemma match_invD:
  assumes "match_inv G c"
  shows "good (set (elected c)) G (nlog (node c i))"
    "nstate (node c i) = Leader \<Longrightarrow> nlog (node c i) = G (currentTerm (node c i))"
    "AppReq p args \<in> set (msgs c) \<Longrightarrow> carried (set (elected c)) G p args"
    "t \<in> set (tasks c) \<Longrightarrow> apart t"
    "(u, i) \<in> set (elected c) \<Longrightarrow> u \<le> currentTerm (node c i)"
    "pc c i = InCandidate u votes waiting \<Longrightarrow> (u, i) \<notin> set (elected c) \<and> u \<noteq> 0"
    "(u, i) \<in> set (elected c) \<Longrightarrow> u \<noteq> 0 \<and> good (set (elected c)) G (G u) \<and> (\<forall>e \<in> set (G u). Term e \<le> u)"
  using assms unfolding match_inv_def by blast+

lemma good_new [simp]: "good E G newLogStore"
  by (simp add: good_def newLogStore_def)

lemma match_inv_init: "match_inv G (init_cluster ms)"
  by (simp add: match_inv_def init_cluster_def NewNode_def)

lemma good_nonempty: "good E G l \<Longrightarrow> Suc 0 \<le> length l"
  by (cases l) (auto simp: good_def newLogStore_def)

lemma good_take: "good E G l \<Longrightarrow> 0 < n \<Longrightarrow> good E G (take n l)"
  by (auto simp: good_def min_def take_map [symmetric] intro: sorted_wrt_take)

lemma good_same_term:
  assumes "good E G l" "good E G l'" "k < length l" "k < length l'" "Term (l ! k) = Term (l' ! k)"
  shows "take (Suc k) l = take (Suc k) l'"
proof (cases "k = 0")
  case True
  with assms(1,2) show ?thesis
    by (simp add: good_def)
next
  case False
  with assms show ?thesis
    by (simp add: good_def)
qed

text \<open>The logs of the terms only grow, by entries of their own term, and terms are added.\<close>

definition extends :: "(uint64 \<times> string) set \<Rightarrow> (uint64 \<Rightarrow> logStore) \<Rightarrow> (uint64 \<Rightarrow> logStore) \<Rightarrow> bool" where
  "extends E G G' \<longleftrightarrow> (\<forall>(t, j) \<in> E. \<exists>ys. G' t = G t @ ys \<and> (\<forall>e \<in> set ys. Term e = t))"

lemma extends_refl [simp]: "extends E G G"
  by (auto simp: extends_def)

lemma extendsE:
  assumes "extends E G G'" "(t, j) \<in> E"
  obtains ys where "G' t = G t @ ys" "\<forall>e \<in> set ys. Term e = t"
  using assms unfolding extends_def by blast

lemma good_mono:
  assumes "good E G l" "extends E G G'" "E \<subseteq> E'"
  shows "good E' G' l"
  unfolding good_def
proof (intro conjI allI impI)
  show "take 1 l = newLogStore" "sorted (map Term l)"
    using assms(1) by (simp_all add: good_def)
  fix k
  assume k: "0 < k \<and> k < length l"
  then obtain j where j: "(Term (l ! k), j) \<in> E" "take (Suc k) l = take (Suc k) (G (Term (l ! k)))"
    using assms(1) unfolding good_def by blast
  obtain ys where ys: "G' (Term (l ! k)) = G (Term (l ! k)) @ ys"
    using extendsE [OF assms(2) j(1)] by blast
  have "Suc k \<le> length (G (Term (l ! k)))"
    using k j(2) by (metis Suc_leI length_take min.absorb2 min.cobounded1)
  with j ys assms(3) show "\<exists>j. (Term (l ! k), j) \<in> E'" "take (Suc k) l = take (Suc k) (G' (Term (l ! k)))"
    by auto
qed

lemma segment_of_append: "segment_of args S \<Longrightarrow> segment_of args (S @ ys)"
  by (auto simp: segment_of_def Let_def nth_append)

lemma carried_mono:
  assumes "carried E G p args" "extends E G G'" "E \<subseteq> E'"
  shows "carried E' G' p args"
proof -
  obtain j where j: "(aeTerm args, j) \<in> E" "j \<noteq> p"
    using assms(1) unfolding carried_def by blast
  obtain ys where "G' (aeTerm args) = G (aeTerm args) @ ys"
    using extendsE [OF assms(2) j(1)] by blast
  with j assms(1,3) segment_of_append show ?thesis
    unfolding carried_def by auto
qed

text \<open>A step of node \<open>i\<close> to \<open>n'\<close>, with the logs of the terms after it.\<close>

lemma match_update:
  assumes inv: "match_inv G c"
    and n': "node c' = (node c)(i := n')" "currentTerm (node c i) \<le> currentTerm n'" "good (set (elected c')) G' (nlog n')"
      "nstate n' = Leader \<Longrightarrow> nlog n' = G' (currentTerm n')"
    and mono: "extends (set (elected c)) G G'" "set (elected c) \<subseteq> set (elected c')"
      "\<And>j. j \<noteq> i \<Longrightarrow> nstate (node c j) = Leader \<Longrightarrow> G' (currentTerm (node c j)) = G (currentTerm (node c j))"
    and top: "\<And>t. G' t = G t \<or> (t = currentTerm n' \<and> G' t = nlog n' \<and> (\<forall>e \<in> set (nlog n'). Term e \<le> t))"
    and msgs: "\<And>p args. AppReq p args \<in> set (msgs c') \<Longrightarrow>
      AppReq p args \<in> set (msgs c) \<or> carried (set (elected c)) G p args"
    and tasks: "\<And>t. t \<in> set (tasks c') \<Longrightarrow> t \<in> set (tasks c) \<or> apart t"
    and el: "\<And>t j. (t, j) \<in> set (elected c') \<Longrightarrow>
      (t, j) \<in> set (elected c) \<or> (t = currentTerm n' \<and> j = i \<and> t \<noteq> 0 \<and> G' t = nlog n' \<and> (\<forall>e \<in> set (nlog n'). Term e \<le> t))"
    and pcs: "\<And>j t votes waiting. pc c' j = InCandidate t votes waiting \<Longrightarrow> (t, j) \<notin> set (elected c') \<and> t \<noteq> 0"
  shows "match_inv G' c'"
proof -
  note inv' = match_invD [OF inv]
  have 1: "good (set (elected c')) G' (nlog (node c' j))" for j
    using inv'(1) n'(1,3) good_mono [OF _ mono(1,2)] by simp
  have 2: "nlog (node c' j) = G' (currentTerm (node c' j))" if "nstate (node c' j) = Leader" for j
    using inv'(2) [of j] n'(1,4) mono(3) [of j] that by (cases "j = i") simp_all
  have 3: "carried (set (elected c')) G' p args" if "AppReq p args \<in> set (msgs c')" for p args
    using inv'(3) msgs [OF that] carried_mono [OF _ mono(1,2)] by blast
  have 4: "apart t" if "t \<in> set (tasks c')" for t
    using inv'(4) tasks that by blast
  have 5: "t \<le> currentTerm (node c' j)" if "(t, j) \<in> set (elected c')" for t j
    using inv'(5) [of t j] n'(1,2) el [OF that] by (cases "j = i") auto
  have 6: "t \<noteq> 0 \<and> good (set (elected c')) G' (G' t) \<and> (\<forall>e \<in> set (G' t). Term e \<le> t)" if "(t, j) \<in> set (elected c')" for t j
  proof (cases "(t, j) \<in> set (elected c) \<and> G' t = G t")
    case True
    with inv'(7) [of t j] good_mono [OF _ mono(1,2)] show ?thesis by simp
  next
    case False
    with el [OF that] top [of t] inv'(7) [of t j] n'(3) show ?thesis by auto
  qed
  show ?thesis
    unfolding match_inv_def using 1 2 3 4 5 6 pcs by blast
qed

text \<open>A step that changes no log and elects nobody.\<close>

lemma match_frame:
  assumes inv: "match_inv G c"
    and n': "node c' = (node c)(i := n')" "nlog n' = nlog (node c i)" "currentTerm (node c i) \<le> currentTerm n'"
      "nstate n' = Leader \<Longrightarrow> nstate (node c i) = Leader \<and> currentTerm n' = currentTerm (node c i)"
    and el: "elected c' = elected c"
    and msgs: "\<And>p args. AppReq p args \<in> set (msgs c') \<Longrightarrow>
      AppReq p args \<in> set (msgs c) \<or> carried (set (elected c)) G p args"
    and tasks: "\<And>t. t \<in> set (tasks c') \<Longrightarrow> t \<in> set (tasks c) \<or> apart t"
    and pcs: "\<And>j t votes waiting. pc c' j = InCandidate t votes waiting \<Longrightarrow>
      (\<exists>v w. pc c j = InCandidate t v w) \<or> ((t, j) \<notin> set (elected c) \<and> t \<noteq> 0)"
  shows "match_inv G c'"
proof (rule match_update [OF inv n'(1,3) _ _ _ _ _ _ msgs tasks])
  show "good (set (elected c')) G (nlog n')" "nstate n' = Leader \<Longrightarrow> nlog n' = G (currentTerm n')"
    using match_invD(1,2) [OF inv, of i] n'(2,4) el by simp_all
  show "(t, j) \<notin> set (elected c') \<and> t \<noteq> 0" if "pc c' j = InCandidate t votes waiting" for j t votes waiting
    using match_invD(6) [OF inv] pcs [OF that] el by auto
qed (simp_all add: el)

lemma match_frame_same:
  assumes inv: "match_inv G c" and "node c' = node c" "elected c' = elected c"
    and "\<And>p args. AppReq p args \<in> set (msgs c') \<Longrightarrow>
      AppReq p args \<in> set (msgs c) \<or> carried (set (elected c)) G p args"
    and "\<And>t. t \<in> set (tasks c') \<Longrightarrow> t \<in> set (tasks c) \<or> apart t"
    and "\<And>j t votes waiting. pc c' j = InCandidate t votes waiting \<Longrightarrow>
      (\<exists>v w. pc c j = InCandidate t v w) \<or> ((t, j) \<notin> set (elected c) \<and> t \<noteq> 0)"
  shows "match_inv G c'"
  by (rule match_frame [OF inv, of c' i "node c i" for i]) (use assms in auto)

subsection \<open>Sending\<close>

text \<open>A request of a leader carries a segment of its log.\<close>

lemma take_length_take: "xs = take n ys \<Longrightarrow> xs = take (length xs) ys"
  by (simp add: min_def)

lemma prevTerm_nth:
  assumes "log_wf l" "i \<noteq> 0" "unat i < length l"
  shows "prevTerm l i = Term (l ! unat i)"
  using assms by (simp add: prevTerm_def entryAt_nth word_gt_0)

lemma prevTerm_outside:
  assumes "log_wf l" "\<not> unat i < length l"
  shows "prevTerm l i = 0"
  using assms by (simp add: prevTerm_def entryAt_nth)

lemma segment_of_log:
  assumes l: "log_wf l" and p: "nextIdx \<noteq> 0" and a: "aePrevLogIndex args = nextIdx - 1"
    "aePrevLogTerm args = prevTerm l (nextIdx - 1)" "aeEntries args = drop (unat nextIdx) (take k l)"
  shows "segment_of args l \<or> hopeless args"
proof (cases "unat nextIdx \<le> length l")
  case True
  have m: "Suc (unat (nextIdx - 1)) = unat nextIdx"
    by (rule unat_minus_one [OF p])
  have len: "unat nextIdx + length (aeEntries args) \<le> length l"
    using True a(3) by auto
  have "aeEntries args = take (length (aeEntries args)) (drop (unat nextIdx) l)"
    by (rule take_length_take [of _ "k - unat nextIdx"]) (simp add: a(3) drop_take)
  moreover have "aePrevLogTerm args = Term (l ! unat (nextIdx - 1))" if "nextIdx - 1 \<noteq> 0"
    using prevTerm_nth [OF l that] len m a(2) by simp
  ultimately show ?thesis
    using len by (simp add: segment_of_def Let_def a(1) m [symmetric])
next
  case False
  have "\<not> unat (nextIdx - 1) < length l"
    using False unat_minus_one [OF p] by linarith
  moreover from this have "nextIdx - 1 \<noteq> 0"
    using log_wf_nonempty [OF l] by auto
  ultimately show ?thesis
    using False a prevTerm_outside [OF l] by (simp add: hopeless_def)
qed

lemma segment_heartbeat:
  assumes n: "node_ok E n" and p: "nextIndex n p \<noteq> 0"
  shows "segment_of (heartbeatArgs p n) (nlog n) \<or> hopeless (heartbeatArgs p n)"
proof -
  have wf: "log_wf (nlog n)"
    using n by (simp add: node_ok_def)
  show ?thesis
  proof (cases "nextIndex n p \<le> fst (lastIndexAndTerm (nlog n))")
    case True
    then show ?thesis
      by (intro segment_of_log [OF wf p, of _ "length (nlog n)"])
        (use entriesFrom_drop [OF wf] in \<open>auto simp: heartbeatArgs_def Let_def\<close>)
  next
    case False
    then show ?thesis
      using log_wf_nonempty [OF wf] by (simp add: heartbeatArgs_def segment_of_def Let_def Suc_le_eq)
  qed
qed

lemma segment_replicate:
  assumes n: "node_ok E n" and p: "nextIndex n p \<noteq> 0" and e: "Index e \<noteq> - 1"
    and r: "replicateArgs p e t lc n = Some (Some args)"
  shows "segment_of args (nlog n) \<or> hopeless args" "nstate n = Leader" "currentTerm n = t" "aeTerm args = t"
proof -
  have wf: "log_wf (nlog n)"
    using n by (simp add: node_ok_def)
  show "segment_of args (nlog n) \<or> hopeless args"
    by (rule segment_of_log [OF wf p, of _ "Suc (unat (Index e))"])
      (use r in \<open>auto simp: replicateArgs_def Let_def collectEntries_segment [OF wf e] split: if_splits\<close>)
  show "nstate n = Leader" "currentTerm n = t" "aeTerm args = t"
    using r by (auto simp: replicateArgs_def Let_def IsLeader_def split: if_splits option.splits)
qed

lemma match_step_hb_send:
  assumes inv: "match_inv G c" and log: "log_inv c" and v: "voting_inv ms c"
    and l: "nstate (node c i) = Leader" and act: "act_hb_send i p c = Some c'"
  shows "match_inv G c'"
proof -
  have t: "HbStart i p \<in> set (tasks c)"
    using act by (simp add: act_hb_send_def split: if_splits)
  then have p: "nextIndex (node c i) p \<noteq> 0" "i \<noteq> p"
    using log_invD(3) [OF log] match_invD(4) [OF inv] by fastforce+
  have el: "(currentTerm (node c i), i) \<in> set (elected c)"
    using v l by (simp add: voting_inv_def elected_inv_def)
  have "aeTerm (heartbeatArgs p (node c i)) = currentTerm (node c i)"
    by (simp add: heartbeatArgs_def Let_def)
  then have "carried (set (elected c)) G p (heartbeatArgs p (node c i))"
    using segment_heartbeat [OF log_invD(1) [OF log] p(1)] match_invD(2) [OF inv l] el p(2)
    unfolding carried_def by auto
  then show ?thesis
    by (intro match_frame_same [OF inv]) (use act t in \<open>auto simp: act_hb_send_def Let_def dest: in_remove1\<close>)
qed

lemma match_step_rep_send:
  assumes inv: "match_inv G c" and log: "log_inv c" and v: "voting_inv ms c"
    and act: "act_rep_send i p e t lc c = Some c'"
  shows "match_inv G c'"
proof -
  have t: "RepStart i p e t lc \<in> set (tasks c)"
    using act by (simp add: act_rep_send_def split: if_splits)
  then have p: "nextIndex (node c i) p \<noteq> 0" "Index e \<noteq> - 1" "i \<noteq> p"
    using log_invD(3) [OF log] match_invD(4) [OF inv] by fastforce+
  have "carried (set (elected c)) G p args" if r: "replicateArgs p e t lc (node c i) = Some (Some args)" for args
  proof -
    note seg = segment_replicate [OF log_invD(1) [OF log] p(1,2) r]
    have "(t, i) \<in> set (elected c)"
      using v seg(2,3) by (auto simp: voting_inv_def elected_inv_def)
    with seg match_invD(2) [OF inv seg(2)] p(3) show ?thesis
      unfolding carried_def by auto
  qed
  then show ?thesis
    by (intro match_frame_same [OF inv])
      (use act t p in \<open>auto simp: act_rep_send_def dest: in_remove1 split: option.splits\<close>)
qed

subsection \<open>Receiving\<close>

lemma segment_nth:
  assumes "segment_of args S" "i < length (aeEntries args)"
  shows "aeEntries args ! i = S ! (Suc (unat (aePrevLogIndex args)) + i)"
proof -
  let ?m = "Suc (unat (aePrevLogIndex args))"
  have "?m + length (aeEntries args) \<le> length S" "aeEntries args = take (length (aeEntries args)) (drop ?m S)"
    using assms(1) by (simp_all add: segment_of_def Let_def)
  then show ?thesis
    using assms(2) by (metis add_leD1 nth_drop nth_take)
qed

text \<open>A log that has the previous entry of a segment, and the terms of \<open>k\<close> entries of it, has these entries.\<close>

lemma segment_common:
  assumes l: "good E G l" "log_wf l" and S: "good E G S" "segment_of args S" and ok: "prevOK args l"
  defines "m \<equiv> Suc (unat (aePrevLogIndex args))"
  assumes k: "k \<le> length (aeEntries args)" "m + k \<le> length l" "\<forall>i < k. Term (l ! (m + i)) = Term (aeEntries args ! i)"
  shows "take (m + k) l = take (m + k) S"
proof -
  have seg: "m + length (aeEntries args) \<le> length S" "aePrevLogIndex args \<noteq> 0 \<Longrightarrow> aePrevLogTerm args = Term (S ! (m - 1))"
    using S(2) by (simp_all add: segment_of_def Let_def m_def)
  show ?thesis
  proof (cases k)
    case 0
    show ?thesis
    proof (cases "aePrevLogIndex args = 0")
      case True
      with 0 l(1) S(1) show ?thesis
        by (simp add: good_def m_def)
    next
      case False
      then have "Term (l ! (m - 1)) = Term (S ! (m - 1))"
        using ok seg(2) k(2) by (simp add: prevOK_def entryAt_nth [OF l(2)] m_def)
      then have "take (Suc (m - 1)) l = take (Suc (m - 1)) S"
        using k(2) seg(1) by (intro good_same_term [OF l(1) S(1)]) (simp_all add: m_def)
      with 0 show ?thesis
        by (simp add: m_def)
    qed
  next
    case (Suc k')
    then have "Term (l ! (m + k')) = Term (S ! (m + k'))"
      using k segment_nth [OF S(2), of k'] by (simp add: m_def)
    then have "take (Suc (m + k')) l = take (Suc (m + k')) S"
      using k seg(1) Suc by (intro good_same_term [OF l(1) S(1)]) simp_all
    with Suc show ?thesis by simp
  qed
qed

text \<open>
  An accepted segment of a log \<open>S\<close>: the log becomes a prefix of \<open>S\<close> or stays as it is, agrees with \<open>S\<close> up to
  the end of the segment, and loses nothing that it had in common with \<open>S\<close>.
\<close>

lemma merge_segment:
  assumes l: "good E G l" "log_wf l" and S: "good E G S" "segment_of args S" and ok: "prevOK args l"
  defines "n \<equiv> Suc (unat (aePrevLogIndex args)) + length (aeEntries args)"
    and "l' \<equiv> merge_at (Suc (unat (aePrevLogIndex args))) (aeEntries args) l"
  shows "l' = l \<or> l' = take n S" "take n l' = take n S"
proof -
  let ?m = "Suc (unat (aePrevLogIndex args))" and ?es = "aeEntries args"
  note common = segment_common [OF l S ok]
  have seg: "?es = take (length ?es) (drop ?m S)"
    using S(2) by (simp add: segment_of_def Let_def)
  have p: "?m \<le> length l"
    by (rule prevOK_length [OF l(2) ok])
  have cut: "l' = take n S" if "k < length ?es" "l' = take (?m + k) l @ drop k ?es" "?m + k \<le> length l"
      "\<forall>i < k. Term (l ! (?m + i)) = Term (?es ! i)" for k
  proof -
    have "drop k ?es = take (length ?es - k) (drop (?m + k) S)"
      by (subst seg) (simp add: drop_take add.commute)
    then have "l' = take (?m + k + (length ?es - k)) S"
      using that common [of k] by (simp only: take_add less_imp_le)
    with that(1) show ?thesis
      by (simp add: n_def)
  qed
  then show one: "l' = l \<or> l' = take n S"
    using merge_at_shape [OF p, of ?es] unfolding l'_def by blast
  show "take n l' = take n S"
  proof (cases "l' = l")
    case True
    have "?m + length ?es \<le> length l"
      using merge_at_length [OF p, of ?es] True by (simp add: l'_def)
    moreover have "\<forall>i < length ?es. Term (l ! (?m + i)) = Term (?es ! i)"
      using merge_at_terms [OF p, of _ ?es] True by (simp add: l'_def)
    ultimately show ?thesis
      using common [of "length ?es"] True by (simp add: n_def)
  next
    case False
    with one show ?thesis by simp
  qed
qed

lemma merge_segment_keeps:
  assumes l: "good E G l" "log_wf l" and S: "good E G S" "segment_of args S" and ok: "prevOK args l"
    and k: "k < length S" "take (Suc k) l = take (Suc k) S"
  shows "take (Suc k) (merge_at (Suc (unat (aePrevLogIndex args))) (aeEntries args) l) = take (Suc k) S"
proof (cases "merge_at (Suc (unat (aePrevLogIndex args))) (aeEntries args) l = l")
  case False
  let ?m = "Suc (unat (aePrevLogIndex args))" and ?es = "aeEntries args"
  have p: "?m \<le> length l"
    by (rule prevOK_length [OF l(2) ok])
  then obtain i where i: "i < length ?es" "?m + i \<le> length l"
      "?m + i < length l \<longrightarrow> Term (l ! (?m + i)) \<noteq> Term (?es ! i)"
    using merge_at_shape [OF p, of ?es] False by blast
  have "Suc k \<le> ?m + i"
  proof (rule ccontr)
    assume c: "\<not> Suc k \<le> ?m + i"
    have "length (take (Suc k) l) = Suc k"
      using k by simp
    then have "?m + i < length l"
      using c by simp
    moreover have "l ! (?m + i) = S ! (?m + i)"
      using k(2) c by (metis not_less nth_take)
    ultimately show False
      using i segment_nth [OF S(2) i(1)] by simp
  qed
  then have "Suc k \<le> ?m + length ?es"
    using i(1) by simp
  with False merge_segment(1) [OF l S ok] show ?thesis
    by (auto simp: min_def)
qed (simp add: k)

lemma good_merge:
  assumes "good E G l" "log_wf l" "good E G S" "segment_of args S" "prevOK args l"
  shows "good E G (merge_at (Suc (unat (aePrevLogIndex args))) (aeEntries args) l)"
  using merge_segment(1) [OF assms] good_take [OF assms(3)] assms(1) by auto

lemma match_step_append:
  assumes inv: "match_inv G c" and log: "log_inv c" and v: "voting_inv ms c"
    and act: "act_deliver (AppReq p args) c = Some c'"
  shows "match_inv G c'"
proof -
  have m: "AppReq p args \<in> set (msgs c)"
    using act by (auto simp: act_deliver_def split: if_splits)
  obtain r n go where h: "HandleAppendEntries args (node c p) = (r, n, go)"
    by (metis prod.collapse)
  have wf: "log_wf (nlog (node c p))" "args_wf args"
    using log_invD(1) [OF log, of p] log_invD(2) [OF log m] by (simp_all add: node_ok_def args_ok_def)
  note f = HandleAppendEntries_facts [OF h]
  note nl = HandleAppendEntries_log(1) [OF h wf]
  have carry: "carried (set (elected c)) G p args"
    by (rule match_invD(3) [OF inv m])
  have good: "good (set (elected c)) G (nlog n)"
  proof (cases "arSuccess r \<and> aeEntries args \<noteq> []")
    case True
    then have "segment_of args (G (aeTerm args))" "good (set (elected c)) G (G (aeTerm args))"
      using carry match_invD(7) [OF inv] unfolding carried_def hopeless_def by blast+
    with True show ?thesis
      using good_merge [OF match_invD(1) [OF inv] wf(1)] f(4) nl by auto
  next
    case False
    with nl match_invD(1) [OF inv, of p] show ?thesis
      by (cases "aeEntries args") (auto split: if_splits)
  qed
  have lead: "nlog n = G (currentTerm n)" if "nstate n = Leader"
  proof -
    have l: "nstate (node c p) = Leader" "aeTerm args \<le> currentTerm (node c p)"
      using that f(6) by (auto split: if_splits)
    have "nlog n = nlog (node c p)"
    proof (cases "aeEntries args = [] \<or> aeTerm args < currentTerm (node c p)")
      case True
      with nl f(1) show ?thesis by auto
    next
      case False
      then obtain j where "(aeTerm args, j) \<in> set (elected c)" "j \<noteq> p"
        using carry unfolding carried_def by blast
      moreover have "(aeTerm args, p) \<in> set (elected c)"
        using v l False by (auto simp: voting_inv_def elected_inv_def)
      ultimately show ?thesis
        using elected_unique [OF v] by blast
    qed
    with match_invD(2) [OF inv l(1)] l(2) f(2) show ?thesis
      by (simp add: max_def split: if_splits)
  qed
  show ?thesis
    by (rule match_update [OF inv, of c' p n])
      (use act m h good lead f(2) in \<open>auto simp: act_deliver_def cluster_defs dest: in_remove1 match_invD(6) [OF inv]\<close>)
qed

subsection \<open>A new entry and a new leader\<close>

text \<open>The logs of the terms after an action: a new entry and a new leader change one of them.\<close>

fun term_logs :: "action \<Rightarrow> cluster \<Rightarrow> cluster \<Rightarrow> (uint64 \<Rightarrow> logStore) \<Rightarrow> uint64 \<Rightarrow> logStore" where
  "term_logs (Replicate i cmd) c c' G = G(currentTerm (node c' i) := nlog (node c' i))"
| "term_logs (TakeVote i p args reply) c c' G =
     (if elected c' = elected c then G else G(currentTerm (node c' i) := nlog (node c' i)))"
| "term_logs _ c c' G = G"

lemma replicateStart_facts:
  assumes "replicateStart cmd n = Some (e, n')"
  shows "nstate n = Leader" "nlog n' = nlog n @ [e]" "currentTerm n' = currentTerm n" "Term e = currentTerm n"
    "peers n' = peers n" "nstate n' = Leader" "Index e = fst (lastIndexAndTerm (nlog n)) + 1"
  using assms by (auto simp: replicateStart_def IsLeader_def appendEntry_def Let_def split: if_splits)

lemma match_step_replicate:
  assumes inv: "match_inv G c" and v: "voting_inv ms c" and ms: "distinct ms" and act: "act_replicate i cmd c = Some c'"
  shows "match_inv (term_logs (Replicate i cmd) c c' G) c'" "extends (set (elected c)) G (term_logs (Replicate i cmd) c c' G)"
proof -
  obtain e n where s: "replicateStart cmd (node c i) = Some (e, n)" "length (nlog (node c i)) < 2 ^ 64 - 1"
    using act by (auto simp: act_replicate_def split: if_splits option.splits)
  let ?t = "currentTerm (node c i)" and ?l = "nlog (node c i)"
  note n = replicateStart_facts [OF s(1)]
  have G: "G ?t = ?l"
    using match_invD(2) [OF inv n(1)] by simp
  have el: "(?t, i) \<in> set (elected c)"
    using v n(1) by (simp add: voting_inv_def elected_inv_def)
  let ?G = "G(?t := ?l @ [e])"
  have G': "term_logs (Replicate i cmd) c c' G = ?G"
    using act s n(2,3) by (auto simp: act_replicate_def cluster_defs)
  show ext: "extends (set (elected c)) G (term_logs (Replicate i cmd) c c' G)"
    unfolding G' using G n(4) by (auto simp: extends_def)
  have le: "Term x \<le> ?t" if "x \<in> set (?l @ [e])" for x
    using match_invD(7) [OF inv el] that n(4) by (auto simp: G)
  have "good (set (elected c)) ?G ?l"
    using good_mono [OF match_invD(1) [OF inv, of i] ext] unfolding G' by simp
  with le have "good (set (elected c)) ?G (?l @ [e])"
    using good_nonempty [OF match_invD(1) [OF inv, of i]] el n(4)
    by (auto simp: good_def nth_append less_Suc_eq sorted_append)
  moreover have "?G (currentTerm (node c j)) = G (currentTerm (node c j))" if "j \<noteq> i" "nstate (node c j) = Leader" for j
  proof -
    have "(currentTerm (node c j), j) \<in> set (elected c)"
      using v that(2) by (simp add: voting_inv_def elected_inv_def)
    with el that(1) show ?thesis
      using elected_unique [OF v] by fastforce
  qed
  moreover have "i \<notin> set (peers n)"
    using v ms n(5) by (simp add: voting_inv_def static_inv_def)
  ultimately have "match_inv ?G c'"
    by (intro match_update [OF inv, of c' i n])
      (use act s n ext [unfolded G'] le G in \<open>auto simp: act_replicate_def cluster_defs dest: match_invD(6) [OF inv]\<close>)
  then show "match_inv (term_logs (Replicate i cmd) c c' G) c'"
    by (simp only: G')
qed

lemma log_terms:
  assumes "node_ok E n" "e \<in> set (nlog n)"
  shows "Term e \<le> currentTerm n"
  using assms by (cases "nlog n") (auto simp: node_ok_def entry_ok_def log_wf_def)

text \<open>The answer that makes a candidate the leader of its term.\<close>

lemma vote_won:
  assumes act: "act_vote i p args reply c = Some c'" and e: "elected c' \<noteq> elected c"
  shows "\<exists>t votes waiting. pc c i = InCandidate t votes waiting \<and> currentTerm (node c i) = t \<and> nstate (node c i) = Candidate \<and>
    node c' = (node c)(i := becomeLeader t (node c i)) \<and> elected c' = (t, i) # elected c \<and> pc c' = (pc c)(i := AtTop) \<and>
    tasks c' = tasks c \<and> set (msgs c') \<subseteq> set (msgs c) \<and> granted c' = granted c"
  using assms by (auto simp: act_vote_def cluster_defs Let_def dest: in_remove1 split: loop_pc.splits if_splits)

lemma match_step_won:
  assumes inv: "match_inv G c" and log: "log_inv c" and v: "voting_inv ms c" "voting_inv ms c'"
    and act: "act_vote i p args reply c = Some c'" and e: "elected c' \<noteq> elected c"
  shows "match_inv (term_logs (TakeVote i p args reply) c c' G) c'"
    "extends (set (elected c)) G (term_logs (TakeVote i p args reply) c c' G)"
    "\<And>j. (currentTerm (node c' i), j) \<notin> set (elected c)"
proof -
  obtain t votes waiting where pc: "pc c i = InCandidate t votes waiting" and n: "currentTerm (node c i) = t" "nstate (node c i) = Candidate"
    and c': "node c' = (node c)(i := becomeLeader t (node c i))" "elected c' = (t, i) # elected c" "pc c' = (pc c)(i := AtTop)"
      "tasks c' = tasks c" "set (msgs c') \<subseteq> set (msgs c)"
    using vote_won [OF act e] by blast
  note old = match_invD(6) [OF inv]
  have new: "(t, j) \<notin> set (elected c)" for j
    using elected_unique [OF v(2), of t j i] old [OF pc] c'(2) by auto
  then show "(currentTerm (node c' i), j) \<notin> set (elected c)" for j
    using n by (simp add: c'(1) becomeLeader_facts)
  let ?G = "G(t := nlog (node c i))"
  have G': "term_logs (TakeVote i p args reply) c c' G = ?G"
    using n by (simp add: c'(1,2) becomeLeader_facts)
  show ext: "extends (set (elected c)) G (term_logs (TakeVote i p args reply) c c' G)"
    unfolding G' using new by (auto simp: extends_def)
  have "good (set (elected c')) ?G (nlog (node c i))"
    using good_mono [OF match_invD(1) [OF inv, of i] ext, of "set (elected c')"] unfolding G' by (auto simp: c'(2))
  moreover have "currentTerm (node c j) \<noteq> t" if "nstate (node c j) = Leader" for j
    using v(1) new that by (auto simp: voting_inv_def elected_inv_def)
  moreover have "Term e \<le> t" if "e \<in> set (nlog (node c i))" for e
    using log_terms [OF log_invD(1) [OF log, of i] that] n(1) by simp
  moreover have "t \<noteq> 0"
    using old [OF pc] by simp
  ultimately have "match_inv ?G c'"
    using ext n c' old new unfolding G'
    by (intro match_update [OF inv, of c' i "becomeLeader t (node c i)"]) (auto simp: becomeLeader_facts split: if_splits)
  then show "match_inv (term_logs (TakeVote i p args reply) c c' G) c'"
    by (simp only: G')
qed

lemma match_step_vote:
  assumes inv: "match_inv G c" and act: "act_vote i p args reply c = Some c'" and e: "elected c' = elected c"
  shows "match_inv G c'"
proof -
  from act obtain t votes waiting where pc: "pc c i = InCandidate t votes waiting" and g: "p \<in> set waiting"
      "VoteRep p args reply \<in> set (msgs c)" "rvCandidateID args = i" "rvTerm args = t"
    by (auto simp: act_vote_def split: loop_pc.splits if_splits)
  let ?n = "node c i"
  note old = match_invD(6) [OF inv]
  consider (higher) "t < rrTerm reply"
    | (late) "\<not> t < rrTerm reply" "rrVoteGranted reply" "majority ?n \<le> votes + 1"
    | (other) "\<not> t < rrTerm reply" "\<not> (rrVoteGranted reply \<and> majority ?n \<le> votes + 1)"
    by blast
  then show ?thesis
  proof cases
    case higher
    show ?thesis
      by (rule match_frame [OF inv, of c' i "becomeFollower (rrTerm reply) ?n"])
        (use higher act pc g old in \<open>auto simp: act_vote_def cluster_defs Let_def le_max_iff_disj dest: in_remove1 split: if_splits\<close>)
  next
    case late
    then have "\<not> (currentTerm ?n = t \<and> nstate ?n = Candidate)"
      using e act pc g by (auto simp: act_vote_def cluster_defs Let_def)
    moreover from this have "becomeLeader t ?n = ?n"
      by (auto simp: becomeLeader_def)
    ultimately show ?thesis
      by (intro match_frame [OF inv, of c' i ?n])
        (use late act pc g old in \<open>auto simp: act_vote_def cluster_defs Let_def dest: in_remove1 split: if_splits\<close>)
  next
    case other
    show ?thesis
      by (rule match_frame_same [OF inv])
        (use other act pc g old in \<open>auto simp: act_vote_def cluster_defs Let_def dest: in_remove1 split: if_splits\<close>)
  qed
qed

subsection \<open>All other steps\<close>

lemma match_step_election:
  assumes inv: "match_inv G c" and v: "voting_inv ms c" and act: "act_election i c = Some c'"
  shows "match_inv G c'"
proof -
  obtain args n where s: "startElection (node c i) = (args, n)"
    by (metis surj_pair)
  note f = startElection_facts [OF s]
  have g: "currentTerm (node c i) \<noteq> - 1" "pc c i = AtElection"
    using act by (simp_all add: act_election_def split: if_splits)
  then have lt: "currentTerm (node c i) < currentTerm n"
    using f term_grows by simp
  then have "(currentTerm n, i) \<notin> set (elected c)" "currentTerm n \<noteq> 0"
    using match_invD(5) [OF inv] by fastforce+
  moreover have "nstate n \<noteq> Leader"
  proof -
    have "pc_ok ms (set (granted c)) (node c i) i (pc c i)"
      using v by (simp add: voting_inv_def pc_inv_def)
    with g(2) f show ?thesis by simp
  qed
  ultimately show ?thesis
    by (intro match_frame [OF inv, of c' i n])
      (use act s f lt in \<open>auto simp: act_election_def cluster_defs split: if_splits\<close>)
qed

lemma match_step_same:
  assumes inv: "match_inv G c" and v: "voting_inv ms c" and ms: "distinct ms"
  shows "act_top i c = Some c' \<Longrightarrow> match_inv G c'" "act_tick i c = Some c' \<Longrightarrow> match_inv G c'"
    "act_vote_error i p c = Some c' \<Longrightarrow> match_inv G c'" "act_election_over i c = Some c' \<Longrightarrow> match_inv G c'"
    "act_drop m c = Some c' \<Longrightarrow> match_inv G c'" "act_hb_error i p args c = Some c' \<Longrightarrow> match_inv G c'"
    "act_rep_error i p e t lc args c = Some c' \<Longrightarrow> match_inv G c'"
    "act_client_timeout i e acks waiting c = Some c' \<Longrightarrow> match_inv G c'"
proof -
  have i: "i \<notin> set (peers (node c i))"
    using v ms by (simp add: voting_inv_def static_inv_def)
  show "act_top i c = Some c' \<Longrightarrow> match_inv G c'"
    by (rule match_frame_same [OF inv]) (use i in \<open>auto simp: act_top_def cluster_defs split: if_splits NodeState.splits\<close>)
  show "act_tick i c = Some c' \<Longrightarrow> match_inv G c'"
    by (rule match_frame_same [OF inv]) (use i in \<open>auto simp: act_tick_def cluster_defs split: if_splits\<close>)
  show "act_vote_error i p c = Some c' \<Longrightarrow> match_inv G c'"
    by (rule match_frame_same [OF inv]) (auto simp: act_vote_error_def cluster_defs split: if_splits loop_pc.splits)
  show "act_election_over i c = Some c' \<Longrightarrow> match_inv G c'"
    by (rule match_frame_same [OF inv]) (auto simp: act_election_over_def cluster_defs split: if_splits loop_pc.splits)
  show "act_drop m c = Some c' \<Longrightarrow> match_inv G c'"
    by (rule match_frame_same [OF inv]) (auto simp: act_drop_def dest: in_remove1 split: if_splits)
  show "act_hb_error i p args c = Some c' \<Longrightarrow> match_inv G c'"
    by (rule match_frame_same [OF inv]) (auto simp: act_hb_error_def dest: in_remove1 split: if_splits)
  show "act_rep_error i p e t lc args c = Some c' \<Longrightarrow> match_inv G c'"
    by (rule match_frame_same [OF inv]) (auto simp: act_rep_error_def dest: in_remove1 split: if_splits)
  show "act_client_timeout i e acks waiting c = Some c' \<Longrightarrow> match_inv G c'"
    by (rule match_frame_same [OF inv]) (auto simp: act_client_timeout_def dest: in_remove1 split: if_splits)
qed

text \<open>A step of one node that keeps its log, by the facts about its new state.\<close>

lemma match_keeps:
  assumes inv: "match_inv G c" and n: "node c' = (node c)(i := n)" "keeps (node c i) n" "nlog n = nlog (node c i)"
    and same: "elected c' = elected c" "\<And>p args. AppReq p args \<in> set (msgs c') \<Longrightarrow> AppReq p args \<in> set (msgs c)"
      "\<And>t. t \<in> set (tasks c') \<Longrightarrow> t \<in> set (tasks c) \<or> apart t" "\<And>j. pc c' j = pc c j \<or> pc c' j = AtTop"
  shows "match_inv G c'"
proof (rule match_frame [OF inv n(1,3)])
  show "(\<exists>v w. pc c j = InCandidate t v w) \<or> ((t, j) \<notin> set (elected c) \<and> t \<noteq> 0)" if "pc c' j = InCandidate t votes waiting"
    for j t votes waiting
  proof -
    have "pc c j = InCandidate t votes waiting"
      using same(4) [of j] that by (cases "pc c' j = AtTop") simp_all
    then show ?thesis by blast
  qed
qed (use n same in \<open>auto simp: keeps_def\<close>)

lemma match_step_local:
  assumes inv: "match_inv G c"
  shows "act_timeout i c = Some c' \<Longrightarrow> match_inv G c'" "act_reset i c = Some c' \<Longrightarrow> match_inv G c'"
    "act_stepdown i c = Some c' \<Longrightarrow> match_inv G c'"
    "act_ack i e acks waiting p ok c = Some c' \<Longrightarrow> match_inv G c'"
    "act_apply i c = Some c' \<Longrightarrow> match_inv G c'"
    "act_apply_send i cmds c = Some c' \<Longrightarrow> match_inv G c'"
proof -
  show "act_timeout i c = Some c' \<Longrightarrow> match_inv G c'"
    by (rule match_keeps [OF inv, of c' i "(node c i)\<lparr>nstate := Candidate\<rparr>"])
      (auto simp: act_timeout_def cluster_defs keeps_def split: if_splits)
  show "act_reset i c = Some c' \<Longrightarrow> match_inv G c'"
    by (rule match_keeps [OF inv, of c' i "(node c i)\<lparr>resetTimerCh := resetTimerCh (node c i) - 1\<rparr>"])
      (auto simp: act_reset_def cluster_defs keeps_def split: if_splits)
  show "act_stepdown i c = Some c' \<Longrightarrow> match_inv G c'"
    by (rule match_keeps [OF inv, of c' i "becomeFollower (hd (stepDownCh (node c i))) ((node c i)\<lparr>stepDownCh := tl (stepDownCh (node c i))\<rparr>)"])
      (auto simp: act_stepdown_def cluster_defs le_max_iff_disj split: if_splits list.splits)
  show "match_inv G c'" if "act_ack i e acks waiting p ok c = Some c'"
  proof (cases "ok \<and> majority (node c i) \<le> acks + 1")
    case True
    with that show ?thesis
      by (intro match_keeps [OF inv, of c' i "replicateCommit e (node c i)"])
        (auto simp: act_ack_def cluster_defs Let_def replicateCommit_def keeps_def dest!: in_remove1 split: if_splits)
  next
    case False
    with that show ?thesis
      by (intro match_frame_same [OF inv]) (auto simp: act_ack_def Let_def dest!: in_remove1 split: if_splits)
  qed
  show "act_apply i c = Some c' \<Longrightarrow> match_inv G c'"
    by (rule match_keeps [OF inv, of c' i "snd (applyCommitted (node c i))"])
      (auto simp: act_apply_def applyCommitted_def cluster_defs keeps_def dest: in_remove1 split: if_splits)
  show "match_inv G c'" if "act_apply_send i cmds c = Some c'"
  proof (cases "applyCh (node c i) = None \<or> cmds = []")
    case True
    with that show ?thesis
      by (intro match_frame_same [OF inv]) (auto simp: act_apply_send_def dest: in_remove1 split: if_splits option.splits)
  next
    case False
    with that show ?thesis
      by (intro match_keeps [OF inv, of c' i "(node c i)\<lparr>applyCh := Some (the (applyCh (node c i)) @ [hd cmds])\<rparr>"])
        (auto simp: act_apply_send_def cluster_defs keeps_def dest: in_remove1 split: if_splits list.splits)
  qed
qed

lemma match_step_replies:
  assumes inv: "match_inv G c"
  shows "act_hb_reply i p args reply c = Some c' \<Longrightarrow> match_inv G c'"
    "act_rep_reply i p e t lc args r c = Some c' \<Longrightarrow> match_inv G c'"
proof -
  assume act: "act_hb_reply i p args reply c = Some c'"
  then obtain n go where h: "heartbeatReply p args reply (node c i) = Some (n, go)"
    by (auto simp: act_hb_reply_def split: if_splits option.splits)
  have "nlog n = nlog (node c i)"
    using h by (auto simp: heartbeatReply_def Let_def advanceCommitIndex_def dest!: advanceLoop_commit_only split: if_splits)
  then show "match_inv G c'"
    by (intro match_keeps [OF inv, of c' i n])
      (use act h keeps_heartbeat_reply [OF h] in \<open>auto simp: act_hb_reply_def cluster_defs dest: in_remove1 split: if_splits\<close>)
next
  assume act: "act_rep_reply i p e t lc args r c = Some c'"
  obtain x n where h: "replicateReply p e t r (node c i) = (x, n)"
    by (metis surj_pair)
  have "RepWait i p e t lc args \<in> set (tasks c)"
    using act by (simp add: act_rep_reply_def split: if_splits)
  then have "i \<noteq> p"
    using match_invD(4) [OF inv] by fastforce
  moreover have "nlog n = nlog (node c i)"
    using h by (auto simp: replicateReply_def split: if_splits)
  ultimately show "match_inv G c'"
    by (intro match_keeps [OF inv, of c' i n])
      (use act h keeps_replicate_reply [OF h] in
        \<open>auto simp: act_rep_reply_def cluster_defs dest: in_remove1 split: if_splits replicate_next.splits\<close>)
qed

lemma match_step_request_vote:
  assumes inv: "match_inv G c" and act: "act_deliver m c = Some c'" and m: "\<And>p args. m \<noteq> AppReq p args"
  shows "match_inv G c'"
proof (cases m)
  case (VoteReq p args)
  obtain r n where h: "HandleRequestVote args (node c p) = (r, n)"
    by (metis surj_pair)
  note f = HandleRequestVote_facts [OF h]
  show ?thesis
    by (rule match_frame [OF inv, of c' p n])
      (use act VoteReq h f(1,5,6) in \<open>auto simp: act_deliver_def cluster_defs dest: in_remove1 split: if_splits\<close>)
qed (use act m in \<open>auto simp: act_deliver_def split: if_splits\<close>)

lemma match_step_deliver:
  assumes "match_inv G c" "log_inv c" "voting_inv ms c" "act_deliver m c = Some c'"
  shows "match_inv G c'"
proof (cases "\<exists>p args. m = AppReq p args")
  case True
  then obtain p args where "m = AppReq p args"
    by blast
  with assms(4) show ?thesis
    using match_step_append [OF assms(1-3)] by simp
next
  case False
  then show ?thesis
    by (intro match_step_request_vote [OF assms(1,4)]) simp
qed

lemma match_step:
  assumes inv: "match_inv G c" "log_inv c" "voting_inv ms c" "voting_inv ms c'" "distinct ms" "leading a c"
    and act: "exec a c = Some c'"
  shows "match_inv (term_logs a c c' G) c'"
proof -
  consider (rep) i cmd where "a = Replicate i cmd" | (vote) i p args reply where "a = TakeVote i p args reply"
    | (other) "\<forall>i cmd. a \<noteq> Replicate i cmd" "\<forall>i p args reply. a \<noteq> TakeVote i p args reply"
    by blast
  then show ?thesis
  proof cases
    case rep
    with act show ?thesis
      using match_step_replicate(1) [OF inv(1,3,5)] by simp
  next
    case vote
    with act have "act_vote i p args reply c = Some c'"
      by simp
    then show ?thesis
      unfolding vote using match_step_won(1) [OF inv(1-4)] match_step_vote [OF inv(1)] by (cases "elected c' = elected c") auto
  next
    case other
    then show ?thesis
      using act inv(6)
      by (cases a)
        (auto simp: leading_def intro: match_step_same [OF inv(1,3,5)] match_step_local [OF inv(1)] match_step_replies [OF inv(1)]
          match_step_deliver [OF inv(1-3)] match_step_hb_send [OF inv(1-3)] match_step_rep_send [OF inv(1-3)]
          match_step_election [OF inv(1,3)])
  qed
qed

lemma reachable_match:
  assumes "reachable_leading ms c" "distinct ms" "[] \<notin> set ms"
  shows "\<exists>G. match_inv G c"
  using assms(1)
proof induction
  case init
  show ?case using match_inv_init by blast
next
  case (step c a c')
  note r = reachable_leading_reachable [OF step(1)]
  have "reachable ms c'"
    by (rule reachable.step [OF r step(2,4)])
  with step(3,4,5) show ?case
    using match_step [OF _ reachable_log [OF r assms(2,3)] reachable_voting [OF r assms(2,3)]]
      reachable_voting [OF _ assms(2,3)] assms(2) by blast
qed

text \<open>
  C3. Log Matching, in all runs in which a heartbeat is only sent while its node leads: when the
  logs of two nodes have an entry of the same term at the same index, they are the same up to
  that index.
\<close>

theorem log_matching:
  assumes "reachable_leading ms c" and "distinct ms" and "[] \<notin> set ms"
    and "k < length (nlog (node c i))" and "k < length (nlog (node c j))"
    and "Term (nlog (node c i) ! k) = Term (nlog (node c j) ! k)"
  shows "take (Suc k) (nlog (node c i)) = take (Suc k) (nlog (node c j))"
proof -
  obtain G where "match_inv G c"
    using reachable_match [OF assms(1-3)] by blast
  then show ?thesis
    using good_same_term [OF match_invD(1) match_invD(1)] assms(4-6) by blast
qed

theorem log_matching_witness:
  "\<exists>c. reachable_leading members3 c \<and> length (nlog (node c ''A'')) = 2 \<and>
     take 2 (nlog (node c ''A'')) = take 2 (nlog (node c ''B''))"
proof -
  let ?run = "elect_with ''A'' ''B'' 1 0 0 @ commit_first ''A'' ''B'' 1 ''x'' [''B'', ''C'']"
  obtain c where run: "run_leading ?run (init_cluster members3) = Some c"
    and logs: "length (nlog (node c ''A'')) = 2" "length (nlog (node c ''B'')) = 2"
      "Term (nlog (node c ''A'') ! 1) = Term (nlog (node c ''B'') ! 1)"
    using commit_x_run by blast
  have r: "reachable_leading members3 c"
    by (rule run_leading_reaches [OF run]) (simp add: run_defs members3_def Let_def)
  then have "take (Suc 1) (nlog (node c ''A'')) = take (Suc 1) (nlog (node c ''B''))"
    by (rule log_matching [OF _ members3_ok]) (use logs in simp_all)
  with r logs(1) show ?thesis
    by (auto simp: numeral_2_eq_2)
qed

end
