(* ===== verification/Raft_History.thy ===== *)
theory Raft_History
  imports Raft_Log_Matching
begin

text \<open>
  The history of a run that Leader Completeness speaks of, the invariant that connects it with the
  state of the cluster, and the property itself: an entry that a majority has accepted from the
  leader of its term is in the log of every later leader. The steps that change no log and give
  no vote keep the invariant; the others follow in the next theory.
\<close>

subsection \<open>History\<close>

text \<open>
  What happened, beside the state: the log of the leader of each term, the log with which a node
  stood for election in a term and the log a voter had when it first voted in a term, the voters
  that elected the leader of a term, and the prefixes of the leader's log a node has accepted in
  a term.
\<close>

record history =
  tlog :: "uint64 \<Rightarrow> logStore"
  clog :: "uint64 \<Rightarrow> string \<Rightarrow> logStore"
  vlog :: "uint64 \<Rightarrow> string \<Rightarrow> logStore"
  voters :: "uint64 \<Rightarrow> string set"
  accepted :: "(string \<times> uint64 \<times> nat) set"

definition agrees :: "(uint64 \<Rightarrow> logStore) \<Rightarrow> uint64 \<Rightarrow> nat \<Rightarrow> logStore \<Rightarrow> bool" where
  "agrees G t k l \<longleftrightarrow> take (Suc k) l = take (Suc k) (G t)"

text \<open>The leaders of the terms in \<open>S\<close> have the prefix.\<close>

definition kept :: "(uint64 \<times> string) set \<Rightarrow> (uint64 \<Rightarrow> logStore) \<Rightarrow> uint64 \<Rightarrow> nat \<Rightarrow> uint64 set \<Rightarrow> bool" where
  "kept E G t k S \<longleftrightarrow> (\<forall>(s, j) \<in> E. s \<in> S \<longrightarrow> agrees G t k (G s))"

definition newer :: "logStore \<Rightarrow> logStore \<Rightarrow> bool" where
  "newer l m \<longleftrightarrow> Term (last m) < Term (last l) \<or> (Term (last l) = Term (last m) \<and> length m \<le> length l)"

subsection \<open>The invariant\<close>

definition acc_ok :: "history \<Rightarrow> cluster \<Rightarrow> string \<Rightarrow> uint64 \<Rightarrow> nat \<Rightarrow> bool" where
  "acc_ok g c v t k \<longleftrightarrow> (\<exists>j. (t, j) \<in> set (elected c)) \<and> k < length (tlog g t) \<and> t \<le> currentTerm (node c v) \<and>
     (kept (set (elected c)) (tlog g) t k {t<..currentTerm (node c v)} \<longrightarrow> agrees (tlog g) t k (nlog (node c v)))"

definition remembers :: "history \<Rightarrow> cluster \<Rightarrow> uint64 \<Rightarrow> string \<Rightarrow> bool" where
  "remembers g c s v \<longleftrightarrow> (\<forall>j. (s, j) \<notin> set (elected c)) \<or> v \<in> voters g s \<longrightarrow>
     (\<forall>t k. (v, t, k) \<in> accepted g \<and> t < s \<and> kept (set (elected c)) (tlog g) t k {t<..<s} \<longrightarrow>
       agrees (tlog g) t k (vlog g s v))"

definition vote_ok :: "history \<Rightarrow> cluster \<Rightarrow> uint64 \<Rightarrow> string \<Rightarrow> string \<Rightarrow> bool" where
  "vote_ok g c s v x \<longleftrightarrow> s \<le> currentTerm (node c x) \<and> good (set (elected c)) (tlog g) (vlog g s v) \<and>
     newer (clog g s x) (vlog g s v) \<and> remembers g c s v"

definition elect_ok :: "string list \<Rightarrow> history \<Rightarrow> cluster \<Rightarrow> uint64 \<Rightarrow> string \<Rightarrow> bool" where
  "elect_ok ms g c s i \<longleftrightarrow> is_majority ms (voters g s) \<and> (\<forall>v \<in> voters g s. (s, v, i) \<in> set (granted c)) \<and>
     (\<exists>ys. tlog g s = clog g s i @ ys) \<and> clog g s i \<noteq> [] \<and> (\<forall>e \<in> set (clog g s i). Term e < s)"

definition ballot_ok :: "history \<Rightarrow> cluster \<Rightarrow> RequestVoteArgs \<Rightarrow> bool" where
  "ballot_ok g c args \<longleftrightarrow> rvTerm args \<le> currentTerm (node c (rvCandidateID args)) \<and>
     (let l = clog g (rvTerm args) (rvCandidateID args)
      in rvLastLogTerm args = Term (last l) \<and> Suc (unat (rvLastLogIndex args)) = length l)"

definition cand_ok :: "history \<Rightarrow> cluster \<Rightarrow> string \<Rightarrow> bool" where
  "cand_ok g c i \<longleftrightarrow> (\<forall>t votes waiting. pc c i = InCandidate t votes waiting \<and> nstate (node c i) = Candidate \<and>
     currentTerm (node c i) = t \<longrightarrow> nlog (node c i) = clog g t i \<and> (\<forall>e \<in> set (nlog (node c i)). Term e < t))"

definition in_log :: "history \<Rightarrow> LogEntry \<Rightarrow> bool" where
  "in_log g e \<longleftrightarrow> 0 < unat (Index e) \<and> unat (Index e) < length (tlog g (Term e)) \<and> tlog g (Term e) ! unat (Index e) = e"

fun job_ok :: "string list \<Rightarrow> (uint64 \<times> string) set \<Rightarrow> history \<Rightarrow> task \<Rightarrow> bool" where
  "job_ok ms E g (RepStart i p e t lc) \<longleftrightarrow> Term e = t \<and> (t, i) \<in> E \<and> in_log g e"
| "job_ok ms E g (RepWait i p e t lc args) \<longleftrightarrow> Term e = t \<and> (t, i) \<in> E \<and> in_log g e \<and> aeTerm args = t \<and>
     unat (Index e) \<le> unat (aePrevLogIndex args) + length (aeEntries args)"
| "job_ok ms E g (RepDone i p e ok) \<longleftrightarrow> ok \<longrightarrow> (p, Term e, unat (Index e)) \<in> accepted g"
| "job_ok ms E g (Client i e acks waiting) \<longleftrightarrow> i \<in> set ms \<and> (Term e, i) \<in> E \<and> in_log g e \<and>
     (i, Term e, unat (Index e)) \<in> accepted g \<and> distinct waiting \<and> set waiting \<subseteq> set ms - {i} \<and>
     acks \<le> Suc (card {p \<in> set ms - {i} - set waiting. (p, Term e, unat (Index e)) \<in> accepted g})"
| "job_ok ms E g _ \<longleftrightarrow> True"

definition comp_inv :: "string list \<Rightarrow> history \<Rightarrow> cluster \<Rightarrow> bool" where
  "comp_inv ms g c \<longleftrightarrow> match_inv (tlog g) c \<and>
     (\<forall>v t k. (v, t, k) \<in> accepted g \<longrightarrow> acc_ok g c v t k) \<and>
     (\<forall>v t k k'. (v, t, k) \<in> accepted g \<and> k' \<le> k \<longrightarrow> (v, t, k') \<in> accepted g) \<and>
     (\<forall>s v x. (s, v, x) \<in> set (granted c) \<longrightarrow> vote_ok g c s v x) \<and>
     (\<forall>s i. (s, i) \<in> set (elected c) \<longrightarrow> elect_ok ms g c s i) \<and>
     (\<forall>p args. VoteReq p args \<in> set (msgs c) \<longrightarrow> ballot_ok g c args) \<and>
     (\<forall>i. cand_ok g c i) \<and>
     (\<forall>p args r. AppRep p args r \<in> set (msgs c) \<and> arSuccess r \<longrightarrow>
        (p, aeTerm args, unat (aePrevLogIndex args) + length (aeEntries args)) \<in> accepted g) \<and>
     (\<forall>t \<in> set (tasks c). job_ok ms (set (elected c)) g t)"

lemma comp_invD:
  assumes "comp_inv ms g c"
  shows "match_inv (tlog g) c"
    "(v, t, k) \<in> accepted g \<Longrightarrow> acc_ok g c v t k"
    "(v, t, k) \<in> accepted g \<Longrightarrow> k' \<le> k \<Longrightarrow> (v, t, k') \<in> accepted g"
    "(s, v, x) \<in> set (granted c) \<Longrightarrow> vote_ok g c s v x"
    "(s, i) \<in> set (elected c) \<Longrightarrow> elect_ok ms g c s i"
    "VoteReq p rv \<in> set (msgs c) \<Longrightarrow> ballot_ok g c rv"
    "cand_ok g c i"
    "AppRep p args r \<in> set (msgs c) \<Longrightarrow> arSuccess r \<Longrightarrow>
       (p, aeTerm args, unat (aePrevLogIndex args) + length (aeEntries args)) \<in> accepted g"
    "job \<in> set (tasks c) \<Longrightarrow> job_ok ms (set (elected c)) g job"
  using assms unfolding comp_inv_def by blast+

subsection \<open>Later leaders have the accepted entries\<close>

lemma good_last:
  assumes "good E G l" "1 < length l"
  shows "\<exists>j. (Term (last l), j) \<in> E" "l = take (length l) (G (Term (last l)))"
proof -
  have "l \<noteq> []"
    using assms(2) by auto
  then have k: "0 < length l - 1" "length l - 1 < length l" "l ! (length l - 1) = last l" "Suc (length l - 1) = length l"
    using assms(2) by (simp_all add: last_conv_nth)
  then have "(\<exists>j. (Term (last l), j) \<in> E) \<and> take (length l) l = take (length l) (G (Term (last l)))"
    using assms(1) unfolding good_def by metis
  then show "\<exists>j. (Term (last l), j) \<in> E" "l = take (length l) (G (Term (last l)))"
    by simp_all
qed

lemma agrees_nth: "agrees G t k l \<Longrightarrow> k < length (G t) \<Longrightarrow> i \<le> k \<Longrightarrow> k < length l \<and> l ! i = G t ! i"
proof -
  assume a: "agrees G t k l" "k < length (G t)" "i \<le> k"
  then have "length (take (Suc k) l) = Suc k"
    by (simp add: agrees_def)
  moreover have "take (Suc k) l ! i = take (Suc k) (G t) ! i"
    using a(1) by (simp add: agrees_def)
  ultimately show ?thesis
    using a(3) by simp
qed

lemma agrees_prefix: "agrees G t k (take n l) \<Longrightarrow> k < length (G t) \<Longrightarrow> agrees G t k l"
proof -
  assume a: "agrees G t k (take n l)" "k < length (G t)"
  then have "Suc k \<le> n"
    using agrees_nth [OF a, of k] by simp
  with a(1) show ?thesis
    by (simp add: agrees_def min_def)
qed

lemma agrees_shorter: "agrees G t k l \<Longrightarrow> k < n \<Longrightarrow> agrees G t k (take n l)"
  by (simp add: agrees_def min_def)

text \<open>
  A candidate's log that is at least as new as a log with the entry has the entry too, when the
  leaders before the election have it.
\<close>

lemma newer_agrees:
  assumes V: "good E G V" "agrees G t k V" and C: "good E G C" "newer C V" "\<forall>e \<in> set C. Term e < s"
    and k: "k < length (G t)" "0 < k" "Term (G t ! k) = t" and le: "\<forall>e \<in> set (G t). Term e \<le> t"
    and kept: "kept E G t k {t<..<s}"
  shows "agrees G t k C"
proof -
  have lenV: "k < length V" "V ! k = G t ! k"
    using agrees_nth [OF V(2) k(1), of k] by simp_all
  have "Term (V ! k) \<le> Term (V ! (length V - 1))"
    using V(1) lenV(1) sorted_nth_mono [of "map Term V" k "length V - 1"] by (simp add: good_def)
  then have t: "t \<le> Term (last V)"
    using lenV k(3) last_conv_nth [of V] by (cases V) simp_all
  have one: "1 < length V" "V \<noteq> []"
    using lenV(1) k(2) by auto
  show ?thesis
  proof (cases "Term (last C) = Term (last V)")
    case True
    then have len: "length V \<le> length C"
      using C(2) by (simp add: newer_def)
    have "V = take (length V) (G (Term (last V)))" "C = take (length C) (G (Term (last V)))"
      using good_last(2) [OF V(1) one(1)] good_last(2) [OF C(1)] len one(1) True by simp_all
    then have "V = take (length V) C"
      using len by (metis min.absorb1 take_take)
    then show ?thesis
      using V(2) k(1) agrees_prefix [of G t k "length V" C] by simp
  next
    case False
    then have lt: "t < Term (last C)"
      using C(2) t by (auto simp: newer_def)
    have "C \<noteq> []"
      using good_nonempty [OF C(1)] by auto
    moreover have "1 < length C"
    proof (rule ccontr)
      assume "\<not> 1 < length C"
      then have "C = newLogStore"
        using C(1) \<open>C \<noteq> []\<close> by (cases C) (auto simp: good_def)
      then show False
        using lt by (simp add: newLogStore_def)
    qed
    moreover from this obtain j where j: "(Term (last C), j) \<in> E"
      using good_last(1) [OF C(1)] by blast
    ultimately have G: "C = take (length C) (G (Term (last C)))" "Term (last C) < s"
      using good_last(2) [OF C(1)] C(3) by simp_all
    then have a: "agrees G t k (G (Term (last C)))"
      using kept j lt unfolding kept_def by auto
    have "k < length C"
    proof (rule ccontr)
      assume n: "\<not> k < length C"
      have "last C = G (Term (last C)) ! (length C - 1)"
        using G(1) \<open>C \<noteq> []\<close> by (metis diff_less last_conv_nth length_greater_0_conv nth_take zero_less_one)
      also have "\<dots> = G t ! (length C - 1)"
        using agrees_nth [OF a k(1), of "length C - 1"] n by simp
      finally have "Term (last C) \<le> t"
        using le k(1) n by (metis diff_le_self le_less_trans not_less nth_mem order.strict_trans1)
      then show False
        using lt by simp
    qed
    then show ?thesis
      using agrees_shorter [OF a] G(1) by metis
  qed
qed

text \<open>
  Leader completeness: what a majority has accepted from the leader of a term, up to an entry of
  that term, is in the log of every later leader.
\<close>

lemma completeness:
  assumes inv: "comp_inv ms g c" and t: "(t, j) \<in> set (elected c)" and k: "k < length (tlog g t)" "0 < k" "Term (tlog g t ! k) = t"
    and maj: "is_majority ms {v \<in> set ms. (v, t, k) \<in> accepted g}"
    and s: "(s, i) \<in> set (elected c)" "t < s"
  shows "agrees (tlog g) t k (tlog g s)"
  using s
proof (induction s arbitrary: i rule: measure_induct_rule [where f = unat])
  case (less s)
  let ?E = "set (elected c)"
  note m = match_invD [OF comp_invD(1) [OF inv]]
  have el: "is_majority ms (voters g s)" "\<forall>v \<in> voters g s. (s, v, i) \<in> set (granted c)" "clog g s i \<noteq> []"
      "\<forall>e \<in> set (clog g s i). Term e < s" and pre: "\<exists>ys. tlog g s = clog g s i @ ys"
    using comp_invD(5) [OF inv less(2)] by (simp_all add: elect_ok_def)
  obtain v where v: "v \<in> voters g s" "(v, t, k) \<in> accepted g"
    using majorities.meet [OF el(1) maj] by blast
  then have vote: "good ?E (tlog g) (vlog g s v)" "newer (clog g s i) (vlog g s v)" "remembers g c s v"
    using comp_invD(4) [OF inv] el(2) unfolding vote_ok_def by blast+
  have kept: "kept ?E (tlog g) t k {t<..<s}"
    unfolding kept_def using less(1) by (auto simp: word_less_nat_alt)
  then have V: "agrees (tlog g) t k (vlog g s v)"
    using vote(3) v less(3) unfolding remembers_def by blast
  obtain ys where ys: "tlog g s = clog g s i @ ys"
    using pre by blast
  then have C: "clog g s i = take (length (clog g s i)) (tlog g s)"
    by simp
  then have "good ?E (tlog g) (clog g s i)"
    using good_take [of ?E "tlog g" "tlog g s" "length (clog g s i)"] m(7) [OF less(2)] el(3) by simp
  then have "agrees (tlog g) t k (clog g s i)"
    using newer_agrees [OF vote(1) V _ vote(2) el(4) k _ kept] m(7) [OF t] by simp
  then show ?case
    using C k(1) agrees_prefix [of "tlog g" t k "length (clog g s i)" "tlog g s"] by simp
qed

subsection \<open>Steps keep the history\<close>

lemma agrees_ext:
  assumes "extends E G G'" "(t, j) \<in> E" "k < length (G t)"
  shows "agrees G' t k l \<longleftrightarrow> agrees G t k l" "k < length (G' t)"
proof -
  obtain ys where "G' t = G t @ ys"
    using extendsE [OF assms(1,2)] by blast
  with assms(3) show "agrees G' t k l \<longleftrightarrow> agrees G t k l" "k < length (G' t)"
    by (simp_all add: agrees_def)
qed

text \<open>An entry of a later term does not complete a prefix of an earlier one.\<close>

lemma kept_ext:
  assumes "extends E G G'" "E \<subseteq> E'" "(t, j) \<in> E" "k < length (G t)" "\<forall>e \<in> set (G t). Term e \<le> t"
    and kept: "kept E' G' t k S" and S: "\<forall>s \<in> S. t < s"
  shows "kept E G t k S"
  unfolding kept_def
proof (intro ballI, clarify)
  fix s i
  assume s: "(s, i) \<in> E" "s \<in> S"
  then have "agrees G' t k (G' s)"
    using kept assms(2) unfolding kept_def by auto
  then have a: "agrees G t k (G' s)"
    using agrees_ext(1) [OF assms(1,3,4)] by simp
  obtain ys where ys: "G' s = G s @ ys" "\<forall>e \<in> set ys. Term e = s"
    using extendsE [OF assms(1) s(1)] by blast
  have "k < length (G s)"
  proof (rule ccontr)
    assume n: "\<not> k < length (G s)"
    then have "k < length (G' s)" "G' s ! k = G t ! k"
      using agrees_nth [OF a assms(4), of k] by simp_all
    then have "Term (G' s ! k) \<le> t"
      using assms(4,5) by simp
    moreover have "Term (G' s ! k) = s"
      using n ys \<open>k < length (G' s)\<close> by (simp add: nth_append)
    ultimately show False
      using S s(2) by auto
  qed
  with a ys(1) show "agrees G t k (G s)"
    by (simp add: agrees_def)
qed

lemma in_log_ext:
  assumes "in_log g e" "extends E (tlog g) (tlog g')" "(Term e, j) \<in> E"
  shows "in_log g' e"
proof -
  obtain ys where "tlog g' (Term e) = tlog g (Term e) @ ys"
    using extendsE [OF assms(2,3)] by blast
  with assms(1) show ?thesis
    by (simp add: in_log_def nth_append)
qed

lemma job_ok_mono:
  assumes job: "job_ok ms E g t" and ext: "extends E (tlog g) (tlog g')" "E \<subseteq> E'" "accepted g \<subseteq> accepted g'"
  shows "job_ok ms E' g' t"
proof -
  have in_log: "in_log g' e" if "in_log g e" "(Term e, i) \<in> E" for e i
    by (rule in_log_ext [OF that(1) ext(1) that(2)])
  show ?thesis
  proof (cases t)
  case (Client i e acks waiting)
  have "card {p \<in> set ms - {i} - set waiting. (p, Term e, unat (Index e)) \<in> accepted g} \<le>
      card {p \<in> set ms - {i} - set waiting. (p, Term e, unat (Index e)) \<in> accepted g'}"
    using ext(3) by (intro card_mono) auto
  with Client job ext(2,3) in_log [of e i] show ?thesis
    by auto
next
  case (RepStart i p e u lc)
  with job ext(2) in_log [of e i] show ?thesis by auto
next
  case (RepWait i p e u lc args)
  with job ext(2) in_log [of e i] show ?thesis by auto
next
  case (RepDone i p e ok)
  with job ext(3) show ?thesis by auto
qed simp_all
qed

lemma acc_ok_mono:
  assumes acc: "acc_ok g c v t k" and le: "\<And>j. (t, j) \<in> set (elected c) \<Longrightarrow> \<forall>e \<in> set (tlog g t). Term e \<le> t"
    and ext: "extends (set (elected c)) (tlog g) (tlog g')" "set (elected c) \<subseteq> set (elected c')"
    and n: "currentTerm (node c v) \<le> currentTerm (node c' v)"
      "kept (set (elected c')) (tlog g') t k {t<..currentTerm (node c' v)} \<Longrightarrow> agrees (tlog g) t k (nlog (node c v)) \<Longrightarrow>
         agrees (tlog g) t k (nlog (node c' v))"
  shows "acc_ok g' c' v t k"
proof -
  obtain j where j: "(t, j) \<in> set (elected c)" and a: "k < length (tlog g t)" "t \<le> currentTerm (node c v)"
      "kept (set (elected c)) (tlog g) t k {t<..currentTerm (node c v)} \<Longrightarrow> agrees (tlog g) t k (nlog (node c v))"
    using acc unfolding acc_ok_def by blast
  have "agrees (tlog g) t k (nlog (node c' v))"
    if k: "kept (set (elected c')) (tlog g') t k {t<..currentTerm (node c' v)}"
  proof -
    have "kept (set (elected c)) (tlog g) t k {t<..currentTerm (node c' v)}"
      by (rule kept_ext [OF ext j a(1) le [OF j] k]) simp
    then have "kept (set (elected c)) (tlog g) t k {t<..currentTerm (node c v)}"
      using n(1) by (auto simp: kept_def)
    then show ?thesis
      using n(2) k a(3) by blast
  qed
  moreover have "t \<le> currentTerm (node c' v)"
    using a(2) n(1) by (rule order.trans)
  moreover have "(t, j) \<in> set (elected c')"
    using j ext(2) by blast
  ultimately show ?thesis
    unfolding acc_ok_def using agrees_ext [OF ext(1) j a(1)] by blast
qed

text \<open>A vote stays remembered: what its voter accepts later is of a term that is not older.\<close>

lemma remembers_mono:
  assumes old: "remembers g c s v" and inv: "comp_inv ms g c"
    and ext: "extends (set (elected c)) (tlog g) (tlog g')" "set (elected c) \<subseteq> set (elected c')"
    and same: "vlog g' s v = vlog g s v" "voters g' s = voters g s \<or> (\<forall>j. (s, j) \<notin> set (elected c))"
    and new: "\<And>t k. (v, t, k) \<in> accepted g' \<Longrightarrow> (v, t, k) \<in> accepted g \<or> s \<le> t"
  shows "remembers g' c' s v"
  unfolding remembers_def
proof (intro impI allI, elim conjE)
  fix t k
  assume p: "(\<forall>j. (s, j) \<notin> set (elected c')) \<or> v \<in> voters g' s"
    and a: "(v, t, k) \<in> accepted g'" "t < s" "kept (set (elected c')) (tlog g') t k {t<..<s}"
  have acc: "(v, t, k) \<in> accepted g"
    using new [OF a(1)] a(2) by auto
  obtain j where j: "(t, j) \<in> set (elected c)" "k < length (tlog g t)"
    using comp_invD(2) [OF inv acc] unfolding acc_ok_def by blast
  have "kept (set (elected c)) (tlog g) t k {t<..<s}"
    by (rule kept_ext [OF ext j _ a(3)]) (use match_invD(7) [OF comp_invD(1) [OF inv] j(1)] in auto)
  moreover have "(\<forall>j. (s, j) \<notin> set (elected c)) \<or> v \<in> voters g s"
    using p same(2) ext(2) by auto
  ultimately show "agrees (tlog g') t k (vlog g' s v)"
    using old acc a(2) agrees_ext(1) [OF ext(1) j] unfolding remembers_def same(1) by blast
qed

lemma comp_update:
  assumes inv: "comp_inv ms g c" and v: "voting_inv ms c" and match: "match_inv (tlog g') c'"
    and ext: "extends (set (elected c)) (tlog g) (tlog g')" "set (elected c) \<subseteq> set (elected c')" "accepted g \<subseteq> accepted g'"
      "set (granted c) \<subseteq> set (granted c')"
    and terms: "\<And>i. currentTerm (node c i) \<le> currentTerm (node c' i)"
    and logs: "\<And>i t k. (i, t, k) \<in> accepted g \<Longrightarrow> kept (set (elected c')) (tlog g') t k {t<..currentTerm (node c' i)} \<Longrightarrow>
      agrees (tlog g) t k (nlog (node c i)) \<Longrightarrow> agrees (tlog g) t k (nlog (node c' i))"
    and acc: "\<And>i t k. (i, t, k) \<in> accepted g' \<Longrightarrow> (i, t, k) \<in> accepted g \<or> (t = currentTerm (node c' i) \<and> acc_ok g' c' i t k)"
    and down: "\<And>i t k k'. (i, t, k) \<in> accepted g' \<Longrightarrow> k' \<le> k \<Longrightarrow> (i, t, k') \<in> accepted g'"
    and votes: "\<And>s i x. (s, i, x) \<in> set (granted c') \<Longrightarrow>
      ((s, i, x) \<in> set (granted c) \<and> vlog g' s i = vlog g s i \<and> clog g' s x = clog g s x) \<or> vote_ok g' c' s i x"
    and quo: "\<And>s. voters g' s = voters g s \<or> (\<forall>j. (s, j) \<notin> set (elected c))"
    and elect: "\<And>s i. (s, i) \<in> set (elected c') \<Longrightarrow>
      ((s, i) \<in> set (elected c) \<and> clog g' s i = clog g s i) \<or> elect_ok ms g' c' s i"
    and ballots: "\<And>p args. VoteReq p args \<in> set (msgs c') \<Longrightarrow> (VoteReq p args \<in> set (msgs c) \<and>
      clog g' (rvTerm args) (rvCandidateID args) = clog g (rvTerm args) (rvCandidateID args)) \<or> ballot_ok g' c' args"
    and cands: "\<And>i. cand_ok g' c' i"
    and replies: "\<And>p args r. AppRep p args r \<in> set (msgs c') \<Longrightarrow> arSuccess r \<Longrightarrow> AppRep p args r \<in> set (msgs c) \<or>
      (p, aeTerm args, unat (aePrevLogIndex args) + length (aeEntries args)) \<in> accepted g'"
    and tasks: "\<And>t. t \<in> set (tasks c') \<Longrightarrow> t \<in> set (tasks c) \<or> job_ok ms (set (elected c')) g' t"
  shows "comp_inv ms g' c'"
proof -
  note inv' = comp_invD [OF inv]
  have 1: "acc_ok g' c' i t k" if "(i, t, k) \<in> accepted g'" for i t k
  proof (cases "(i, t, k) \<in> accepted g")
    case True
    show ?thesis
      by (rule acc_ok_mono [OF inv'(2) [OF True] _ ext(1,2) terms logs [OF True]])
        (use match_invD(7) [OF inv'(1)] in auto)
  next
    case False
    with acc [OF that] show ?thesis by blast
  qed
  have 2: "vote_ok g' c' s i x" if g: "(s, i, x) \<in> set (granted c')" for s i x
  proof (cases "(s, i, x) \<in> set (granted c) \<and> vlog g' s i = vlog g s i \<and> clog g' s x = clog g s x")
    case True
    then have old: "vote_ok g c s i x" "s \<le> currentTerm (node c i)"
      using inv'(4) v by (auto simp: voting_inv_def granted_inv_def)
    have "remembers g' c' s i"
    proof (rule remembers_mono [OF _ inv ext(1,2) _ quo])
      show "(i, t, k) \<in> accepted g \<or> s \<le> t" if "(i, t, k) \<in> accepted g'" for t k
        using acc [OF that] old(2) terms [of i] by auto
    qed (use old True in \<open>auto simp: vote_ok_def\<close>)
    with old True terms [of x] good_mono [OF _ ext(1,2)] show ?thesis
      by (auto simp: vote_ok_def)
  next
    case False
    with votes [OF g] show ?thesis by blast
  qed
  have 3: "elect_ok ms g' c' s i" if e: "(s, i) \<in> set (elected c')" for s i
  proof (cases "(s, i) \<in> set (elected c) \<and> clog g' s i = clog g s i")
    case True
    then have "elect_ok ms g c s i" "voters g' s = voters g s"
      using inv'(5) quo [of s] by blast+
    moreover obtain ys where "tlog g' s = tlog g s @ ys"
      using extendsE [OF ext(1)] True by blast
    ultimately show ?thesis
      using True ext(4) by (auto simp: elect_ok_def)
  next
    case False
    with elect [OF e] show ?thesis by blast
  qed
  have 4: "ballot_ok g' c' args" if "VoteReq p args \<in> set (msgs c')" for p args
    using ballots [OF that] inv'(6) [of p args] terms [of "rvCandidateID args"] by (auto simp: ballot_ok_def)
  have 5: "(p, aeTerm args, unat (aePrevLogIndex args) + length (aeEntries args)) \<in> accepted g'"
    if "AppRep p args r \<in> set (msgs c')" "arSuccess r" for p args r
    using replies [OF that] inv'(8) [OF _ that(2)] ext(3) by blast
  have 6: "job_ok ms (set (elected c')) g' t" if "t \<in> set (tasks c')" for t
    using tasks [OF that] inv'(9) [of t] job_ok_mono [OF _ ext(1-3)] by auto
  show ?thesis
    unfolding comp_inv_def
    apply (intro conjI)
    subgoal using match .
    subgoal using 1 by blast
    subgoal using down by blast
    subgoal using 2 by blast
    subgoal using 3 by blast
    subgoal using 4 by blast
    subgoal using cands by blast
    subgoal using 5 by blast
    subgoal using 6 by blast
    done
qed

subsection \<open>Steps that change no log and give no vote\<close>

definition cand_frame :: "cluster \<Rightarrow> cluster \<Rightarrow> bool" where
  "cand_frame c c' \<longleftrightarrow> (\<forall>i t votes waiting. pc c' i = InCandidate t votes waiting \<and> nstate (node c' i) = Candidate \<and>
     currentTerm (node c' i) = t \<longrightarrow> (\<exists>v w. pc c i = InCandidate t v w) \<and> nstate (node c i) = Candidate \<and>
     currentTerm (node c i) = t \<and> nlog (node c' i) = nlog (node c i))"

lemma cand_ok_frame:
  assumes "cand_frame c c'" "cand_ok g c i" "\<And>t. clog g' t i = clog g t i"
  shows "cand_ok g' c' i"
  using assms unfolding cand_ok_def cand_frame_def by metis

lemma comp_quiet:
  assumes inv: "comp_inv ms g c" and v: "voting_inv ms c" and match: "match_inv (tlog g) c'"
    and same: "elected c' = elected c" "granted c' = granted c"
    and nodes: "\<And>i. currentTerm (node c i) \<le> currentTerm (node c' i)" "\<And>i. nlog (node c' i) = nlog (node c i)"
    and cands: "cand_frame c c'"
    and msgs: "\<And>p args. VoteReq p args \<in> set (msgs c') \<Longrightarrow> VoteReq p args \<in> set (msgs c)"
      "\<And>p args r. AppRep p args r \<in> set (msgs c') \<Longrightarrow> arSuccess r \<Longrightarrow> AppRep p args r \<in> set (msgs c)"
    and tasks: "\<And>t. t \<in> set (tasks c') \<Longrightarrow> t \<in> set (tasks c) \<or> job_ok ms (set (elected c)) g t"
  shows "comp_inv ms g c'"
proof (rule comp_update [OF inv v match])
  show "cand_ok g c' i" for i
    by (rule cand_ok_frame [OF cands comp_invD(7) [OF inv]]) simp
qed (use same nodes msgs tasks comp_invD(3) [OF inv] in auto)

lemma comp_step_same:
  assumes inv: "comp_inv ms g c" and v: "voting_inv ms c" and match: "match_inv (tlog g) c'"
  shows "act_top i c = Some c' \<Longrightarrow> comp_inv ms g c'" "act_tick i c = Some c' \<Longrightarrow> comp_inv ms g c'"
    "act_vote_error i p c = Some c' \<Longrightarrow> comp_inv ms g c'" "act_election_over i c = Some c' \<Longrightarrow> comp_inv ms g c'"
    "act_drop m c = Some c' \<Longrightarrow> comp_inv ms g c'" "act_hb_error i p args c = Some c' \<Longrightarrow> comp_inv ms g c'"
    "act_rep_error i p e t lc args c = Some c' \<Longrightarrow> comp_inv ms g c'"
    "act_client_timeout i e acks waiting c = Some c' \<Longrightarrow> comp_inv ms g c'"
    "act_hb_send i p c = Some c' \<Longrightarrow> comp_inv ms g c'"
proof -
  note quiet = comp_quiet [OF inv v match]
  show "act_top i c = Some c' \<Longrightarrow> comp_inv ms g c'"
    by (rule quiet) (auto simp: act_top_def cand_frame_def cluster_defs split: if_splits NodeState.splits)
  show "act_tick i c = Some c' \<Longrightarrow> comp_inv ms g c'"
    by (rule quiet) (auto simp: act_tick_def cand_frame_def cluster_defs split: if_splits)
  show "act_vote_error i p c = Some c' \<Longrightarrow> comp_inv ms g c'"
    by (rule quiet) (auto simp: act_vote_error_def cand_frame_def cluster_defs split: if_splits loop_pc.splits)
  show "act_election_over i c = Some c' \<Longrightarrow> comp_inv ms g c'"
    by (rule quiet) (auto simp: act_election_over_def cand_frame_def cluster_defs split: if_splits loop_pc.splits)
  show "act_drop m c = Some c' \<Longrightarrow> comp_inv ms g c'"
    by (rule quiet) (auto simp: act_drop_def cand_frame_def dest: in_remove1 split: if_splits)
  show "act_hb_error i p args c = Some c' \<Longrightarrow> comp_inv ms g c'"
    by (rule quiet) (auto simp: act_hb_error_def cand_frame_def dest: in_remove1 split: if_splits)
  show "act_rep_error i p e t lc args c = Some c' \<Longrightarrow> comp_inv ms g c'"
    by (rule quiet) (auto simp: act_rep_error_def cand_frame_def dest: in_remove1 split: if_splits)
  show "act_client_timeout i e acks waiting c = Some c' \<Longrightarrow> comp_inv ms g c'"
    by (rule quiet) (auto simp: act_client_timeout_def cand_frame_def dest: in_remove1 split: if_splits)
  show "act_hb_send i p c = Some c' \<Longrightarrow> comp_inv ms g c'"
    by (rule quiet) (auto simp: act_hb_send_def Let_def cand_frame_def dest: in_remove1 split: if_splits)
qed

lemma comp_step_local:
  assumes inv: "comp_inv ms g c" and v: "voting_inv ms c" and match: "match_inv (tlog g) c'"
  shows "act_timeout i c = Some c' \<Longrightarrow> comp_inv ms g c'" "act_reset i c = Some c' \<Longrightarrow> comp_inv ms g c'"
    "act_stepdown i c = Some c' \<Longrightarrow> comp_inv ms g c'" "act_apply i c = Some c' \<Longrightarrow> comp_inv ms g c'"
    "act_apply_send i cmds c = Some c' \<Longrightarrow> comp_inv ms g c'"
proof -
  note quiet = comp_quiet [OF inv v match]
  show "act_timeout i c = Some c' \<Longrightarrow> comp_inv ms g c'"
    by (rule quiet) (auto simp: act_timeout_def cand_frame_def cluster_defs split: if_splits)
  show "act_reset i c = Some c' \<Longrightarrow> comp_inv ms g c'"
    by (rule quiet) (auto simp: act_reset_def cand_frame_def cluster_defs split: if_splits)
  show "act_stepdown i c = Some c' \<Longrightarrow> comp_inv ms g c'"
    by (rule quiet) (auto simp: act_stepdown_def cand_frame_def cluster_defs split: if_splits list.splits)
  show "act_apply i c = Some c' \<Longrightarrow> comp_inv ms g c'"
    by (rule quiet) (auto simp: act_apply_def applyCommitted_def cand_frame_def cluster_defs dest: in_remove1 split: if_splits)
  show "act_apply_send i cmds c = Some c' \<Longrightarrow> comp_inv ms g c'"
    by (rule quiet)
      (auto simp: act_apply_send_def cand_frame_def cluster_defs dest: in_remove1 split: if_splits option.splits list.splits)
qed

subsection \<open>Replication and acknowledgements\<close>

lemma heartbeatReply_facts:
  assumes "heartbeatReply p args r n = Some (n', go)"
  shows "nlog n' = nlog n" "currentTerm n' = currentTerm n" "nstate n' = nstate n"
  using assms by (auto simp: heartbeatReply_def Let_def advanceCommitIndex_def dest!: advanceLoop_commit_only split: if_splits)

lemma comp_step_hb_reply:
  assumes inv: "comp_inv ms g c" and v: "voting_inv ms c" and match: "match_inv (tlog g) c'"
    and act: "act_hb_reply i p args reply c = Some c'"
  shows "comp_inv ms g c'"
proof -
  obtain n go where h: "heartbeatReply p args reply (node c i) = Some (n, go)"
    using act by (auto simp: act_hb_reply_def split: if_splits option.splits)
  show ?thesis
    by (rule comp_quiet [OF inv v match])
      (use act h heartbeatReply_facts [OF h] in
        \<open>auto simp: act_hb_reply_def cand_frame_def cluster_defs dest: in_remove1 split: if_splits\<close>)
qed

text \<open>A request for an entry of the leader's log ends at that entry or refers to a later one.\<close>

lemma replicate_reaches:
  assumes n: "node_ok E n" and p: "nextIndex n p \<noteq> 0" and e: "Index e \<noteq> - 1" "unat (Index e) < length (nlog n)"
    and r: "replicateArgs p e t lc n = Some (Some args)"
  shows "unat (Index e) \<le> unat (aePrevLogIndex args) + length (aeEntries args)"
proof -
  have wf: "log_wf (nlog n)"
    using n by (simp add: node_ok_def)
  have "aePrevLogIndex args = nextIndex n p - 1" "aeEntries args = drop (unat (nextIndex n p)) (take (Suc (unat (Index e))) (nlog n))"
    using r by (auto simp: replicateArgs_def Let_def collectEntries_segment [OF wf e(1)] split: if_splits)
  moreover have "Suc (unat (nextIndex n p - 1)) = unat (nextIndex n p)"
    by (rule unat_minus_one [OF p])
  ultimately show ?thesis
    using e(2) by auto
qed

lemma comp_step_rep_send:
  assumes inv: "comp_inv ms g c" and log: "log_inv c" and v: "voting_inv ms c" and match: "match_inv (tlog g) c'"
    and act: "act_rep_send i p e t lc c = Some c'"
  shows "comp_inv ms g c'"
proof -
  have t: "RepStart i p e t lc \<in> set (tasks c)"
    using act by (simp add: act_rep_send_def split: if_splits)
  then have job: "Term e = t" "(t, i) \<in> set (elected c)" "in_log g e" and ok: "nextIndex (node c i) p \<noteq> 0" "Index e \<noteq> - 1"
    using comp_invD(9) [OF inv t] log_invD(3) [OF log t] by simp_all
  have reach: "aeTerm args = t \<and> unat (Index e) \<le> unat (aePrevLogIndex args) + length (aeEntries args)"
    if r: "replicateArgs p e t lc (node c i) = Some (Some args)" for args
  proof -
    have l: "nstate (node c i) = Leader" "currentTerm (node c i) = t" "aeTerm args = t"
      by (rule segment_replicate [OF log_invD(1) [OF log] ok r])+
    then have "unat (Index e) < length (nlog (node c i))"
      using match_invD(2) [OF comp_invD(1) [OF inv] l(1)] job by (simp add: in_log_def)
    with l(3) show ?thesis
      using replicate_reaches [OF log_invD(1) [OF log] ok _ r] by simp
  qed
  show ?thesis
    by (rule comp_quiet [OF inv v match])
      (use act t job reach in \<open>auto simp: act_rep_send_def cand_frame_def dest: in_remove1 split: option.splits\<close>)
qed

lemma comp_step_rep_reply:
  assumes inv: "comp_inv ms g c" and v: "voting_inv ms c" and match: "match_inv (tlog g) c'"
    and act: "act_rep_reply i p e t lc args r c = Some c'"
  shows "comp_inv ms g c'"
proof -
  obtain x n where h: "replicateReply p e t r (node c i) = (x, n)"
    by (metis surj_pair)
  have t: "RepWait i p e t lc args \<in> set (tasks c)" and m: "AppRep p args r \<in> set (msgs c)"
    using act by (simp_all add: act_rep_reply_def split: if_splits)
  have job: "Term e = t" "(t, i) \<in> set (elected c)" "in_log g e" "aeTerm args = t"
      "unat (Index e) \<le> unat (aePrevLogIndex args) + length (aeEntries args)"
    using comp_invD(9) [OF inv t] by simp_all
  have acc: "(p, t, unat (Index e)) \<in> accepted g" if "x = Acked True"
  proof -
    have "arSuccess r"
      using h that by (auto simp: replicateReply_def split: if_splits)
    then show ?thesis
      using comp_invD(3) [OF inv comp_invD(8) [OF inv m] job(5)] job(4) by simp
  qed
  have n: "nlog n = nlog (node c i)" "currentTerm n = currentTerm (node c i)" "nstate n = nstate (node c i)"
    using h by (auto simp: replicateReply_def split: if_splits)
  show ?thesis
    by (rule comp_quiet [OF inv v match])
      (use act t m h n job acc in
        \<open>auto simp: act_rep_reply_def cand_frame_def cluster_defs dest: in_remove1 split: if_splits replicate_next.splits\<close>)
qed

text \<open>An acknowledgement of a peer that has not answered is counted once.\<close>

lemma job_ok_ack:
  assumes "job_ok ms E g (Client i e acks waiting)" "p \<in> set waiting" "ok \<Longrightarrow> (p, Term e, unat (Index e)) \<in> accepted g"
  shows "job_ok ms E g (Client i e (if ok then acks + 1 else acks) (remove1 p waiting))"
proof -
  let ?A = "\<lambda>w. {q \<in> set ms - {i} - set w. (q, Term e, unat (Index e)) \<in> accepted g}"
  have w: "distinct waiting" "set waiting \<subseteq> set ms - {i}" "acks \<le> Suc (card (?A waiting))"
    using assms(1) by simp_all
  have sub: "?A waiting \<subseteq> ?A (remove1 p waiting)"
    using set_remove1_subset [of p waiting] by auto
  have "card (?A waiting) \<le> card (?A (remove1 p waiting))"
    by (rule card_mono [OF _ sub]) simp
  moreover have "Suc (card (?A waiting)) = card (?A (remove1 p waiting))" if "ok"
  proof -
    have "?A (remove1 p waiting) = insert p (?A waiting)"
      using assms(2,3) w that by (auto simp: distinct_remove1)
    then show ?thesis
      using assms(2) by (simp add: card_insert_if)
  qed
  ultimately show ?thesis
    using assms(1) set_remove1_subset [of p waiting] by (auto simp: distinct_remove1 intro: le_trans)
qed

lemma comp_step_ack:
  assumes inv: "comp_inv ms g c" and v: "voting_inv ms c" and match: "match_inv (tlog g) c'"
    and act: "act_ack i e acks waiting p ok c = Some c'"
  shows "comp_inv ms g c'"
proof -
  have t: "Client i e acks waiting \<in> set (tasks c)" "RepDone i p e ok \<in> set (tasks c)" "p \<in> set waiting"
    using act by (simp_all add: act_ack_def split: if_splits)
  have "job_ok ms (set (elected c)) g (Client i e (if ok then acks + 1 else acks) (remove1 p waiting))"
    by (rule job_ok_ack [OF comp_invD(9) [OF inv t(1)] t(3)]) (use comp_invD(9) [OF inv t(2)] in simp)
  then show ?thesis
    by (intro comp_quiet [OF inv v match])
      (use act t in \<open>auto simp: act_ack_def Let_def cand_frame_def cluster_defs replicateCommit_def simp del: job_ok.simps(4)
        dest!: in_remove1 split: if_splits\<close>)
qed

lemma comp_step_vote:
  assumes inv: "comp_inv ms g c" and v: "voting_inv ms c" and match: "match_inv (tlog g) c'"
    and act: "act_vote i p args reply c = Some c'" and e: "elected c' = elected c"
  shows "comp_inv ms g c'"
  by (rule comp_quiet [OF inv v match])
    (use act e in \<open>auto simp: act_vote_def cand_frame_def cluster_defs Let_def becomeLeader_facts dest: in_remove1
      split: loop_pc.splits if_splits\<close>)

end
