(* ===== verification/Raft_Completeness.thy ===== *)
theory Raft_Completeness
  imports Raft_History
begin

text \<open>
  Every step of the runs of the Log Matching property keeps the invariant of the history, so a
  command whose caller was told that it is committed stays in the log of every later leader. The
  same does not hold of an entry that a leader commits by counting the answers to its heartbeats.
\<close>

subsection \<open>Accepting entries\<close>

definition grows :: "cluster \<Rightarrow> history \<Rightarrow> history \<Rightarrow> bool" where
  "grows c g g' \<longleftrightarrow> extends (set (elected c)) (tlog g) (tlog g') \<and> accepted g \<subseteq> accepted g'"

lemma grows_refl [simp]: "grows c g g"
  by (simp add: grows_def)

text \<open>A request that names an entry no leader has written is refused.\<close>

lemma accepted_segment:
  assumes match: "match_inv G c" and wf: "log_wf (nlog (node c p))" and m: "AppReq p args \<in> set (msgs c)"
    and ok: "prevOK args (nlog (node c p))"
  shows "segment_of args (G (aeTerm args))"
proof (rule ccontr)
  let ?l = "nlog (node c p)" and ?k = "unat (aePrevLogIndex args)"
  assume "\<not> segment_of args (G (aeTerm args))"
  then have h: "aePrevLogIndex args \<noteq> 0" "aePrevLogTerm args = 0"
    using match_invD(3) [OF match m] by (auto simp: carried_def hopeless_def)
  have k: "0 < ?k" "?k < length ?l"
    using h(1) prevOK_length [OF wf ok] by (simp_all add: unat_gt_0)
  then obtain j where "(Term (?l ! ?k), j) \<in> set (elected c)"
    using match_invD(1) [OF match, of p] unfolding good_def by blast
  moreover have "Term (?l ! ?k) = 0"
    using ok h k by (simp add: prevOK_def entryAt_nth [OF wf])
  ultimately show False
    using match_invD(7) [OF match, of 0 j] by simp
qed

lemma handle_append_agrees:
  assumes match: "match_inv G c" and log: "log_inv c" and m: "AppReq p args \<in> set (msgs c)"
    and h: "HandleAppendEntries args (node c p) = (r, n, go)" and ok: "arSuccess r"
  shows "k \<le> unat (aePrevLogIndex args) + length (aeEntries args) \<Longrightarrow> agrees G (aeTerm args) k (nlog n) \<and> k < length (G (aeTerm args))"
    "k < length (G (aeTerm args)) \<Longrightarrow> agrees G (aeTerm args) k (nlog (node c p)) \<Longrightarrow> agrees G (aeTerm args) k (nlog n)"
proof -
  let ?S = "G (aeTerm args)"
  have wf: "log_wf (nlog (node c p))" "args_wf args"
    using log_invD(1) [OF log, of p] log_invD(2) [OF log m] by (simp_all add: node_ok_def args_ok_def)
  have nl: "nlog n = merge_at (Suc (unat (aePrevLogIndex args))) (aeEntries args) (nlog (node c p))"
    using HandleAppendEntries_log(1) [OF h wf] ok by simp
  have prev: "prevOK args (nlog (node c p))"
    using HandleAppendEntries_facts(4) [OF h] ok by simp
  obtain j where "(aeTerm args, j) \<in> set (elected c)"
    using match_invD(3) [OF match m] unfolding carried_def by blast
  then have S: "good (set (elected c)) G ?S" "segment_of args ?S"
    using match_invD(7) [OF match] accepted_segment [OF match wf(1) m prev] by simp_all
  let ?n = "Suc (unat (aePrevLogIndex args)) + length (aeEntries args)"
  have n: "?n \<le> length ?S"
    using S(2) by (simp add: segment_of_def Let_def)
  have "take ?n (nlog n) = take ?n ?S"
    unfolding nl by (rule merge_segment(2) [OF match_invD(1) [OF match] wf(1) S prev])
  then have "take (Suc k) (take ?n (nlog n)) = take (Suc k) (take ?n ?S)"
    by (rule arg_cong)
  then have "take (Suc k) (nlog n) = take (Suc k) ?S" if "Suc k \<le> ?n"
    using that by (simp add: min_def del: take_Suc_Cons)
  then show "agrees G (aeTerm args) k (nlog n) \<and> k < length ?S" if "k \<le> unat (aePrevLogIndex args) + length (aeEntries args)"
    using that n by (simp add: agrees_def)
  show "agrees G (aeTerm args) k (nlog n)" if "k < length ?S" "agrees G (aeTerm args) k (nlog (node c p))"
    using merge_segment_keeps [OF match_invD(1) [OF match] wf(1) S prev that(1)] that(2) by (simp add: agrees_def nl)
qed

text \<open>What a node has accepted in an earlier term survives, when the leader it hears from has it.\<close>

lemma append_keeps_accepted:
  assumes inv: "comp_inv ms g c" and log: "log_inv c" and m: "AppReq p args \<in> set (msgs c)"
    and h: "HandleAppendEntries args (node c p) = (r, n, go)" and ok: "arSuccess r"
    and a: "(p, t, k) \<in> accepted g" "kept (set (elected c)) (tlog g) t k {t<..currentTerm n}" "agrees (tlog g) t k (nlog (node c p))"
  shows "agrees (tlog g) t k (nlog n)"
proof -
  let ?T = "aeTerm args"
  have T: "currentTerm n = ?T" "currentTerm (node c p) \<le> ?T"
    using HandleAppendEntries_facts(2,4) [OF h] ok by (simp_all add: max_def)
  have acc: "k < length (tlog g t)" "t \<le> ?T"
    using comp_invD(2) [OF inv a(1)] T(2) by (auto simp: acc_ok_def)
  obtain j where j: "(?T, j) \<in> set (elected c)"
    using match_invD(3) [OF comp_invD(1) [OF inv] m] unfolding carried_def by blast
  have S: "agrees (tlog g) t k (tlog g ?T)"
  proof (cases "t = ?T")
    case False
    with a(2) acc(2) j T(1) show ?thesis
      unfolding kept_def by auto
  qed (simp add: agrees_def)
  then have "k < length (tlog g ?T)"
    using agrees_nth [OF S acc(1), of k] by simp
  moreover have "agrees (tlog g) ?T k (nlog (node c p))"
    using S a(3) by (simp add: agrees_def)
  ultimately have "agrees (tlog g) ?T k (nlog n)"
    by (rule handle_append_agrees(2) [OF comp_invD(1) [OF inv] log m h ok])
  with S show ?thesis
    by (simp add: agrees_def)
qed

lemma comp_step_append:
  assumes inv: "comp_inv ms g c" and log: "log_inv c" and v: "voting_inv ms c" and match: "match_inv (tlog g) c'"
    and act: "act_deliver (AppReq p args) c = Some c'"
  shows "\<exists>g'. comp_inv ms g' c' \<and> grows c g g'"
proof -
  have m: "AppReq p args \<in> set (msgs c)"
    using act by (auto simp: act_deliver_def split: if_splits)
  obtain r n go where h: "HandleAppendEntries args (node c p) = (r, n, go)"
    by (metis prod.collapse)
  note f = HandleAppendEntries_facts [OF h]
  have c': "c' = (set_node p n c)\<lparr>msgs := remove1 (AppReq p args) (msgs c) @ [AppRep p args r],
      tasks := tasks c @ (if go then [ApplyStart p] else [])\<rparr>"
    using act h m by (simp add: act_deliver_def)
  have cand: "cand_frame c c'"
    using f(1,6) by (auto simp: c' cand_frame_def cluster_defs split: if_splits)
  show ?thesis
  proof (cases "arSuccess r")
    case False
    then have "comp_inv ms g c'"
      by (intro comp_quiet [OF inv v match _ _ _ _ cand]) (use f(2,7) in \<open>auto simp: c' cluster_defs dest: in_remove1\<close>)
    then show ?thesis
      using grows_refl by blast
  next
    case True
    let ?T = "aeTerm args" and ?K = "unat (aePrevLogIndex args) + length (aeEntries args)"
    define g' where "g' = g\<lparr>accepted := accepted g \<union> {(p, ?T, k) | k. k \<le> ?K}\<rparr>"
    have g': "tlog g' = tlog g" "clog g' = clog g" "vlog g' = vlog g" "voters g' = voters g"
        "accepted g' = accepted g \<union> {(p, ?T, k) | k. k \<le> ?K}"
      by (simp_all add: g'_def)
    have p': "node c' = (node c)(p := n)" "elected c' = elected c" "granted c' = granted c"
        "msgs c' = remove1 (AppReq p args) (msgs c) @ [AppRep p args r]" "\<And>t. t \<in> set (tasks c') \<Longrightarrow> t \<in> set (tasks c) \<or> t = ApplyStart p"
      by (auto simp: c' cluster_defs)
    have T: "currentTerm n = ?T"
      using f(2,4) True by (simp add: max_def)
    obtain j where j: "(?T, j) \<in> set (elected c)"
      using match_invD(3) [OF comp_invD(1) [OF inv] m] unfolding carried_def by blast
    have new: "acc_ok g' c' p ?T k" if "k \<le> ?K" for k
      using handle_append_agrees(1) [OF comp_invD(1) [OF inv] log m h True that] j T
      by (auto simp: acc_ok_def g' p'(1-4))
    have "comp_inv ms g' c'"
    proof (rule comp_update [OF inv v])
      show "agrees (tlog g) t k (nlog (node c' i))" if "(i, t, k) \<in> accepted g"
          "kept (set (elected c')) (tlog g') t k {t<..currentTerm (node c' i)}" "agrees (tlog g) t k (nlog (node c i))" for i t k
        using that append_keeps_accepted [OF inv log m h True, of t k] by (cases "i = p") (simp_all add: p'(1-4) g')
      show "(i, t, k) \<in> accepted g \<or> (t = currentTerm (node c' i) \<and> acc_ok g' c' i t k)" if "(i, t, k) \<in> accepted g'" for i t k
        using that new T by (auto simp: g' p'(1-4))
      show "(i, t, k') \<in> accepted g'" if "(i, t, k) \<in> accepted g'" "k' \<le> k" for i t k k'
        using that comp_invD(3) [OF inv, of i t k k'] by (auto simp: g')
      show "cand_ok g' c' i" for i
        by (rule cand_ok_frame [OF cand comp_invD(7) [OF inv]]) (simp add: g')
      show "t \<in> set (tasks c) \<or> job_ok ms (set (elected c')) g' t" if "t \<in> set (tasks c')" for t
        using p'(5) [OF that] by auto
      show "AppRep q a x \<in> set (msgs c) \<or> (q, aeTerm a, unat (aePrevLogIndex a) + length (aeEntries a)) \<in> accepted g'"
        if "AppRep q a x \<in> set (msgs c')" "arSuccess x" for q a x
        using that by (auto simp: g' p'(1-4) dest: in_remove1)
      show "(VoteReq q a \<in> set (msgs c) \<and> clog g' (rvTerm a) (rvCandidateID a) = clog g (rvTerm a) (rvCandidateID a)) \<or> ballot_ok g' c' a"
        if "VoteReq q a \<in> set (msgs c')" for q a
        using that by (auto simp: g' p'(1-4) dest: in_remove1)
    qed (use match f(2) in \<open>simp_all add: g' p'(1-3)\<close>)
    then show ?thesis
      by (intro exI [of _ g']) (simp add: grows_def g')
  qed
qed

subsection \<open>Votes\<close>

lemma last_of_log:
  assumes "node_ok E n"
  shows "snd (lastIndexAndTerm (nlog n)) = Term (last (nlog n))" "Suc (unat (fst (lastIndexAndTerm (nlog n)))) = length (nlog n)"
proof -
  have "nlog n \<noteq> []"
    using assms log_wf_nonempty by (simp add: node_ok_def)
  with lastIndex_not_max(2) [OF assms] show "Suc (unat (fst (lastIndexAndTerm (nlog n)))) = length (nlog n)"
    by simp
  show "snd (lastIndexAndTerm (nlog n)) = Term (last (nlog n))"
    using assms \<open>nlog n \<noteq> []\<close> by (simp add: node_ok_def lastIndexAndTerm_eq)
qed

lemma logOK_newer:
  assumes "node_ok E n" "logOK args (nlog n)" "ballot_ok g c args"
  shows "newer (clog g (rvTerm args) (rvCandidateID args)) (nlog n)"
proof -
  let ?C = "clog g (rvTerm args) (rvCandidateID args)"
  have b: "rvLastLogTerm args = Term (last ?C)" "Suc (unat (rvLastLogIndex args)) = length ?C"
    using assms(3) by (simp_all add: ballot_ok_def Let_def)
  have "snd (lastIndexAndTerm (nlog n)) < rvLastLogTerm args \<or>
      (rvLastLogTerm args = snd (lastIndexAndTerm (nlog n)) \<and> unat (fst (lastIndexAndTerm (nlog n))) \<le> unat (rvLastLogIndex args))"
    using assms(2) by (auto simp: logOK_def word_le_nat_alt split: prod.splits)
  then show ?thesis
    using b last_of_log [OF assms(1)] by (auto simp: newer_def)
qed

text \<open>The first vote of a node in a term in which nobody is elected yet.\<close>

lemma first_vote_remembers:
  assumes inv: "comp_inv ms g c" and s: "currentTerm (node c v) \<le> s" "\<And>j. (s, j) \<notin> set (elected c)"
    and a: "(v, t, k) \<in> accepted g" "kept (set (elected c)) (tlog g) t k {t<..<s}"
  shows "agrees (tlog g) t k (nlog (node c v))"
proof -
  have "kept (set (elected c)) (tlog g) t k {t<..currentTerm (node c v)}"
    using a(2) s unfolding kept_def by (auto simp: less_le)
  then show ?thesis
    using comp_invD(2) [OF inv a(1)] by (simp add: acc_ok_def)
qed

text \<open>A node that votes for the first time in a term is not among the voters of its leader.\<close>

lemma no_vote_no_voter:
  assumes "comp_inv ms g c" "\<And>y. (s, v, y) \<notin> set (granted c)" "(s, j) \<in> set (elected c)"
  shows "v \<notin> voters g s"
  using comp_invD(5) [OF assms(1,3)] assms(2) by (auto simp: elect_ok_def)

lemma vote_ok_new:
  assumes inv: "comp_inv ms g c" and v: "currentTerm (node c v) \<le> s" "\<And>y. (s, v, y) \<notin> set (granted c)"
    and g': "tlog g' = tlog g" "accepted g' = accepted g" "voters g' = voters g" "vlog g' s v = nlog (node c v)"
    and c': "elected c' = elected c" "s \<le> currentTerm (node c' x)" and new: "newer (clog g' s x) (nlog (node c v))"
  shows "vote_ok g' c' s v x"
proof -
  have "remembers g' c' s v"
    unfolding remembers_def g' c'(1)
  proof (intro impI allI, elim conjE)
    fix t k
    assume p: "(\<forall>j. (s, j) \<notin> set (elected c)) \<or> v \<in> voters g s"
      and a: "(v, t, k) \<in> accepted g" "kept (set (elected c)) (tlog g) t k {t<..<s}"
    have "(s, j) \<notin> set (elected c)" for j
      using p no_vote_no_voter [OF inv v(2)] by blast
    then show "agrees (tlog g) t k (nlog (node c v))"
      by (rule first_vote_remembers [OF inv v(1) _ a])
  qed
  with new c'(2) match_invD(1) [OF comp_invD(1) [OF inv], of v] show ?thesis
    by (simp add: vote_ok_def g' c'(1))
qed

lemma comp_step_request_vote:
  assumes inv: "comp_inv ms g c" and log: "log_inv c" and v: "voting_inv ms c" "voting_inv ms c'" and match: "match_inv (tlog g) c'"
    and act: "act_deliver (VoteReq p args) c = Some c'"
  shows "\<exists>g'. comp_inv ms g' c' \<and> grows c g g'"
proof -
  let ?s = "rvTerm args" and ?x = "rvCandidateID args"
  have m: "VoteReq p args \<in> set (msgs c)"
    using act by (auto simp: act_deliver_def split: if_splits)
  obtain r n where h: "HandleRequestVote args (node c p) = (r, n)"
    by (metis surj_pair)
  note f = HandleRequestVote_facts [OF h]
  have p': "node c' = (node c)(p := n)" "elected c' = elected c" "tasks c' = tasks c" "pc c' = pc c"
      "msgs c' = remove1 (VoteReq p args) (msgs c) @ [VoteRep p args r]"
      "granted c' = (if rrVoteGranted r then (?s, p, ?x) # granted c else granted c)"
    using act h m by (auto simp: act_deliver_def cluster_defs)
  have terms: "currentTerm (node c i) \<le> currentTerm (node c' i)" for i
    using f(1) by (simp add: p'(1))
  have cand: "cand_frame c c'"
    using f(1,5,6) by (auto simp: p' cand_frame_def split: if_splits)
  note ballot = comp_invD(6) [OF inv m]
  show ?thesis
  proof (cases "rrVoteGranted r \<and> (\<forall>y. (?s, p, y) \<notin> set (granted c))")
    case False
    have "set (granted c') = set (granted c)"
    proof (cases "rrVoteGranted r")
      case True
      with False obtain y where "(?s, p, y) \<in> set (granted c)"
        by blast
      moreover from this True have "y = ?x"
        using v(2) by (auto simp: p'(6) voting_inv_def granted_inv_def)
      ultimately show ?thesis
        using True by (auto simp: p'(6))
    qed (simp add: p'(6))
    then have "comp_inv ms g c'"
      by (intro comp_update [OF inv v(1) match])
        (use f(6) cand_ok_frame [OF cand comp_invD(7) [OF inv]] comp_invD(3) [OF inv] terms in \<open>auto simp: p'(1-3,5) dest: in_remove1\<close>)
    then show ?thesis
      using grows_refl by blast
  next
    case True
    define g' where "g' = g\<lparr>vlog := (vlog g)(?s := (vlog g ?s)(p := nlog (node c p)))\<rparr>"
    have g': "tlog g' = tlog g" "clog g' = clog g" "voters g' = voters g" "accepted g' = accepted g"
        "vlog g' s i = (if s = ?s \<and> i = p then nlog (node c p) else vlog g s i)" for s i
      by (simp_all add: g'_def)
    have le: "currentTerm (node c p) \<le> ?s"
      using f(1,3) True by (simp add: max_def split: if_splits)
    have "newer (clog g ?s ?x) (nlog (node c p))"
      using logOK_newer [OF log_invD(1) [OF log] _ ballot] f(3) True by blast
    moreover have "?s \<le> currentTerm (node c' ?x)"
      using ballot terms [of ?x] by (auto simp: ballot_ok_def)
    ultimately have new: "vote_ok g' c' ?s p ?x"
      using True by (intro vote_ok_new [OF inv le]) (simp_all add: g' p'(2))
    have "comp_inv ms g' c'"
    proof (rule comp_update [OF inv v(1)])
      show "((s, i, x) \<in> set (granted c) \<and> vlog g' s i = vlog g s i \<and> clog g' s x = clog g s x) \<or> vote_ok g' c' s i x"
        if "(s, i, x) \<in> set (granted c')" for s i x
        using that new True by (auto simp: p'(6) g')
      show "cand_ok g' c' i" for i
        by (rule cand_ok_frame [OF cand comp_invD(7) [OF inv]]) (simp add: g')
      show "(i, t, k') \<in> accepted g'" if "(i, t, k) \<in> accepted g'" "k' \<le> k" for i t k k'
        using that comp_invD(3) [OF inv] by (simp add: g')
    qed (use match f(6) terms in \<open>auto simp: g' p' dest: in_remove1\<close>)
    then show ?thesis
      by (intro exI [of _ g']) (simp add: grows_def g')
  qed
qed

lemma comp_step_election:
  assumes inv: "comp_inv ms g c" and log: "log_inv c" and v: "voting_inv ms c" and match: "match_inv (tlog g) c'"
    and act: "act_election i c = Some c'"
  shows "\<exists>g'. comp_inv ms g' c' \<and> grows c g g'"
proof -
  obtain args n where s: "startElection (node c i) = (args, n)"
    by (metis surj_pair)
  note f = startElection_facts [OF s]
  let ?t = "currentTerm n" and ?l = "nlog (node c i)"
  have id: "nid (node c i) = i"
    using v by (simp add: voting_inv_def static_inv_def)
  have lt: "currentTerm (node c i) < ?t"
    using act s f(1) by (auto simp: act_election_def term_grows split: if_splits)
  have p': "node c' = (node c)(i := n)" "elected c' = elected c" "tasks c' = tasks c" "pc c' = (pc c)(i := InCandidate ?t 1 (peers n))"
      "msgs c' = msgs c @ map (\<lambda>p. VoteReq p args) (peers n)" "granted c' = (?t, i, i) # granted c"
    using act s by (auto simp: act_election_def cluster_defs split: if_splits)
  define g' where "g' = g\<lparr>clog := (clog g)(?t := (clog g ?t)(i := ?l)), vlog := (vlog g)(?t := (vlog g ?t)(i := ?l))\<rparr>"
  have g': "tlog g' = tlog g" "voters g' = voters g" "accepted g' = accepted g"
      "clog g' u j = (if u = ?t \<and> j = i then ?l else clog g u j)" "vlog g' u j = (if u = ?t \<and> j = i then ?l else vlog g u j)" for u j
    by (simp_all add: g'_def)
  have fresh: "(?t, i, y) \<notin> set (granted c)" "(?t, y, i) \<notin> set (granted c)" "(?t, i) \<notin> set (elected c)" for y
  proof -
    show "(?t, i, y) \<notin> set (granted c)"
    proof
      assume "(?t, i, y) \<in> set (granted c)"
      then have "?t \<le> currentTerm (node c i)"
        using v unfolding voting_inv_def granted_inv_def by blast
      with lt show False by simp
    qed
    show "(?t, y, i) \<notin> set (granted c)"
      using comp_invD(4) [OF inv, of ?t y i] lt by (auto simp: vote_ok_def)
    show "(?t, i) \<notin> set (elected c)"
      using match_invD(5) [OF comp_invD(1) [OF inv], of ?t i] lt by auto
  qed
  have new: "vote_ok g' c' ?t i i"
    by (rule vote_ok_new [OF inv]) (use lt fresh in \<open>simp_all add: g' p' newer_def\<close>)
  have "rvLastLogIndex args = fst (lastIndexAndTerm ?l)" "rvLastLogTerm args = snd (lastIndexAndTerm ?l)"
    using s by (auto simp: startElection_def Let_def split: prod.splits)
  then have ballot: "ballot_ok g' c' args"
    using last_of_log [OF log_invD(1) [OF log, of i]] f id by (simp add: ballot_ok_def g' p'(1) Let_def)
  have old: "VoteReq p a \<in> set (msgs c) \<Longrightarrow> rvTerm a \<noteq> ?t \<or> rvCandidateID a \<noteq> i" for p a
    using comp_invD(6) [OF inv, of p a] lt by (auto simp: ballot_ok_def)
  have cands: "cand_ok g' c' j" for j
  proof (cases "j = i")
    case True
    have "Term e < ?t" if "e \<in> set ?l" for e
      using log_terms [OF log_invD(1) [OF log] that] lt by simp
    with True f show ?thesis
      by (simp add: cand_ok_def p' g')
  next
    case False
    with comp_invD(7) [OF inv, of j] show ?thesis
      by (simp add: cand_ok_def p' g')
  qed
  have "comp_inv ms g' c'"
  proof (rule comp_update [OF inv v _ _ _ _ _ _ _ _ _ _ _ _ _ cands])
    show "((s, j, x) \<in> set (granted c) \<and> vlog g' s j = vlog g s j \<and> clog g' s x = clog g s x) \<or> vote_ok g' c' s j x"
      if "(s, j, x) \<in> set (granted c')" for s j x
      using that new fresh by (auto simp: p'(6) g')
    show "(j, t, k') \<in> accepted g'" if "(j, t, k) \<in> accepted g'" "k' \<le> k" for j t k k'
      using that comp_invD(3) [OF inv] by (simp add: g')
    show "(VoteReq p a \<in> set (msgs c) \<and> clog g' (rvTerm a) (rvCandidateID a) = clog g (rvTerm a) (rvCandidateID a)) \<or> ballot_ok g' c' a"
      if "VoteReq p a \<in> set (msgs c')" for p a
      using that ballot old by (auto simp: p'(5) g')
  qed (use match f lt fresh in \<open>auto simp: g' p'\<close>)
  then show ?thesis
    by (intro exI [of _ g']) (simp add: grows_def g')
qed

subsection \<open>New leaders and new entries\<close>

lemma comp_step_won:
  assumes inv: "comp_inv ms g c" and log: "log_inv c" and v: "voting_inv ms c" "voting_inv ms c'"
    and act: "act_vote i p args reply c = Some c'" and e: "elected c' \<noteq> elected c"
  shows "\<exists>g'. comp_inv ms g' c' \<and> grows c g g'"
proof -
  obtain t votes waiting where pc: "pc c i = InCandidate t votes waiting" and n: "currentTerm (node c i) = t" "nstate (node c i) = Candidate"
    and p': "node c' = (node c)(i := becomeLeader t (node c i))" "elected c' = (t, i) # elected c" "pc c' = (pc c)(i := AtTop)"
      "tasks c' = tasks c" "set (msgs c') \<subseteq> set (msgs c)" "granted c' = granted c"
    using vote_won [OF act e] by blast
  note won = match_step_won [OF comp_invD(1) [OF inv] log v act e]
  have new: "(t, j) \<notin> set (elected c)" for j
    using won(3) [of j] n by (simp add: p'(1) becomeLeader_facts)
  have logs: "term_logs (TakeVote i p args reply) c c' (tlog g) = (tlog g)(t := nlog (node c i))"
    using n e by (simp add: p'(1) becomeLeader_facts)
  define g' where "g' = g\<lparr>tlog := (tlog g)(t := nlog (node c i)), voters := (voters g)(t := {w. (t, w, i) \<in> set (granted c)})\<rparr>"
  have g': "tlog g' = (tlog g)(t := nlog (node c i))" "voters g' = (voters g)(t := {w. (t, w, i) \<in> set (granted c)})"
      "accepted g' = accepted g" "clog g' = clog g" "vlog g' = vlog g"
    by (simp_all add: g'_def)
  have cand: "cand_frame c c'"
    by (auto simp: cand_frame_def p' split: if_splits)
  have own: "nlog (node c i) = clog g t i" "\<forall>x \<in> set (nlog (node c i)). Term x < t"
    using comp_invD(7) [OF inv, of i] pc n by (auto simp: cand_ok_def)
  have "nlog (node c i) \<noteq> []"
    using good_nonempty [OF match_invD(1) [OF comp_invD(1) [OF inv], of i]] by auto
  moreover have "is_majority ms {w. (t, w, i) \<in> set (granted c)}"
    using v(2) by (simp add: voting_inv_def elected_inv_def p')
  ultimately have el: "elect_ok ms g' c' t i"
    using own by (simp add: elect_ok_def g' p'(6))
  have "comp_inv ms g' c'"
  proof (rule comp_update [OF inv v(1)])
    show "match_inv (tlog g') c'" "extends (set (elected c)) (tlog g) (tlog g')"
      using won(1,2) unfolding g' logs by simp_all
    show "cand_ok g' c' j" for j
      by (rule cand_ok_frame [OF cand comp_invD(7) [OF inv]]) (simp add: g')
    show "((s, j) \<in> set (elected c) \<and> clog g' s j = clog g s j) \<or> elect_ok ms g' c' s j" if "(s, j) \<in> set (elected c')" for s j
      using that el by (auto simp: p'(2) g')
    show "(j, u, k') \<in> accepted g'" if "(j, u, k) \<in> accepted g'" "k' \<le> k" for j u k k'
      using that comp_invD(3) [OF inv] by (simp add: g')
    show "voters g' s = voters g s \<or> (\<forall>j. (s, j) \<notin> set (elected c))" for s
      using new by (simp add: g')
  qed (use p'(5) in \<open>auto simp: g' p'(1,2,4,6) becomeLeader_facts\<close>)
  then show ?thesis
    using won(2) unfolding logs by (intro exI [of _ g']) (simp add: grows_def g')
qed

lemma comp_step_replicate:
  assumes inv: "comp_inv ms g c" and log: "log_inv c" and v: "voting_inv ms c" and ms: "distinct ms" and i: "i \<in> set ms"
    and act: "act_replicate i cmd c = Some c'"
  shows "\<exists>g'. comp_inv ms g' c' \<and> grows c g g'"
proof -
  obtain e n where s: "replicateStart cmd (node c i) = Some (e, n)" "length (nlog (node c i)) < 2 ^ 64 - 1"
    using act by (auto simp: act_replicate_def split: if_splits option.splits)
  let ?t = "currentTerm (node c i)" and ?l = "nlog (node c i)"
  note n = replicateStart_facts [OF s(1)]
  note rep = match_step_replicate [OF comp_invD(1) [OF inv] v ms act]
  have p': "node c' = (node c)(i := n)" "elected c' = elected c" "pc c' = pc c" "msgs c' = msgs c" "granted c' = granted c"
      "tasks c' = tasks c @ Client i e 1 (peers n) # map (\<lambda>p. RepStart i p e (currentTerm n) (commitIndex n)) (peers n)"
    using act s by (auto simp: act_replicate_def cluster_defs)
  have G: "tlog g ?t = ?l"
    using match_invD(2) [OF comp_invD(1) [OF inv] n(1)] by simp
  have logs: "term_logs (Replicate i cmd) c c' (tlog g) = (tlog g)(?t := ?l @ [e])"
    using n by (simp add: p')
  define g' where "g' = g\<lparr>tlog := (tlog g)(?t := ?l @ [e]), accepted := accepted g \<union> {(i, ?t, k) | k. k \<le> length ?l}\<rparr>"
  have g': "tlog g' = (tlog g)(?t := ?l @ [e])" "accepted g' = accepted g \<union> {(i, ?t, k) | k. k \<le> length ?l}"
      "voters g' = voters g" "clog g' = clog g" "vlog g' = vlog g"
    by (simp_all add: g'_def)
  have el: "(?t, i) \<in> set (elected c)"
    using v n(1) by (simp add: voting_inv_def elected_inv_def)
  have pos: "Suc 0 \<le> length ?l"
    by (rule good_nonempty [OF match_invD(1) [OF comp_invD(1) [OF inv], of i]])
  have idx: "unat (Index e) = length ?l"
    using lastIndex_not_max [OF log_invD(1) [OF log, of i]] n(7) pos by (simp add: unat_suc_le [OF order.refl])
  have new: "acc_ok g' c' i ?t k" if "k \<le> length ?l" for k
    using that el n by (auto simp: acc_ok_def agrees_def g' p')
  have cand: "cand_frame c c'"
    using n by (auto simp: cand_frame_def p' split: if_splits)
  have st: "peers n = remove1 i ms"
    using v n(5) by (simp add: voting_inv_def static_inv_def)
  have jobs: "job_ok ms (set (elected c)) g' x" if "x \<in> set (tasks c')" "x \<notin> set (tasks c)" for x
    using that ms i el n(2-4) idx pos by (auto simp: p'(6) g' in_log_def st remove1_set)
  have "comp_inv ms g' c'"
  proof (rule comp_update [OF inv v])
    show "match_inv (tlog g') c'" "extends (set (elected c)) (tlog g) (tlog g')"
      using rep unfolding g' logs by simp_all
    show "agrees (tlog g) t k (nlog (node c' j))" if "(j, t, k) \<in> accepted g" "agrees (tlog g) t k (nlog (node c j))" for j t k
    proof -
      have "Suc k \<le> length (nlog (node c j))"
        using comp_invD(2) [OF inv that(1)] agrees_nth [OF that(2), of k] by (simp add: acc_ok_def Suc_le_eq)
      with that(2) n(2) show ?thesis
        by (cases "j = i") (simp_all add: p'(1) agrees_def)
    qed
    show "cand_ok g' c' j" for j
      by (rule cand_ok_frame [OF cand comp_invD(7) [OF inv]]) (simp add: g')
    show "(j, t, k') \<in> accepted g'" if "(j, t, k) \<in> accepted g'" "k' \<le> k" for j t k k'
      using that comp_invD(3) [OF inv, of j t k k'] by (auto simp: g')
    show "(j, t, k) \<in> accepted g \<or> (t = currentTerm (node c' j) \<and> acc_ok g' c' j t k)" if "(j, t, k) \<in> accepted g'" for j t k
      using that new n(3) by (auto simp: g' p'(1))
    show "x \<in> set (tasks c) \<or> job_ok ms (set (elected c')) g' x" if "x \<in> set (tasks c')" for x
      using jobs [OF that] p'(2) by auto
  qed (use n in \<open>auto simp: g' p'(1-5)\<close>)
  then show ?thesis
    using rep(2) unfolding logs by (intro exI [of _ g']) (auto simp: grows_def g')
qed

subsection \<open>All steps\<close>

lemma comp_step:
  assumes inv: "comp_inv ms g c" "log_inv c" "voting_inv ms c" "voting_inv ms c'" "distinct ms"
    and a: "leading a c" "\<forall>i. actor a = Some i \<longrightarrow> i \<in> set ms" and act: "exec a c = Some c'"
  shows "\<exists>g'. comp_inv ms g' c' \<and> grows c g g'"
proof -
  have match: "match_inv (term_logs a c c' (tlog g)) c'"
    by (rule match_step [OF comp_invD(1) [OF inv(1)] inv(2-5) a(1) act])
  consider (rep) i cmd where "a = Replicate i cmd" | (vote) i p args reply where "a = TakeVote i p args reply"
    | (deliver) m where "a = Deliver m" | (election) i where "a = StartElection i"
    | (other) "\<forall>i cmd. a \<noteq> Replicate i cmd" "\<forall>i p args reply. a \<noteq> TakeVote i p args reply" "\<forall>m. a \<noteq> Deliver m"
        "\<forall>i. a \<noteq> StartElection i"
    by blast
  then show ?thesis
  proof cases
    case rep
    with act a(2) show ?thesis
      by (intro comp_step_replicate [OF inv(1-3,5)]) auto
  next
    case vote
    show ?thesis
    proof (cases "elected c' = elected c")
      case True
      with vote act match have "comp_inv ms g c'"
        by (intro comp_step_vote [OF inv(1,3)]) auto
      then show ?thesis
        using grows_refl by blast
    next
      case False
      with vote act show ?thesis
        by (intro comp_step_won [OF inv(1-4)]) auto
    qed
  next
    case deliver
    with act match show ?thesis
      using comp_step_append [OF inv(1-3)] comp_step_request_vote [OF inv(1-4)]
      by (cases m) (auto simp: act_deliver_def split: if_splits)
  next
    case election
    with act match show ?thesis
      by (intro comp_step_election [OF inv(1-3)]) auto
  next
    case other
    then have m: "match_inv (tlog g) c'"
      using match by (cases a) auto
    have "comp_inv ms g c'"
      using other act
      by (cases a)
        (auto intro: comp_step_same [OF inv(1,3) m] comp_step_local [OF inv(1,3) m] comp_step_hb_reply [OF inv(1,3) m]
          comp_step_rep_send [OF inv(1-3) m] comp_step_rep_reply [OF inv(1,3) m] comp_step_ack [OF inv(1,3) m])
    then show ?thesis
      using grows_refl by blast
  qed
qed

lemma comp_inv_init: "\<exists>g. comp_inv ms g (init_cluster ms)"
proof
  let ?g = "\<lparr>tlog = (\<lambda>_. []), clog = (\<lambda>_ _. []), vlog = (\<lambda>_ _. []), voters = (\<lambda>_. {}), accepted = {}\<rparr>"
  show "comp_inv ms ?g (init_cluster ms)"
    using match_inv_init [of "tlog ?g" ms] by (simp add: comp_inv_def cand_ok_def init_cluster_def)
qed

lemma grows_trans:
  assumes "grows a g g'" "grows b g' g''" "set (elected a) \<subseteq> set (elected b)"
  shows "grows a g g''"
proof -
  have "\<exists>zs. tlog g'' t = tlog g t @ zs \<and> (\<forall>e \<in> set zs. Term e = t)" if t: "(t, j) \<in> set (elected a)" for t j
  proof -
    obtain xs where "tlog g' t = tlog g t @ xs" "\<forall>e \<in> set xs. Term e = t"
      using extendsE [of "set (elected a)" "tlog g" "tlog g'"] assms(1) t unfolding grows_def by blast
    moreover obtain ys where "tlog g'' t = tlog g' t @ ys" "\<forall>e \<in> set ys. Term e = t"
      using extendsE [of "set (elected b)" "tlog g'" "tlog g''"] assms(2,3) t unfolding grows_def by blast
    ultimately show ?thesis
      by (intro exI [of _ "xs @ ys"]) auto
  qed
  then show ?thesis
    using assms(1,2) unfolding grows_def extends_def by auto
qed

lemma leads_to_comp:
  assumes "leads_to ms c c'" "reachable_leading ms c" "comp_inv ms g c" "distinct ms" "[] \<notin> set ms"
  shows "set (elected c) \<subseteq> set (elected c') \<and> (\<exists>g'. comp_inv ms g' c' \<and> grows c g g')"
  using assms(1-3)
proof (induction rule: leads_to.induct)
  case (refl c)
  then show ?case
    using grows_refl by blast
next
  case (step c c' a c'')
  then obtain g' where g': "comp_inv ms g' c'" "grows c g g'" and el: "set (elected c) \<subseteq> set (elected c')"
    by blast
  have r: "reachable ms c'" "reachable ms c''"
    using reachable_leading_reachable [OF leads_to_reachable [OF step(1,6)]] reachable.step [OF _ step(2,4)] by blast+
  note v = reachable_voting [OF r(1) assms(4,5)] reachable_voting [OF r(2) assms(4,5)]
  obtain g'' where "comp_inv ms g'' c''" "grows c' g' g''"
    using comp_step [OF g'(1) reachable_log [OF r(1) assms(4,5)] v assms(4) step(3,2,4)] by blast
  moreover have "set (elected c') \<subseteq> set (elected c'')"
    using exec_forward [OF step(4)] by blast
  ultimately show ?case
    using grows_trans [OF g'(2)] el by blast
qed

lemma reachable_comp:
  assumes "reachable_leading ms c" "distinct ms" "[] \<notin> set ms"
  shows "\<exists>g. comp_inv ms g c"
proof -
  obtain g where g: "comp_inv ms g (init_cluster ms)"
    using comp_inv_init by blast
  have "leads_to ms (init_cluster ms) c"
    using assms(1) by (induction rule: reachable_leading.induct) (auto intro: leads_to.intros)
  then show ?thesis
    using leads_to_comp [OF _ reachable_leading.init g assms(2,3)] by blast
qed

subsection \<open>Acknowledged commands survive\<close>

text \<open>The entry of a caller that has collected a majority is accepted by a majority.\<close>

lemma acks_majority:
  assumes inv: "comp_inv ms g c" and v: "voting_inv ms c" and t: "Client i e acks waiting \<in> set (tasks c)"
      "RepDone i p e True \<in> set (tasks c)" "p \<in> set waiting" and m: "majority (node c i) \<le> acks + 1"
  shows "is_majority ms {w \<in> set ms. (w, Term e, unat (Index e)) \<in> accepted g}"
proof -
  let ?A = "{q \<in> set ms - {i} - set (remove1 p waiting). (q, Term e, unat (Index e)) \<in> accepted g}"
  have "job_ok ms (set (elected c)) g (Client i e (acks + 1) (remove1 p waiting))"
    using job_ok_ack [OF comp_invD(9) [OF inv t(1)] t(3), of True] comp_invD(9) [OF inv t(2)] by simp
  then have i: "i \<in> set ms" "(i, Term e, unat (Index e)) \<in> accepted g" and acks: "acks + 1 \<le> Suc (card ?A)"
    by auto
  have "Suc (card ?A) = card (insert i ?A)"
    by (simp add: card_insert_if)
  also have "\<dots> \<le> card {w \<in> set ms. (w, Term e, unat (Index e)) \<in> accepted g}"
    using i by (intro card_mono) auto
  finally show ?thesis
    using acks m majority_members [OF v i(1)] by (auto simp: is_majority_def)
qed

text \<open>
  C2. A command whose caller was told that it is committed is never lost, as long as the nodes
  run and a heartbeat is only sent while its node leads: there is one log, ending in the entry of
  the command, that the log of every later leader starts with. So no later leader can overwrite
  the command, or any command before it.
\<close>

theorem acknowledged_commands_survive:
  assumes "reachable_leading ms c" and "distinct ms" and "[] \<notin> set ms"
    and "exec (TakeAck i e acks waiting p True) c = Some c'" and "majority (node c i) \<le> acks + 1"
  shows "\<exists>l. length l = Suc (unat (Index e)) \<and> last l = e \<and>
    (\<forall>c'' j. leads_to ms c' c'' \<longrightarrow> nstate (node c'' j) = Leader \<longrightarrow> Term e \<le> currentTerm (node c'' j) \<longrightarrow>
       take (length l) (nlog (node c'' j)) = l)"
proof -
  obtain g where inv: "comp_inv ms g c"
    using reachable_comp [OF assms(1-3)] by blast
  note r = reachable_leading_reachable [OF assms(1)]
  note v = reachable_voting [OF r assms(2,3)]
  have act: "act_ack i e acks waiting p True c = Some c'"
    using assms(4) by simp
  then have t: "Client i e acks waiting \<in> set (tasks c)" "RepDone i p e True \<in> set (tasks c)" "p \<in> set waiting"
    by (simp_all add: act_ack_def split: if_splits)
  let ?t = "Term e" and ?k = "unat (Index e)"
  have e: "(?t, i) \<in> set (elected c)" "in_log g e"
    using comp_invD(9) [OF inv t(1)] by simp_all
  then have k: "0 < ?k" "?k < length (tlog g ?t)" "tlog g ?t ! ?k = e"
    by (simp_all add: in_log_def)
  have step: "leads_to ms c c'"
    by (rule leads_to.step [OF leads_to.refl _ _ assms(4)]) (simp_all add: leading_def)
  let ?l = "take (Suc ?k) (tlog g ?t)"
  have "take (length ?l) (nlog (node c'' j)) = ?l"
    if l: "leads_to ms c' c''" "nstate (node c'' j) = Leader" "?t \<le> currentTerm (node c'' j)" for c'' j
  proof -
    have run: "leads_to ms c c''"
      by (rule leads_to_trans [OF l(1) step])
    obtain g' where g': "comp_inv ms g' c''" "grows c g g'" and el: "set (elected c) \<subseteq> set (elected c'')"
      using leads_to_comp [OF run assms(1) inv assms(2,3)] by blast
    have ext: "extends (set (elected c)) (tlog g) (tlog g')" and acc: "accepted g \<subseteq> accepted g'"
      using g'(2) by (simp_all add: grows_def)
    have maj: "is_majority ms {w \<in> set ms. (w, ?t, ?k) \<in> accepted g'}"
      by (rule is_majority_mono [OF acks_majority [OF inv v t assms(5)]]) (use acc in auto)
    have "reachable ms c''"
      using reachable_leading_reachable [OF leads_to_reachable [OF run assms(1)]] .
    then have s: "(currentTerm (node c'' j), j) \<in> set (elected c'')"
      using reachable_voting [OF _ assms(2,3)] l(2) by (simp add: voting_inv_def elected_inv_def)
    have e': "in_log g' e"
      by (rule in_log_ext [OF e(2) ext e(1)])
    have "agrees (tlog g') ?t ?k (tlog g' (currentTerm (node c'' j)))"
    proof (cases "currentTerm (node c'' j) = ?t")
      case False
      then show ?thesis
        using completeness [OF g'(1) _ _ _ _ maj s] e(1) el e' l(3) by (auto simp: in_log_def)
    qed (simp add: agrees_def)
    then have "agrees (tlog g) ?t ?k (nlog (node c'' j))"
      using agrees_ext(1) [OF ext e(1) k(2)] match_invD(2) [OF comp_invD(1) [OF g'(1)] l(2)] by simp
    then show ?thesis
      using k(2) by (simp add: agrees_def)
  qed
  moreover have "last ?l = e"
    using k by (simp add: take_Suc_conv_app_nth)
  ultimately show ?thesis
    using k(2) by (intro exI [of _ ?l]) simp
qed

definition before_ack :: "action list" where
  "before_ack =
     (let e = mk_entry 1 1 ''x''; args = append_request 1 ''A'' [e] 0
      in elect_with ''A'' ''B'' 1 0 0 @
         [Replicate ''A'' ''x'', RepSend ''A'' ''B'' e 1 0, Deliver (AppReq ''B'' args), RepReply ''A'' ''B'' e 1 0 args (append_ok 1)])"

lemma survival_run:
  "\<exists>c c' c''. run_leading before_ack (init_cluster members3) = Some c \<and>
     exec (TakeAck ''A'' (mk_entry 1 1 ''x'') 1 [''B'', ''C''] ''B'' True) c = Some c' \<and> majority (node c ''A'') \<le> 1 + 1 \<and>
     run_leading (elect_with ''B'' ''C'' 2 1 1) c' = Some c'' \<and> nstate (node c'' ''B'') = Leader \<and> currentTerm (node c'' ''B'') = 2"
  unfolding before_ack_def by (simp add: leading_simps)

theorem acknowledged_commands_survive_witness:
  "\<exists>c. reachable_leading members3 c \<and> nstate (node c ''B'') = Leader \<and> currentTerm (node c ''B'') = 2 \<and>
     last (take 2 (nlog (node c ''B''))) = mk_entry 1 1 ''x''"
proof -
  obtain c c' c'' where run: "run_leading before_ack (init_cluster members3) = Some c"
    and ack: "exec (TakeAck ''A'' (mk_entry 1 1 ''x'') 1 [''B'', ''C''] ''B'' True) c = Some c'" "majority (node c ''A'') \<le> 1 + 1"
    and later: "run_leading (elect_with ''B'' ''C'' 2 1 1) c' = Some c''"
    and B: "nstate (node c'' ''B'') = Leader" "currentTerm (node c'' ''B'') = 2"
    using survival_run by (elim exE conjE) (rule that)
  have r: "reachable_leading members3 c"
    by (rule run_leading_reaches [OF run]) (simp add: before_ack_def run_defs members3_def Let_def)
  have l: "leads_to members3 c' c''"
    by (rule run_leads [OF later]) (simp add: run_defs members3_def)
  obtain p where p: "length p = Suc (unat (Index (mk_entry 1 1 ''x'')))" "last p = mk_entry 1 1 ''x''"
    and all: "\<forall>d j. leads_to members3 c' d \<longrightarrow> nstate (node d j) = Leader \<longrightarrow> Term (mk_entry 1 1 ''x'') \<le> currentTerm (node d j) \<longrightarrow>
      take (length p) (nlog (node d j)) = p"
    using acknowledged_commands_survive [OF r members3_ok ack] by (elim exE conjE) (rule that)
  have "take (length p) (nlog (node c'' ''B'')) = p"
    using all l B by (simp add: mk_entry_def)
  moreover have "length p = 2"
    using p(1) by (simp add: mk_entry_def)
  moreover have "reachable_leading members3 c'"
    by (rule reachable_leading.step [OF r _ _ ack(1)]) (simp_all add: leading_def)
  then have "reachable_leading members3 c''"
    by (rule leads_to_reachable [OF l])
  ultimately show ?thesis
    using B p(2) by (intro exI [of _ c'']) simp
qed

subsection \<open>Entries committed by heartbeats can be lost\<close>

text \<open>
  The answer to an entry is used whenever it arrives, also when the node leads in a later term by
  then. In a cluster of five, \<open>A\<close> leads in term 1 and \<open>B\<close> stores its entries 1 and 2, but the answer is
  delayed. \<open>C\<close> is elected in term 2 and its entry \<open>y\<close> replaces both on \<open>A\<close> and \<open>B\<close>. \<open>A\<close> is elected in term 3
  and stores \<open>z\<close> at index 2. Now the answer of \<open>B\<close> arrives and raises the match index of \<open>B\<close> to 2. One
  heartbeat answered by \<open>C\<close> makes \<open>A\<close> count three copies of \<open>z\<close> where there are two, and \<open>A\<close> commits and
  applies \<open>z\<close>. \<open>B\<close>, which never had it, is elected in term 4.
\<close>

definition members5 :: "string list" where
  "members5 = [''A'', ''B'', ''C'', ''D'', ''E'']"

text \<open>Node \<open>i\<close> of five times out and is elected in term \<open>t\<close> with the votes of \<open>p\<close> and \<open>q\<close>.\<close>

definition elect_by :: "string \<Rightarrow> string \<Rightarrow> string \<Rightarrow> uint64 \<Rightarrow> uint64 \<Rightarrow> uint64 \<Rightarrow> action list" where
  "elect_by i p q t lastIdx lastTerm =
     (let req = vote_request t i lastIdx lastTerm
      in [Top i, Timeout i, Top i, StartElection i, Deliver (VoteReq p req), TakeVote i p req (vote_yes t),
          Deliver (VoteReq q req), TakeVote i q req (vote_yes t)])"

lemma sort_updates5:
  "f(''D'' := b, ''A'' := a) = f(''A'' := a, ''D'' := b)"
  "f(''D'' := b, ''B'' := a) = f(''B'' := a, ''D'' := b)"
  "f(''D'' := b, ''C'' := a) = f(''C'' := a, ''D'' := b)"
  "f(''E'' := b, ''A'' := a) = f(''A'' := a, ''E'' := b)"
  "f(''E'' := b, ''B'' := a) = f(''B'' := a, ''E'' := b)"
  "f(''E'' := b, ''C'' := a) = f(''C'' := a, ''E'' := b)"
  "f(''E'' := b, ''D'' := a) = f(''D'' := a, ''E'' := b)"
  by (simp_all add: fun_upd_twist)

lemma advance_steps:
  "idx \<le> lst \<Longrightarrow> advanceLoop idx lst n =
     advanceLoop (idx + 1) lst
       (case entryAt (nlog n) idx of None \<Rightarrow> n
        | Some entry \<Rightarrow> if Term entry \<noteq> currentTerm n then n
            else if majority n \<le> replicas n idx then n\<lparr>commitIndex := idx\<rparr> else n)"
  "\<not> idx \<le> lst \<Longrightarrow> advanceLoop idx lst n = Some n"
  by (simp_all add: advanceLoop.simps)

definition stale_run :: "action list" where
  "stale_run =
     (let x = append_request 1 ''A'' [mk_entry 1 1 ''x1'', mk_entry 1 2 ''x2''] 0;
          y = append_request 2 ''C'' [mk_entry 2 1 ''y''] 0;
          z = \<lparr>aeTerm = 3, aeLeaderID = ''A'', aePrevLogIndex = 1, aePrevLogTerm = 2, aeEntries = [mk_entry 3 2 ''z''], aeLeaderCommit = 0\<rparr>
      in elect_by ''A'' ''B'' ''C'' 1 0 0 @
         [Replicate ''A'' ''x1'', Replicate ''A'' ''x2'', RepSend ''A'' ''B'' (mk_entry 1 2 ''x2'') 1 0, Deliver (AppReq ''B'' x)] @
         elect_by ''C'' ''D'' ''E'' 2 0 0 @
         [Replicate ''C'' ''y'', RepSend ''C'' ''B'' (mk_entry 2 1 ''y'') 2 0, Deliver (AppReq ''B'' y),
          RepSend ''C'' ''A'' (mk_entry 2 1 ''y'') 2 0, Deliver (AppReq ''A'' y)] @
         elect_by ''A'' ''B'' ''D'' 3 1 2 @
         [Replicate ''A'' ''z'', RepReply ''A'' ''B'' (mk_entry 1 2 ''x2'') 1 0 x (append_ok 1),
          Top ''A'', HbSend ''A'' ''C'', Deliver (AppReq ''C'' z), HbReply ''A'' ''C'' z (append_ok 3),
          ApplyNext ''A'', SendCommand ''A'' [''y'', ''z''], SendCommand ''A'' [''z'']] @
         elect_by ''B'' ''D'' ''E'' 4 1 2)"

lemma stale_run_result:
  "\<exists>c. run_leading stale_run (init_cluster members5) = Some c \<and>
     applyCh (node c ''A'') = Some [''y'', ''z''] \<and> nstate (node c ''B'') = Leader \<and> currentTerm (node c ''B'') = 4 \<and>
     map Command (nlog (node c ''B'')) = [[], ''y'']"
  unfolding stale_run_def by (simp add: leading_simps members5_def elect_by_def sort_updates5 advance_steps)

text \<open>
  C27. What a leader commits on the answers to its heartbeats can be lost, even when only leaders
  send them: a state is reachable in which \<open>A\<close> has committed and applied \<open>z\<close>, and a node elected later
  leads without \<open>z\<close> in its log.
\<close>

theorem stale_answer_loses_command:
  "\<exists>c. reachable_leading members5 c \<and> applyCh (node c ''A'') = Some [''y'', ''z''] \<and>
     nstate (node c ''B'') = Leader \<and> currentTerm (node c ''B'') = 4 \<and> map Command (nlog (node c ''B'')) = [[], ''y'']"
proof -
  obtain c where run: "run_leading stale_run (init_cluster members5) = Some c"
    and c: "applyCh (node c ''A'') = Some [''y'', ''z'']" "nstate (node c ''B'') = Leader" "currentTerm (node c ''B'') = 4"
      "map Command (nlog (node c ''B'')) = [[], ''y'']"
    using stale_run_result by (elim exE conjE) (rule that)
  have "members_only members5 stale_run"
    by (simp add: stale_run_def elect_by_def run_defs members5_def Let_def)
  then have "reachable_leading members5 c"
    by (rule run_leading_reaches [OF run])
  with c show ?thesis
    by (intro exI [of _ c] conjI)
qed

end
