(* ===== verification/Http_Api.thy ===== *)
theory Http_Api
  imports Kv_Store
begin

text \<open>
  The HTTP interface of the single-node store, \<^verbatim>\<open>api/http.go\<close>: one handler for the keys with
  its branches for the methods, on the store of \<^verbatim>\<open>kv/store.go\<close>. The request line has been parsed
  by \<^verbatim>\<open>net/http\<close>; a body is the bytes of the request, a response its status and the JSON value
  that \<^verbatim>\<open>Encode\<close> writes.
\<close>

subsection \<open>Requests and responses\<close>

datatype go_method = MethodGet | MethodPut | MethodDelete | MethodOther string

record go_response =
  gstatus :: int
  gbody :: "gojson option"

definition writeJSON :: "int \<Rightarrow> gojson \<Rightarrow> go_response" where
  "writeJSON status payload = \<lparr>gstatus = status, gbody = Some payload\<rparr>"

definition writeError :: "int \<Rightarrow> string \<Rightarrow> go_response" where
  "writeError status message = writeJSON status (GObj [(''error'', GStr message)])"

text \<open>The texts of the errors of the storage layer are an argument: only their status matters here.\<close>

definition writeStoreError :: "(storage_error \<Rightarrow> string) \<Rightarrow> store_error \<Rightarrow> go_response" where
  "writeStoreError errtext err =
     (case err of
        ErrEmptyKey \<Rightarrow> writeError 400 ''key cannot be empty''
      | StorageError e \<Rightarrow> writeError 500 (errtext e))"

text \<open>The struct \<^verbatim>\<open>keyResponse\<close>: an empty value is left out.\<close>

definition keyResponse :: "string \<Rightarrow> string \<Rightarrow> bool \<Rightarrow> gojson" where
  "keyResponse key v found =
     GObj ([(''key'', GStr key)] @ (if v = [] then [] else [(''value'', GStr v)]) @
       [(''found'', GBool found)])"

text \<open>
  \<^verbatim>\<open>json.NewDecoder(body).Decode\<close> into a struct with the one field \<^verbatim>\<open>value\<close>: the first JSON value of
  the body counts, what follows it is not read; \<^verbatim>\<open>null\<close> leaves the zero value.
\<close>

fun set_value :: "string \<Rightarrow> (string \<times> gojson) list \<Rightarrow> string option" where
  "set_value v [] = Some v"
| "set_value v ((k, x) # ms) =
     (case field_of [''value''] k of
        None \<Rightarrow> set_value v ms
      | Some _ \<Rightarrow> (case x of GNull \<Rightarrow> set_value v ms | GStr s \<Rightarrow> set_value s ms | _ \<Rightarrow> None))"

definition decode_put :: "string \<Rightarrow> string option" where
  "decode_put body =
     (case parse_value (2 * length body + 2) 0 body of
        Some (GNull, _) \<Rightarrow> Some []
      | Some (GObj ms, _) \<Rightarrow> set_value [] ms
      | _ \<Rightarrow> None)"

text \<open>
  The text of a payload: the payloads are objects of strings and Booleans, and \<^verbatim>\<open>Encode\<close> ends the
  text with a line end.
\<close>

fun encode_scalar :: "gojson \<Rightarrow> string" where
  "encode_scalar (GStr s) = json_string s"
| "encode_scalar (GBool b) = (if b then ''true'' else ''false'')"
| "encode_scalar _ = ''null''"

fun encode_members :: "(string \<times> gojson) list \<Rightarrow> string" where
  "encode_members [] = []"
| "encode_members [(k, x)] = json_string k @ CHR '':'' # encode_scalar x"
| "encode_members ((k, x) # ms) = json_string k @ CHR '':'' # encode_scalar x @ CHR '','' # encode_members ms"

definition encode_payload :: "gojson \<Rightarrow> string" where
  "encode_payload p = (case p of GObj ms \<Rightarrow> CHR ''{'' # encode_members ms @ [CHR ''}'', nl] | _ \<Rightarrow> encode_scalar p @ [nl])"

subsection \<open>Handlers\<close>

definition handleHealth :: go_response where
  "handleHealth = writeJSON 200 (GObj [(''status'', GStr ''ok'')])"

definition getKey :: "(storage_error \<Rightarrow> string) \<Rightarrow> string \<Rightarrow> Store \<Rightarrow> go_response" where
  "getKey errtext key s =
     (case Get key s of
        Inl err \<Rightarrow> writeStoreError errtext err
      | Inr (v, found) \<Rightarrow>
          if \<not> found then writeError 404 ''key not found'' else writeJSON 200 (keyResponse key v True))"

text \<open>A panic of the store aborts the connection: no response.\<close>

definition putKey ::
    "write_outcome \<Rightarrow> save_outcome \<Rightarrow> (storage_error \<Rightarrow> string) \<Rightarrow> string \<Rightarrow> string \<Rightarrow> Store \<Rightarrow>
       go_response option \<times> Store" where
  "putKey wo so errtext key body s =
     (case decode_put body of
        None \<Rightarrow> (Some (writeError 400 ''invalid JSON request body''), s)
      | Some v \<Rightarrow>
          (case Upsert wo so key v s of
             (Panicked _, s') \<Rightarrow> (None, s')
           | (Returned (Some err), s') \<Rightarrow> (Some (writeStoreError errtext err), s')
           | (Returned None, s') \<Rightarrow> (Some (writeJSON 200 (keyResponse key v True)), s')))"

definition deleteKey ::
    "write_outcome \<Rightarrow> save_outcome \<Rightarrow> (storage_error \<Rightarrow> string) \<Rightarrow> string \<Rightarrow> Store \<Rightarrow> go_response option \<times> Store" where
  "deleteKey wo so errtext key s =
     (case Delete wo so key s of
        (Panicked _, s') \<Rightarrow> (None, s')
      | (Returned (Some err), s') \<Rightarrow> (Some (writeStoreError errtext err), s')
      | (Returned None, s') \<Rightarrow> (Some \<lparr>gstatus = 204, gbody = None\<rparr>, s'))"

definition trimPrefix :: "string \<Rightarrow> string \<Rightarrow> string" where
  "trimPrefix p s = (if take (length p) s = p then drop (length p) s else s)"

definition handleKey ::
    "write_outcome \<Rightarrow> save_outcome \<Rightarrow> (storage_error \<Rightarrow> string) \<Rightarrow> go_method \<Rightarrow> string \<Rightarrow> string \<Rightarrow> Store \<Rightarrow>
       go_response option \<times> Store" where
  "handleKey wo so errtext meth path body s =
     (let key = trimPrefix ''/v1/keys/'' path
      in if key = [] \<or> CHR ''/'' \<in> set key
         then (Some (writeError 400 ''key must be a single path segment''), s)
         else case meth of
                MethodGet \<Rightarrow> (Some (getKey errtext key s), s)
              | MethodPut \<Rightarrow> putKey wo so errtext key body s
              | MethodDelete \<Rightarrow> deleteKey wo so errtext key s
              | MethodOther _ \<Rightarrow> (Some (writeError 405 ''method not allowed''), s))"

subsection \<open>The contract of the interface\<close>

text \<open>
  What the interface promises: the status and the map after a request for a key, given what
  the body decodes to. A read answers with the value.
\<close>

definition api_spec ::
    "go_method \<Rightarrow> string \<Rightarrow> string option \<Rightarrow> (string \<rightharpoonup> string) \<Rightarrow> (int \<times> string option) \<times> (string \<rightharpoonup> string)" where
  "api_spec meth key v m =
     (case meth of
        MethodGet \<Rightarrow> (case m key of None \<Rightarrow> ((404, None), m) | Some x \<Rightarrow> ((200, Some x), m))
      | MethodPut \<Rightarrow> (case v of None \<Rightarrow> ((400, None), m) | Some x \<Rightarrow> ((200, Some x), m(key \<mapsto> x)))
      | MethodDelete \<Rightarrow> ((204, None), m(key := None))
      | MethodOther _ \<Rightarrow> ((405, None), m))"

text \<open>
  The value a client reads from a response: absent from errors, empty when it was left out,
  with invalid bytes replaced as the encoder and the decoder do.
\<close>

definition response_value :: "go_response \<Rightarrow> string option" where
  "response_value r =
     (case gbody r of
        Some (GObj ms) \<Rightarrow>
          if map_of ms ''key'' = None then None
          else Some (case map_of ms ''value'' of Some (GStr v) \<Rightarrow> to_valid v | _ \<Rightarrow> [])
      | _ \<Rightarrow> None)"

lemma response_value_simps [simp]:
  "response_value (writeJSON c (keyResponse k v b)) = Some (to_valid v)"
  "response_value (writeError c msg) = None"
  by (auto simp: response_value_def writeJSON_def writeError_def keyResponse_def to_valid_Nil)

lemma gstatus_simps [simp]: "gstatus (writeJSON c p) = c" "gstatus (writeError c msg) = c"
  by (simp_all add: writeJSON_def writeError_def)

lemma upsert_written:
  assumes "data s \<noteq> None" "key \<noteq> []" "Upsert Written Saved key v s = (r, s')"
  shows "r = Returned None \<and> store_map s' = (store_map s)(key \<mapsto> v) \<and> data s' \<noteq> None"
proof -
  let ?e = "\<lparr>Op = OpUpsert, Key = key, Value = v\<rparr>"
  have p: "persistAndApplyLocked Written Saved ?e s = (r, s')"
    using assms(2,3) by (simp add: Upsert_def)
  have k: "known_op ?e"
    by (simp add: known_op_def OpUpsert_def OpDelete_def)
  from persist_spec [OF assms(1) k p] persist_Saved [OF assms(1) k p] show ?thesis
    by (simp add: spec_apply_def OpUpsert_def OpDelete_def)
qed

lemma delete_written:
  assumes "data s \<noteq> None" "key \<noteq> []" "Delete Written Saved key s = (r, s')"
  shows "r = Returned None \<and> store_map s' = (store_map s)(key := None) \<and> data s' \<noteq> None"
proof -
  let ?e = "\<lparr>Op = OpDelete, Key = key, Value = []\<rparr>"
  have p: "persistAndApplyLocked Written Saved ?e s = (r, s')"
    using assms(2,3) by (simp add: Delete_def)
  have k: "known_op ?e"
    by (simp add: known_op_def)
  from persist_spec [OF assms(1) k p] persist_Saved [OF assms(1) k p] show ?thesis
    by (simp add: spec_apply_def)
qed

lemma handleKey_spec:
  assumes "data s \<noteq> None" and "key \<noteq> []" and "CHR ''/'' \<notin> set key"
    and "handleKey Written Saved errtext meth (''/v1/keys/'' @ key) body s = (r, s')"
  shows "\<exists>resp. r = Some resp \<and> data s' \<noteq> None \<and>
    (case api_spec meth key (decode_put body) (store_map s) of
       ((status, v), m) \<Rightarrow> gstatus resp = status \<and> response_value resp = map_option to_valid v \<and> store_map s' = m)"
proof -
  have key: "trimPrefix ''/v1/keys/'' (''/v1/keys/'' @ key) = key"
    by (simp add: trimPrefix_def)
  note h = assms(4) [unfolded handleKey_def key Let_def]
  show ?thesis
  proof (cases meth)
    case MethodGet
    with h assms(1-3) show ?thesis
      by (auto simp: api_spec_def getKey_def Get_spec split: option.splits)
  next
    case MethodPut
    show ?thesis
    proof (cases "decode_put body")
      case None
      with MethodPut h assms(1-3) show ?thesis
        by (auto simp: api_spec_def putKey_def)
    next
      case (Some v)
      obtain x s1 where u: "Upsert Written Saved key v s = (x, s1)"
        by (metis surj_pair)
      with upsert_written [OF assms(1,2) u] Some MethodPut h assms(2,3) show ?thesis
        by (auto simp: api_spec_def putKey_def)
    qed
  next
    case MethodDelete
    obtain x s1 where d: "Delete Written Saved key s = (x, s1)"
      by (metis surj_pair)
    with delete_written [OF assms(1,2) d] MethodDelete h assms(2,3) show ?thesis
      by (auto simp: api_spec_def deleteKey_def response_value_def)
  next
    case MethodOther
    with h assms(1-3) show ?thesis
      by (auto simp: api_spec_def)
  qed
qed

text \<open>
  C10. The interface refines the abstract map. For every method and body and every key that is
  one non-empty path segment, on a store whose map exists and whose writes succeed: the
  response has the status and the value the contract states for the map the store stands for,
  and the store stands for the map after the request.
\<close>

theorem api_refines_map:
  assumes "data s \<noteq> None" and "key \<noteq> []" and "CHR ''/'' \<notin> set key"
    and "handleKey Written Saved errtext meth (''/v1/keys/'' @ key) body s = (r, s')"
  shows "\<exists>resp. r = Some resp \<and> data s' \<noteq> None \<and>
    (case api_spec meth key (decode_put body) (store_map s) of
       ((status, v), m) \<Rightarrow> gstatus resp = status \<and> response_value resp = map_option to_valid v \<and> store_map s' = m)"
  by (rule handleKey_spec [OF assms])

theorem api_refines_map_witness:
  "\<exists>resp s'. handleKey Written Saved (\<lambda>_. []) MethodPut ''/v1/keys/a'' ''null'' (NewStore None None) = (Some resp, s') \<and>
     gstatus resp = 200 \<and> store_map s' ''a'' = Some []"
proof -
  let ?s = "NewStore None None"
  obtain r s' where h: "handleKey Written Saved (\<lambda>_. []) MethodPut (''/v1/keys/'' @ ''a'') ''null'' ?s = (r, s')"
    by (metis surj_pair)
  have d: "decode_put ''null'' = Some []"
    by (simp add: decode_put_def) code_simp
  from api_refines_map [of ?s "''a''", OF _ _ _ h] d h show ?thesis
    by (auto simp: NewStore_def api_spec_def)
qed

text \<open>
  C35. What is written is read back, byte for byte. For every valid UTF-8 value and every key
  that is one non-empty path segment: a PUT with the body that \<^verbatim>\<open>json.Marshal\<close> produces for the
  value is answered 200, and a GET of the key right after it is answered 200 with that value.
\<close>

theorem api_put_get_roundtrip:
  assumes "data s \<noteq> None" and "key \<noteq> []" and "CHR ''/'' \<notin> set key" and "valid_utf8 v"
    and put: "handleKey Written Saved errtext MethodPut (''/v1/keys/'' @ key) (print_object [(''value'', v)]) s = (r, s')"
    and get: "handleKey wo so errtext MethodGet (''/v1/keys/'' @ key) body s' = (q, s'')"
  shows "s'' = s' \<and> (\<exists>resp. r = Some resp \<and> gstatus resp = 200) \<and>
    (\<exists>resp. q = Some resp \<and> gstatus resp = 200 \<and> response_value resp = Some v)"
proof -
  have "parse_value (2 * length (print_object [(''value'', v)]) + 2) 0 (print_object [(''value'', v)]) =
      Some (GObj [(to_valid ''value'', GStr (to_valid v))], [])"
    using parse_value_print_object [of "[(''value'', v)]" _ "[]"] by simp
  moreover have "to_valid ''value'' = ''value''"
    by (rule to_valid_id) code_simp
  ultimately have d: "decode_put (print_object [(''value'', v)]) = Some v"
    using to_valid_id [OF assms(4)] by (simp add: decode_put_def field_of_def)
  from handleKey_spec [OF assms(1-3) put] obtain resp where
    r: "r = Some resp" "gstatus resp = 200" "data s' \<noteq> None" "store_map s' = (store_map s)(key \<mapsto> v)"
    by (auto simp: api_spec_def d)
  have "s'' = s' \<and> (\<exists>resp. q = Some resp \<and> gstatus resp = 200 \<and> response_value resp = Some v)"
    using get r(4) assms(2,3) to_valid_id [OF assms(4)]
    by (auto simp: handleKey_def trimPrefix_def getKey_def Get_spec)
  with r show ?thesis by blast
qed

theorem api_put_get_roundtrip_witness:
  "\<exists>resp s' s''. handleKey Written Saved (\<lambda>_. []) MethodGet ''/v1/keys/a'' []
       (snd (handleKey Written Saved (\<lambda>_. []) MethodPut ''/v1/keys/a'' (print_object [(''value'', ''x'')]) (NewStore None None)))
     = (Some resp, s'') \<and> response_value resp = Some ''x''"
proof -
  let ?s = "NewStore None None"
  obtain r s' where p: "handleKey Written Saved (\<lambda>_. []) MethodPut (''/v1/keys/'' @ ''a'') (print_object [(''value'', ''x'')]) ?s = (r, s')"
    by (metis surj_pair)
  obtain q s'' where g: "handleKey Written Saved (\<lambda>_. []) MethodGet (''/v1/keys/'' @ ''a'') [] s' = (q, s'')"
    by (metis surj_pair)
  have "valid_utf8 ''x''"
    by code_simp
  from api_put_get_roundtrip [OF _ _ _ this p g] p g show ?thesis
    by (auto simp: NewStore_def)
qed

text \<open>The requests that are refused before the store is called, with their status.\<close>

definition rejection :: "go_method \<Rightarrow> string \<Rightarrow> string \<Rightarrow> int option" where
  "rejection meth path body =
     (if trimPrefix ''/v1/keys/'' path = [] \<or> CHR ''/'' \<in> set (trimPrefix ''/v1/keys/'' path) then Some 400
      else case meth of
             MethodOther _ \<Rightarrow> Some 405
           | MethodPut \<Rightarrow> (if decode_put body = None then Some 400 else None)
           | _ \<Rightarrow> None)"

lemma failed_append:
  assumes "wal s = Some (FileWAL f)" "wo \<noteq> Written" "persistAndApplyLocked wo so e s = (r, s')"
  shows "\<exists>err. r = Returned (Some (StorageError err))"
  using assms
  by (auto simp: persistAndApplyLocked_def append_entry_def FileWAL_Append_def Let_def
      split: write_outcome.splits if_splits)

text \<open>
  Requests that fail change nothing. A path that is not one non-empty segment and a body
  that does not decode are answered 400, any other method 405, and the store is not touched; a
  PUT or DELETE whose log line cannot be written completely and synced is answered 500 and
  leaves the map as it was.
\<close>

lemma api_errors_keep_map:
  assumes "handleKey wo so errtext meth path body s = (r, s')"
  shows "(\<forall>status. rejection meth path body = Some status \<longrightarrow> s' = s \<and> (\<exists>resp. r = Some resp \<and> gstatus resp = status)) \<and>
    (rejection meth path body = None \<and> meth \<noteq> MethodGet \<and> wal s = Some (FileWAL f) \<and> wo \<noteq> Written \<longrightarrow>
       store_map s' = store_map s \<and> (\<exists>resp. r = Some resp \<and> gstatus resp = 500))"
proof (intro conjI allI impI)
  fix status
  assume "rejection meth path body = Some status"
  with assms show "s' = s" "\<exists>resp. r = Some resp \<and> gstatus resp = status"
    by (auto simp: rejection_def handleKey_def Let_def putKey_def split: if_splits go_method.splits)
next
  let ?key = "trimPrefix ''/v1/keys/'' path"
  assume a: "rejection meth path body = None \<and> meth \<noteq> MethodGet \<and> wal s = Some (FileWAL f) \<and> wo \<noteq> Written"
  then have w: "wal s = Some (FileWAL f)" "wo \<noteq> Written" and key: "?key \<noteq> []" "CHR ''/'' \<notin> set ?key"
    by (auto simp: rejection_def split: if_splits)
  consider v where "meth = MethodPut" "decode_put body = Some v" | "meth = MethodDelete"
    using a by (auto simp: rejection_def split: if_splits go_method.splits)
  then obtain e x where p: "persistAndApplyLocked wo so e s = (x, s')" and
    r: "\<forall>err. x = Returned (Some (StorageError err)) \<longrightarrow> r = Some (writeStoreError errtext (StorageError err))"
  proof cases
    case 1
    obtain x t where u: "persistAndApplyLocked wo so \<lparr>Op = OpUpsert, Key = ?key, Value = v\<rparr> s = (x, t)"
      by (metis surj_pair)
    with assms key 1 have "t = s'" "\<forall>err. x = Returned (Some (StorageError err)) \<longrightarrow> r = Some (writeStoreError errtext (StorageError err))"
      by (auto simp: handleKey_def Let_def putKey_def Upsert_def split: op_result.splits option.splits)
    with u that show ?thesis by blast
  next
    case 2
    obtain x t where u: "persistAndApplyLocked wo so \<lparr>Op = OpDelete, Key = ?key, Value = []\<rparr> s = (x, t)"
      by (metis surj_pair)
    with assms key 2 have "t = s'" "\<forall>err. x = Returned (Some (StorageError err)) \<longrightarrow> r = Some (writeStoreError errtext (StorageError err))"
      by (auto simp: handleKey_def Let_def deleteKey_def Delete_def split: op_result.splits option.splits)
    with u that show ?thesis by blast
  qed
  from persist_failed [OF w p] failed_append [OF w p] r
  show "store_map s' = store_map s" "\<exists>resp. r = Some resp \<and> gstatus resp = 500"
    by (auto simp: writeStoreError_def)
qed

end
