(* ===== verification/Shard_Router.thy ===== *)
theory Shard_Router
  imports Shard_Hash Http_Api
begin

text \<open>
  The client side of sharding: the topology from the environment (\<^verbatim>\<open>config/config.go\<close>), the router
  that forwards each request to the nodes of the key's shard (\<^verbatim>\<open>shard/router.go\<close>,
  \<^verbatim>\<open>shard/shard_group.go\<close>) and the command line client (\<^verbatim>\<open>cmd/client/main.go\<close>).
\<close>

subsection \<open>Strings of the Go library\<close>

text \<open>\<^verbatim>\<open>strconv.Atoi\<close>: an optional sign and decimal digits, in the range of a 64-bit integer.\<close>

definition decimal :: "string \<Rightarrow> int" where
  "decimal ds = foldl (\<lambda>a d. 10 * a + int (code d - 48)) 0 ds"

definition atoi :: "string \<Rightarrow> int option" where
  "atoi s =
     (let neg = (take 1 s = ''-''); ds = (if take 1 s = ''-'' \<or> take 1 s = ''+'' then drop 1 s else s);
          v = (if neg then - decimal ds else decimal ds)
      in if ds = [] \<or> \<not> list_all is_digit ds \<or> v < - (2 ^ 63) \<or> 2 ^ 63 \<le> v then None else Some v)"

text \<open>\<^verbatim>\<open>strings.TrimSpace\<close>: the UTF-8 encodings of the characters with the White Space property.\<close>

definition space_runes :: "string list" where
  "space_runes = map encode_rune
     ([9, 10, 11, 12, 13, 32, 0x85, 0xA0, 0x1680] @ [0x2000..<0x200B] @ [0x2028, 0x2029, 0x202F, 0x205F, 0x3000])"

definition space_prefix :: "string list \<Rightarrow> string \<Rightarrow> nat" where
  "space_prefix rs s = (case find (\<lambda>r. take (length r) s = r) rs of None \<Rightarrow> 0 | Some r \<Rightarrow> length r)"

function trim_left :: "string list \<Rightarrow> string \<Rightarrow> string" where
  "trim_left rs s = (if s = [] \<or> space_prefix rs s = 0 then s else trim_left rs (drop (space_prefix rs s) s))"
  by pat_completeness auto
termination
  by (relation "measure (\<lambda>(rs, s). length s)") auto

declare trim_left.simps [simp del]

definition trimSpace :: "string \<Rightarrow> string" where
  "trimSpace s = rev (trim_left (map rev space_runes) (rev (trim_left space_runes s)))"

fun splitComma :: "string \<Rightarrow> string list" where
  "splitComma [] = [[]]"
| "splitComma (c # s) =
     (if c = CHR '','' then [] # splitComma s
      else (case splitComma s of [] \<Rightarrow> [[c]] | p # ps \<Rightarrow> (c # p) # ps))"

definition itoa :: "nat \<Rightarrow> string" where
  "itoa n = map char_of (nat_digits n)"

subsection \<open>The topology\<close>

record Shard =
  ShardID :: int
  Addrs :: "string list"

record ClusterConfig =
  TotalShards :: int
  Shards :: "Shard list"

datatype config_error = NotPositive string | MissingVar string | EmptyVar string

definition addrs_var :: "nat \<Rightarrow> string" where
  "addrs_var i = ''CLIENT_SHARD_'' @ itoa i @ ''_ADDRS''"

text \<open>An environment gives every variable a value, the empty string when it is not set.\<close>

definition parse_addrs :: "string \<Rightarrow> string list" where
  "parse_addrs raw = filter (\<lambda>a. a \<noteq> []) (map trimSpace (splitComma raw))"

fun load_shards :: "(string \<Rightarrow> string) \<Rightarrow> nat list \<Rightarrow> config_error + Shard list" where
  "load_shards getenv [] = Inr []"
| "load_shards getenv (i # is) =
     (let raw = getenv (addrs_var i); addrs = parse_addrs raw
      in if raw = [] then Inl (MissingVar (addrs_var i))
         else if addrs = [] then Inl (EmptyVar (addrs_var i))
         else bind_result (load_shards getenv is) (\<lambda>shards. Inr (\<lparr>ShardID = int i, Addrs = addrs\<rparr> # shards)))"

definition LoadFromEnv :: "(string \<Rightarrow> string) \<Rightarrow> config_error + ClusterConfig" where
  "LoadFromEnv getenv =
     (let totalStr = (if getenv ''CLIENT_SHARDS_TOTAL'' = [] then ''1'' else getenv ''CLIENT_SHARDS_TOTAL'')
      in case atoi totalStr of
           None \<Rightarrow> Inl (NotPositive totalStr)
         | Some t \<Rightarrow>
             if t < 1 then Inl (NotPositive totalStr)
             else bind_result (load_shards getenv [0..<nat t]) (\<lambda>shards.
                    Inr \<lparr>TotalShards = t, Shards = shards\<rparr>))"

subsection \<open>The router\<close>

text \<open>
  The network as the HTTP client of the router sees it: whether \<^verbatim>\<open>http.NewRequest\<close> accepts a URL,
  and what comes back for a request, \<^const>\<open>None\<close> for a transport error or the timeout.
\<close>

record go_request =
  gmethod :: go_method
  gurl :: string
  gpayload :: string

record go_reply =
  StatusCode :: int
  Body :: string

record 'w go_net =
  url_ok :: "string \<Rightarrow> bool"
  do_request :: "go_request \<Rightarrow> 'w \<Rightarrow> go_reply option \<times> 'w"

record Router =
  rshards :: "Shard list"
  rtotal :: int

definition NewRouter :: "Shard list \<Rightarrow> int \<Rightarrow> Router" where
  "NewRouter shards total_shards = \<lparr>rshards = shards, rtotal = total_shards\<rparr>"

definition ShardFor :: "Router \<Rightarrow> string \<Rightarrow> int go_result" where
  "ShardFor r key = KeyToShard key (rtotal r)"

definition route :: "Router \<Rightarrow> string \<Rightarrow> Shard go_result" where
  "route r key =
     bind_result (KeyToShard key (rtotal r)) (\<lambda>i.
       if i < 0 \<or> int (length (rshards r)) \<le> i then Inl IndexOutOfRange else Inr (rshards r ! nat i))"

definition key_path :: "string \<Rightarrow> string \<Rightarrow> string" where
  "key_path addr key = addr @ ''/v1/keys/'' @ key"

text \<open>\<^verbatim>\<open>Decode\<close> into a struct with the fields \<^verbatim>\<open>value\<close> and \<^verbatim>\<open>found\<close>.\<close>

fun set_reply :: "string \<times> bool \<Rightarrow> (string \<times> gojson) list \<Rightarrow> (string \<times> bool) option" where
  "set_reply r [] = Some r"
| "set_reply r ((k, x) # ms) =
     (case field_of [''value'', ''found''] k of
        None \<Rightarrow> set_reply r ms
      | Some f \<Rightarrow>
          (case x of
             GNull \<Rightarrow> set_reply r ms
           | GStr s \<Rightarrow> if f = ''value'' then set_reply (s, snd r) ms else None
           | GBool b \<Rightarrow> if f = ''found'' then set_reply (fst r, b) ms else None
           | _ \<Rightarrow> None))"

definition decode_reply :: "string \<Rightarrow> (string \<times> bool) option" where
  "decode_reply body =
     (case parse_value (2 * length body + 2) 0 body of
        Some (GNull, _) \<Rightarrow> Some ([], False)
      | Some (GObj ms, _) \<Rightarrow> set_reply ([], False) ms
      | _ \<Rightarrow> None)"

datatype router_error = NoNodeResponded int | NoNodeAccepted int | BadReply

text \<open>\<^verbatim>\<open>client.Get\<close> of a URL that does not parse is an error like any other.\<close>

fun get_loop ::
    "'w go_net \<Rightarrow> string \<Rightarrow> string list \<Rightarrow> 'w \<Rightarrow> (router_error + string \<times> bool) option \<times> 'w" where
  "get_loop net key [] w = (None, w)"
| "get_loop net key (addr # addrs) w =
     (if \<not> url_ok net (key_path addr key) then get_loop net key addrs w
      else
        (let (resp, w) = do_request net \<lparr>gmethod = MethodGet, gurl = key_path addr key, gpayload = []\<rparr> w
         in case resp of
              None \<Rightarrow> get_loop net key addrs w
            | Some reply \<Rightarrow>
                if StatusCode reply = 404 then (Some (Inr ([], False)), w)
                else if StatusCode reply \<noteq> 200 then get_loop net key addrs w
                else (case decode_reply (Body reply) of
                        None \<Rightarrow> (Some (Inl BadReply), w)
                      | Some body \<Rightarrow> (Some (Inr body), w))))"

definition router_Get ::
    "'w go_net \<Rightarrow> Router \<Rightarrow> string \<Rightarrow> 'w \<Rightarrow> (router_error + string \<times> bool) go_result \<times> 'w" where
  "router_Get net r key w =
     (case route r key of
        Inl p \<Rightarrow> (Inl p, w)
      | Inr s \<Rightarrow>
          (let (res, w) = get_loop net key (Addrs s) w
           in (Inr (case res of None \<Rightarrow> Inl (NoNodeResponded (ShardID s)) | Some x \<Rightarrow> x), w)))"

text \<open>
  The errors of \<^verbatim>\<open>http.NewRequest\<close> are dropped: with a URL that does not parse the request is nil,
  and using it panics. The Boolean of the loop says whether a node accepted the request.
\<close>

fun send_loop ::
    "'w go_net \<Rightarrow> go_method \<Rightarrow> string \<Rightarrow> (int \<Rightarrow> bool) \<Rightarrow> string \<Rightarrow> string list \<Rightarrow> 'w \<Rightarrow> bool go_result \<times> 'w" where
  "send_loop net meth payload accepts key [] w = (Inr False, w)"
| "send_loop net meth payload accepts key (addr # addrs) w =
     (if \<not> url_ok net (key_path addr key) then (Inl NilDereference, w)
      else
        (let (resp, w) = do_request net \<lparr>gmethod = meth, gurl = key_path addr key, gpayload = payload\<rparr> w
         in case resp of
              None \<Rightarrow> send_loop net meth payload accepts key addrs w
            | Some reply \<Rightarrow>
                if accepts (StatusCode reply) then (Inr True, w)
                else send_loop net meth payload accepts key addrs w))"

definition router_Put ::
    "'w go_net \<Rightarrow> Router \<Rightarrow> string \<Rightarrow> string \<Rightarrow> 'w \<Rightarrow> router_error option go_result \<times> 'w" where
  "router_Put net r key v w =
     (case route r key of
        Inl p \<Rightarrow> (Inl p, w)
      | Inr s \<Rightarrow>
          (let (res, w) = send_loop net MethodPut (print_object [(''value'', v)]) (\<lambda>c. c = 200) key (Addrs s) w
           in (bind_result res (\<lambda>ok. Inr (if ok then None else Some (NoNodeAccepted (ShardID s)))), w)))"

definition router_Delete :: "'w go_net \<Rightarrow> Router \<Rightarrow> string \<Rightarrow> 'w \<Rightarrow> router_error option go_result \<times> 'w" where
  "router_Delete net r key w =
     (case route r key of
        Inl p \<Rightarrow> (Inl p, w)
      | Inr s \<Rightarrow>
          (let (res, w) = send_loop net MethodDelete [] (\<lambda>c. c = 204 \<or> c = 200) key (Addrs s) w
           in (bind_result res (\<lambda>ok. Inr (if ok then None else Some (NoNodeAccepted (ShardID s)))), w)))"

subsection \<open>The command line client\<close>

datatype client_result =
    Usage
  | ConfigError config_error
  | Failed router_error
  | NotFound
  | Printed string int
  | Done int
  | MissingValue
  | UnknownCommand

text \<open>\<open>args\<close> are the arguments after the program name.\<close>

definition client_main ::
    "'w go_net \<Rightarrow> (string \<Rightarrow> string) \<Rightarrow> string list \<Rightarrow> 'w \<Rightarrow> client_result go_result \<times> 'w" where
  "client_main net getenv args w =
     (if length args < 2 then (Inr Usage, w)
      else case LoadFromEnv getenv of
        Inl e \<Rightarrow> (Inr (ConfigError e), w)
      | Inr cfg \<Rightarrow>
          (let router = NewRouter (Shards cfg) (TotalShards cfg); cmd = args ! 0; key = args ! 1
           in if cmd = ''get'' then
                (let (res, w) = router_Get net router key w
                 in (bind_result res (\<lambda>r. case r of
                       Inl e \<Rightarrow> Inr (Failed e)
                     | Inr (v, found) \<Rightarrow>
                         if \<not> found then Inr NotFound
                         else bind_result (ShardFor router key) (\<lambda>i. Inr (Printed v i))), w))
              else if cmd = ''put'' then
                (if length args < 3 then (Inr MissingValue, w)
                 else
                   (let (res, w) = router_Put net router key (args ! 2) w
                    in (bind_result res (\<lambda>r. case r of
                          Some e \<Rightarrow> Inr (Failed e)
                        | None \<Rightarrow> bind_result (ShardFor router key) (\<lambda>i. Inr (Done i))), w)))
              else if cmd = ''del'' then
                (let (res, w) = router_Delete net router key w
                 in (bind_result res (\<lambda>r. case r of
                       Some e \<Rightarrow> Inr (Failed e)
                     | None \<Rightarrow> bind_result (ShardFor router key) (\<lambda>i. Inr (Done i))), w))
              else (Inr UnknownCommand, w)))"

subsection \<open>Every key has a shard\<close>

lemma load_shards_spec:
  "load_shards getenv is = Inr shards \<Longrightarrow> length shards = length is \<and>
     (\<forall>j < length is. ShardID (shards ! j) = int (is ! j) \<and> Addrs (shards ! j) = parse_addrs (getenv (addrs_var (is ! j))) \<and>
        Addrs (shards ! j) \<noteq> [])"
proof (induction "is" arbitrary: shards)
  case Nil
  then show ?case by simp
next
  case (Cons i "is")
  then obtain rest where rest: "load_shards getenv is = Inr rest"
    "shards = \<lparr>ShardID = int i, Addrs = parse_addrs (getenv (addrs_var i))\<rparr> # rest" "parse_addrs (getenv (addrs_var i)) \<noteq> []"
    by (auto simp: Let_def split: if_splits)
  with Cons.IH [OF rest(1)] show ?case
    by (auto simp: nth_Cons split: nat.split)
qed

text \<open>
  C36. A topology that loads from the environment routes every key. It has at least one shard,
  shard \<open>i\<close> has the identifier \<open>i\<close> and at least one address, no address is empty, and for every key
  the router finds, without a panic, the shard whose identifier is the hash of the key.
\<close>

theorem config_routes_every_key:
  assumes "LoadFromEnv getenv = Inr cfg"
  shows "1 \<le> TotalShards cfg \<and> length (Shards cfg) = nat (TotalShards cfg) \<and>
    (\<forall>i < length (Shards cfg). ShardID (Shards cfg ! i) = int i \<and> Addrs (Shards cfg ! i) \<noteq> [] \<and>
       [] \<notin> set (Addrs (Shards cfg ! i))) \<and>
    (\<exists>s \<in> set (Shards cfg). route (NewRouter (Shards cfg) (TotalShards cfg)) key = Inr s \<and>
       ShardFor (NewRouter (Shards cfg) (TotalShards cfg)) key = Inr (ShardID s))"
proof -
  obtain t where t: "1 \<le> t" "TotalShards cfg = t" "load_shards getenv [0..<nat t] = Inr (Shards cfg)"
    using assms by (auto simp: LoadFromEnv_def Let_def split: option.splits if_splits)
  note s = load_shards_spec [OF t(3)]
  then have len: "length (Shards cfg) = nat t"
    by simp
  have each: "ShardID (Shards cfg ! i) = int i \<and> Addrs (Shards cfg ! i) \<noteq> [] \<and> [] \<notin> set (Addrs (Shards cfg ! i))"
    if "i < length (Shards cfg)" for i
    using s that by (auto simp: parse_addrs_def)
  define k where "k = uint (fnv32a key) mod t"
  have k: "KeyToShard key t = Inr k" "0 \<le> k" "k < t"
    using t(1) KeyToShard_pos [of t key] by (simp_all add: k_def)
  then have n: "nat k < length (Shards cfg)"
    using len by simp
  have "route (NewRouter (Shards cfg) t) key = Inr (Shards cfg ! nat k)"
    using k n len by (simp add: route_def NewRouter_def)
  moreover have "ShardFor (NewRouter (Shards cfg) t) key = Inr (ShardID (Shards cfg ! nat k))"
    using each [OF n] k by (simp add: ShardFor_def NewRouter_def)
  moreover have "Shards cfg ! nat k \<in> set (Shards cfg)"
    using n by simp
  ultimately have "\<exists>s \<in> set (Shards cfg). route (NewRouter (Shards cfg) t) key = Inr s \<and>
      ShardFor (NewRouter (Shards cfg) t) key = Inr (ShardID s)"
    by blast
  then show ?thesis
    using t(1) len each unfolding t(2) by blast
qed

text \<open>Text that begins and ends with a visible ASCII character is left alone by trimming.\<close>

lemma encode_rune_ends:
  assumes "c < 0x10000" "c \<le> 32 \<or> 0x80 \<le> c"
  shows "encode_rune c \<noteq> [] \<and> (code (hd (encode_rune c)) \<le> 32 \<or> 0x80 \<le> code (hd (encode_rune c))) \<and>
    (code (last (encode_rune c)) \<le> 32 \<or> 0x80 \<le> code (last (encode_rune c)))"
  using assms by (auto simp: encode_rune_def)

lemma space_runes_ends:
  "r \<in> set space_runes \<Longrightarrow> r \<noteq> [] \<and> (code (hd r) \<le> 32 \<or> 0x80 \<le> code (hd r)) \<and> (code (last r) \<le> 32 \<or> 0x80 \<le> code (last r))"
  unfolding space_runes_def by (auto intro!: encode_rune_ends simp del: encode_rune_def)

definition visible :: "char \<Rightarrow> bool" where
  "visible c \<longleftrightarrow> 32 < code c \<and> code c < 0x80"

lemma trim_left_visible:
  assumes "s \<noteq> []" "visible (hd s)" "\<forall>r \<in> set rs. r \<noteq> [] \<and> \<not> visible (hd r)"
  shows "trim_left rs s = s"
proof -
  have "take (length r) s \<noteq> r" if "r \<in> set rs" for r
    using assms that by (cases s; cases r) auto
  then have "space_prefix rs s = 0"
    by (auto simp: space_prefix_def find_None_iff split: option.split dest: find_Some_iff [THEN iffD1])
  then show ?thesis
    by (subst trim_left.simps) simp
qed

lemma trimSpace_visible:
  assumes "s \<noteq> []" "visible (hd s)" "visible (last s)"
  shows "trimSpace s = s"
proof -
  have "\<forall>r \<in> set space_runes. r \<noteq> [] \<and> \<not> visible (hd r)" "\<forall>r \<in> set (map rev space_runes). r \<noteq> [] \<and> \<not> visible (hd r)"
    by (auto simp: visible_def hd_rev dest!: space_runes_ends)
  then have "trim_left space_runes s = s" "trim_left (map rev space_runes) (rev s) = rev s"
    using assms by (auto intro!: trim_left_visible simp: hd_rev)
  then show ?thesis
    by (simp add: trimSpace_def)
qed

definition one_shard_env :: "string \<Rightarrow> string" where
  "one_shard_env v = (if v = ''CLIENT_SHARD_0_ADDRS'' then ''http://a:1,http://b:1'' else [])"

lemma one_shard_env_loads:
  "LoadFromEnv one_shard_env = Inr \<lparr>TotalShards = 1, Shards = [\<lparr>ShardID = 0, Addrs = [''http://a:1'', ''http://b:1'']\<rparr>]\<rparr>"
proof -
  have "addrs_var 0 = ''CLIENT_SHARD_0_ADDRS''"
    by (simp add: addrs_var_def itoa_def nat_digits.simps char_of_def bit_iff_odd)
  moreover have "atoi ''1'' = Some 1"
    by (simp add: atoi_def decimal_def is_digit_def)
  moreover have "parse_addrs ''http://a:1,http://b:1'' = [''http://a:1'', ''http://b:1'']"
    by (simp add: parse_addrs_def trimSpace_visible visible_def)
  ultimately show ?thesis
    by (simp add: LoadFromEnv_def one_shard_env_def Let_def)
qed

theorem config_routes_every_key_witness:
  "\<exists>s. route (NewRouter [\<lparr>ShardID = 0, Addrs = [''http://a:1'', ''http://b:1'']\<rparr>] 1) ''k'' = Inr s \<and> ShardID s = 0"
  using config_routes_every_key [OF one_shard_env_loads, of "''k''"] by simp

end
