(* ===== verification/Router_Service.thy ===== *)
theory Router_Service
  imports Shard_Router
begin

text \<open>
  The router together with the servers it talks to: the contract the router needs of the node
  behind an address, the proof that \<^verbatim>\<open>api/http.go\<close> over \<^verbatim>\<open>kv/store.go\<close> meets it, and that the whole is
  one map.
\<close>

subsection \<open>The router over a store behind every shard\<close>

text \<open>
  What the router relies on: a node behind an address keeps a map, answers requests for
  well-behaved keys, and requests for one address do not change another.
\<close>

locale kv_backend =
  fixes net :: "'w go_net" and contents :: "'w \<Rightarrow> string \<Rightarrow> (string \<rightharpoonup> string) option" and plain_key :: "string \<Rightarrow> bool"
  assumes urls: "\<lbrakk>contents w addr = Some m; plain_key key\<rbrakk> \<Longrightarrow> url_ok net (key_path addr key)"
    and puts: "\<lbrakk>contents w addr = Some m; plain_key key; valid_utf8 v;
        do_request net \<lparr>gmethod = MethodPut, gurl = key_path addr key, gpayload = print_object [(''value'', v)]\<rparr> w = (r, w')\<rbrakk> \<Longrightarrow>
      (\<exists>reply. r = Some reply \<and> StatusCode reply = 200) \<and> contents w' = (contents w)(addr \<mapsto> m(key \<mapsto> v))"
    and gets: "\<lbrakk>contents w addr = Some m; plain_key key;
        do_request net \<lparr>gmethod = MethodGet, gurl = key_path addr key, gpayload = []\<rparr> w = (r, w')\<rbrakk> \<Longrightarrow>
      (\<exists>reply. r = Some reply \<and> (case m key of None \<Rightarrow> StatusCode reply = 404
         | Some v \<Rightarrow> StatusCode reply = 200 \<and> decode_reply (Body reply) = Some (to_valid v, True))) \<and> contents w' = contents w"
    and deletes: "\<lbrakk>contents w addr = Some m; plain_key key;
        do_request net \<lparr>gmethod = MethodDelete, gurl = key_path addr key, gpayload = []\<rparr> w = (r, w')\<rbrakk> \<Longrightarrow>
      (\<exists>reply. r = Some reply \<and> StatusCode reply = 204) \<and> contents w' = (contents w)(addr \<mapsto> m(key := None))"
begin

text \<open>The one map that the shards hold together; reads and writes go to the first address.\<close>

definition whole :: "Router \<Rightarrow> 'w \<Rightarrow> (string \<rightharpoonup> string)" where
  "whole r w key =
     (case route r key of
        Inl _ \<Rightarrow> None
      | Inr s \<Rightarrow> (case contents w (hd (Addrs s)) of None \<Rightarrow> None | Some m \<Rightarrow> m key))"

definition serves :: "Router \<Rightarrow> 'w \<Rightarrow> bool" where
  "serves r w \<longleftrightarrow> (\<forall>key. \<exists>s. route r key = Inr s \<and> Addrs s \<noteq> [] \<and> contents w (hd (Addrs s)) \<noteq> None)"

lemma servesD:
  assumes "serves r w"
  obtains s addr addrs m where "route r key = Inr s" "Addrs s = addr # addrs" "contents w addr = Some m"
  using assms by (metis list.collapse not_None_eq serves_def)

lemma whole_update:
  assumes "serves r w" "route r key = Inr s" "Addrs s = addr # addrs" "contents w addr = Some m"
    "contents w' = (contents w)(addr \<mapsto> m(key := v))"
  shows "whole r w' = (whole r w)(key := v) \<and> serves r w'"
proof
  show "whole r w' = (whole r w)(key := v)"
    using assms(2-5) by (auto simp: whole_def fun_eq_iff split: sum.split option.split)
  show "serves r w'"
    unfolding serves_def
  proof
    fix k
    obtain t where "route r k = Inr t" "Addrs t \<noteq> []" "contents w (hd (Addrs t)) \<noteq> None"
      using assms(1) unfolding serves_def by blast
    then show "\<exists>t. route r k = Inr t \<and> Addrs t \<noteq> [] \<and> contents w' (hd (Addrs t)) \<noteq> None"
      unfolding assms(5) by (intro exI [of _ t]) simp
  qed
qed

lemma router_put:
  assumes "serves r w" "plain_key key" "valid_utf8 v" "router_Put net r key v w = (res, w')"
  shows "res = Inr None \<and> whole r w' = (whole r w)(key \<mapsto> v) \<and> serves r w'"
proof -
  obtain s addr addrs m where s: "route r key = Inr s" "Addrs s = addr # addrs" "contents w addr = Some m"
    using servesD [OF assms(1)] by blast
  obtain x w1 where q: "do_request net \<lparr>gmethod = MethodPut, gurl = key_path addr key, gpayload = print_object [(''value'', v)]\<rparr> w = (x, w1)"
    by (metis surj_pair)
  from puts [OF s(3) assms(2,3) q] whole_update [OF assms(1) s(1-3)] q s urls [OF s(3) assms(2)] assms(4) show ?thesis
    by (auto simp: router_Put_def)
qed

lemma router_delete:
  assumes "serves r w" "plain_key key" "router_Delete net r key w = (res, w')"
  shows "res = Inr None \<and> whole r w' = (whole r w)(key := None) \<and> serves r w'"
proof -
  obtain s addr addrs m where s: "route r key = Inr s" "Addrs s = addr # addrs" "contents w addr = Some m"
    using servesD [OF assms(1)] by blast
  obtain x w1 where q: "do_request net \<lparr>gmethod = MethodDelete, gurl = key_path addr key, gpayload = []\<rparr> w = (x, w1)"
    by (metis surj_pair)
  from deletes [OF s(3) assms(2) q] whole_update [OF assms(1) s(1-3)] q s urls [OF s(3) assms(2)] assms(3) show ?thesis
    by (auto simp: router_Delete_def)
qed

lemma router_get:
  assumes "serves r w" "plain_key key" "router_Get net r key w = (res, w')"
  shows "res = Inr (Inr (case whole r w key of None \<Rightarrow> ([], False) | Some v \<Rightarrow> (to_valid v, True))) \<and>
    whole r w' = whole r w \<and> serves r w'"
proof -
  obtain s addr addrs m where s: "route r key = Inr s" "Addrs s = addr # addrs" "contents w addr = Some m"
    using servesD [OF assms(1)] by blast
  obtain x w1 where q: "do_request net \<lparr>gmethod = MethodGet, gurl = key_path addr key, gpayload = []\<rparr> w = (x, w1)"
    by (metis surj_pair)
  have same: "whole r w1 = whole r w \<and> serves r w1" if eq: "contents w1 = contents w"
    using assms(1) unfolding whole_def [abs_def] serves_def eq by simp
  have "whole r w key = m key"
    using s by (simp add: whole_def)
  with same gets [OF s(3) assms(2) q] q s urls [OF s(3) assms(2)] assms(3) show ?thesis
    by (auto simp: router_Get_def split: option.splits)
qed

end

subsection \<open>Decoding what the server encodes\<close>

definition scalar :: "gojson \<Rightarrow> bool" where
  "scalar x \<longleftrightarrow> (case x of GStr _ \<Rightarrow> True | GBool _ \<Rightarrow> True | _ \<Rightarrow> False)"

fun clean :: "gojson \<Rightarrow> gojson" where
  "clean (GStr s) = GStr (to_valid s)"
| "clean x = x"

lemma parse_value_scalar:
  assumes "scalar x"
  shows "parse_value (Suc f) d (encode_scalar x @ t) = Some (clean x, t)"
proof (cases x)
  case (GBool b)
  have "\<not> is_ws (CHR ''t'')" "\<not> is_ws (CHR ''f'')"
    by (simp_all add: is_ws_def)
  with GBool show ?thesis
    by (cases b) (simp_all add: parse_value.simps eat_Cons parse_literal_def skip_ws_Cons dq_def)
qed (use assms in \<open>simp_all add: scalar_def parse_value_json_string\<close>)

lemma parse_members_encode:
  "ms \<noteq> [] \<Longrightarrow> list_all (\<lambda>(k, x). scalar x) ms \<Longrightarrow> length ms < f \<Longrightarrow>
     parse_members f d (encode_members ms @ CHR ''}'' # t) = Some (map (\<lambda>(k, x). (to_valid k, clean x)) ms, t)"
proof (induction ms arbitrary: f rule: encode_members.induct)
  case 1
  then show ?case by simp
next
  case (2 k x)
  define g where "g = f - 2"
  with 2 have f: "f = Suc (Suc g)"
    by simp
  from 2 show ?case
    unfolding f
    by (subst parse_members.simps)
      (simp add: json_string_def [of k] eat_simps parse_string_quote_body parse_value_scalar)
next
  case (3 k x m ms)
  define g where "g = f - 2"
  with 3 have f: "f = Suc (Suc g)" "length (m # ms) < Suc g"
    by simp_all
  from 3 f have IH: "parse_members (Suc g) d (encode_members (m # ms) @ CHR ''}'' # t) =
      Some (map (\<lambda>(k, x). (to_valid k, clean x)) (m # ms), t)"
    by simp
  from 3 IH show ?case
    unfolding f(1)
    by (subst parse_members.simps)
      (simp add: json_string_def [of k] eat_simps parse_string_quote_body parse_value_scalar)
qed

lemma length_encode_members: "length ms \<le> length (encode_members ms)"
  by (induction ms rule: encode_members.induct) (auto simp: json_string_def)

lemma parse_value_payload:
  assumes "ms \<noteq> []" "list_all (\<lambda>(k, x). scalar x) ms"
  shows "parse_value (2 * length (encode_payload (GObj ms)) + 2) 0 (encode_payload (GObj ms)) =
     Some (GObj (map (\<lambda>(k, x). (to_valid k, clean x)) ms), [nl])"
proof -
  obtain k x ms' where ms: "ms = (k, x) # ms'"
    using assms(1) by (metis list.exhaust surj_pair)
  obtain m where m: "encode_members ms = dq # m"
    unfolding ms by (cases ms') (auto simp: json_string_def)
  define f where "f = 2 * length (encode_payload (GObj ms)) + 1"
  have "length ms < f"
    using length_encode_members [of ms] by (simp add: f_def encode_payload_def)
  from parse_members_encode [OF assms this, of 1 "[nl]"]
  have "parse_members f 1 (dq # m @ [CHR ''}'', nl]) = Some (map (\<lambda>(k, x). (to_valid k, clean x)) ms, [nl])"
    by (simp add: m)
  then have "parse_value (Suc f) 0 (encode_payload (GObj ms)) = Some (GObj (map (\<lambda>(k, x). (to_valid k, clean x)) ms), [nl])"
    by (subst parse_value.simps) (simp add: encode_payload_def m eat_simps max_depth_def, simp add: dq_def)
  then show ?thesis
    by (simp add: f_def)
qed

lemma to_valid_names: "to_valid ''key'' = ''key''" "to_valid ''value'' = ''value''" "to_valid ''found'' = ''found''"
  by (simp_all add: to_valid_id valid_utf8.simps [of "[]"])

text \<open>The field names of the response: \<^verbatim>\<open>key\<close> is not a field of the router's struct, also not up to case.\<close>

lemma fold_name_lower: "97 \<le> code c \<Longrightarrow> code c \<le> 122 \<Longrightarrow> fold_name (c # s) = char_of (code c - 32) # fold_name s"
  by (subst fold_name.simps) simp

lemma fold_name_Nil: "fold_name [] = []"
  by (subst fold_name.simps) simp

lemma field_names: "field_of [''value'', ''found''] ''key'' = None" "field_of [''value'', ''found''] ''value'' = Some ''value''"
  "field_of [''value'', ''found''] ''found'' = Some ''found''"
  by (simp_all add: field_of_def fold_name_lower fold_name_Nil)

lemma decode_key_response: "decode_reply (encode_payload (keyResponse key v True)) = Some (to_valid v, True)"
proof (cases "v = []")
  case True
  have "list_all (\<lambda>(k, x). scalar x) [(''key'', GStr key), (''found'', GBool True)]"
    by (simp add: scalar_def)
  from parse_value_payload [OF _ this] True show ?thesis
    by (simp add: decode_reply_def keyResponse_def to_valid_names field_names to_valid_Nil)
next
  case False
  have "list_all (\<lambda>(k, x). scalar x) [(''key'', GStr key), (''value'', GStr v), (''found'', GBool True)]"
    by (simp add: scalar_def)
  from parse_value_payload [OF _ this] False show ?thesis
    by (simp add: decode_reply_def keyResponse_def to_valid_names field_names)
qed

subsection \<open>Single-node stores behind the addresses\<close>

text \<open>
  A network of \<^verbatim>\<open>cmd/simplekvs\<close> servers: behind every address the handler of \<^verbatim>\<open>api/http.go\<close> on a
  store whose writes succeed. It answers URLs made of a plain host and a plain path.
\<close>

definition plain_char :: "char \<Rightarrow> bool" where
  "plain_char c \<longleftrightarrow> is_digit c \<or> (65 \<le> code c \<and> code c \<le> 90) \<or> (97 \<le> code c \<and> code c \<le> 122) \<or> c \<in> set ''-_''"

definition plain_segment :: "string \<Rightarrow> bool" where
  "plain_segment s \<longleftrightarrow> s \<noteq> [] \<and> list_all plain_char s"

definition plain_addr :: "string \<Rightarrow> bool" where
  "plain_addr a \<longleftrightarrow> take 7 a = ''http://'' \<and> list_all (\<lambda>c. plain_char c \<or> c \<in> set ''.:'') (drop 7 a)"

definition split_url :: "string \<Rightarrow> string \<times> string" where
  "split_url u = (take 7 u @ takeWhile (\<lambda>c. c \<noteq> CHR ''/'') (drop 7 u), dropWhile (\<lambda>c. c \<noteq> CHR ''/'') (drop 7 u))"

definition api_reply :: "go_response \<Rightarrow> go_reply" where
  "api_reply resp = \<lparr>StatusCode = gstatus resp, Body = (case gbody resp of None \<Rightarrow> [] | Some p \<Rightarrow> encode_payload p)\<rparr>"

definition api_net :: "(storage_error \<Rightarrow> string) \<Rightarrow> (string \<Rightarrow> Store option) go_net" where
  "api_net errtext =
     \<lparr>url_ok = (\<lambda>u. take 7 u = ''http://'' \<and> list_all (\<lambda>c. plain_char c \<or> c \<in> set ''.:/'') (drop 7 u)),
      do_request = (\<lambda>req w.
        let (addr, path) = split_url (gurl req)
        in case w addr of
             None \<Rightarrow> (None, w)
           | Some s \<Rightarrow>
               (let (resp, s') = handleKey Written Saved errtext (gmethod req) path (gpayload req) s
                in (map_option api_reply resp, w(addr \<mapsto> s'))))\<rparr>"

definition api_contents :: "(string \<Rightarrow> Store option) \<Rightarrow> string \<Rightarrow> (string \<rightharpoonup> string) option" where
  "api_contents w addr =
     (case w addr of
        None \<Rightarrow> None
      | Some s \<Rightarrow> if plain_addr addr \<and> data s \<noteq> None then Some (store_map s) else None)"

lemma plain_char_no_slash: "\<not> plain_char (CHR ''/'')"
  by (simp add: plain_char_def is_digit_def)

lemma split_key_path:
  assumes "plain_addr addr"
  shows "split_url (key_path addr key) = (addr, ''/v1/keys/'' @ key)"
proof -
  have l: "7 \<le> length addr" and p: "take 7 addr = ''http://''"
    using assms by (auto simp: plain_addr_def dest: arg_cong [where f = length])
  have ns: "\<forall>c \<in> set (drop 7 addr). c \<noteq> CHR ''/''"
    using assms plain_char_no_slash by (auto simp: plain_addr_def list_all_iff)
  have "drop 7 (key_path addr key) = drop 7 addr @ ''/v1/keys/'' @ key" "take 7 (key_path addr key) = take 7 addr"
    using l by (simp_all add: key_path_def)
  moreover have "takeWhile (\<lambda>c. c \<noteq> CHR ''/'') (drop 7 addr @ ''/v1/keys/'' @ key) = drop 7 addr"
    "dropWhile (\<lambda>c. c \<noteq> CHR ''/'') (drop 7 addr @ ''/v1/keys/'' @ key) = ''/v1/keys/'' @ key"
    using ns by (simp_all add: takeWhile_append2 dropWhile_append2)
  ultimately show ?thesis
    by (simp add: split_url_def)
qed

lemma plain_segmentD: "plain_segment key \<Longrightarrow> key \<noteq> [] \<and> CHR ''/'' \<notin> set key"
  using plain_char_no_slash by (auto simp: plain_segment_def list_all_iff)

lemma decode_value_object: "valid_utf8 v \<Longrightarrow> decode_put (print_object [(''value'', v)]) = Some v"
  using parse_value_print_object [of "[(''value'', v)]" _ "[]"]
  by (simp add: decode_put_def to_valid_names to_valid_id field_of_def)

lemma api_request:
  assumes "api_contents w addr = Some m" "plain_segment key"
    "do_request (api_net errtext) \<lparr>gmethod = meth, gurl = key_path addr key, gpayload = body\<rparr> w = (r, w')"
  shows "\<exists>resp. r = Some (api_reply resp) \<and>
    (case api_spec meth key (decode_put body) m of
       ((status, v), m') \<Rightarrow> gstatus resp = status \<and> response_value resp = map_option to_valid v \<and>
         api_contents w' = (api_contents w)(addr \<mapsto> m')) \<and>
    (\<forall>v. meth = MethodGet \<longrightarrow> m key = Some v \<longrightarrow> gbody resp = Some (keyResponse key v True))"
proof -
  obtain s where s: "w addr = Some s" "plain_addr addr" "data s \<noteq> None" "store_map s = m"
    using assms(1) by (auto simp: api_contents_def split: option.splits if_splits)
  note k = plain_segmentD [OF assms(2)]
  obtain x s' where h: "handleKey Written Saved errtext meth (''/v1/keys/'' @ key) body s = (x, s')"
    by (metis surj_pair)
  have r: "r = map_option api_reply x" "w' = w(addr \<mapsto> s')"
    using assms(3) s(1) h by (simp_all add: api_net_def split_key_path [OF s(2)])
  obtain resp where resp: "x = Some resp" "data s' \<noteq> None"
    "case api_spec meth key (decode_put body) m of
       ((status, v), m') \<Rightarrow> gstatus resp = status \<and> response_value resp = map_option to_valid v \<and> store_map s' = m'"
    using handleKey_spec [OF s(3) conjunct1 [OF k] conjunct2 [OF k] h] s(4) by auto
  have "api_contents w' = (api_contents w)(addr \<mapsto> store_map s')"
    using r(2) resp(2) s(2) by (auto simp: api_contents_def)
  moreover have "gbody resp = Some (keyResponse key v True)" if "meth = MethodGet" "m key = Some v" for v
    using h that resp(1) s(4) k
    by (auto simp: handleKey_def trimPrefix_def getKey_def Get_spec writeJSON_def)
  ultimately show ?thesis
    using r resp by (auto split: prod.splits)
qed

interpretation simplekvs: kv_backend "api_net errtext" api_contents plain_segment for errtext
proof
  fix w addr m key
  assume "api_contents w addr = Some m" "plain_segment key"
  then have "plain_addr addr" "list_all plain_char key"
    by (auto simp: api_contents_def plain_segment_def split: option.splits if_splits)
  moreover from this have "7 \<le> length addr"
    by (auto simp: plain_addr_def dest: arg_cong [where f = length])
  ultimately show "url_ok (api_net errtext) (key_path addr key)"
    by (auto simp: api_net_def key_path_def plain_addr_def list_all_iff plain_char_def is_digit_def)
next
  fix w addr m key v r w'
  assume "api_contents w addr = Some m" "plain_segment key" "valid_utf8 v"
    "do_request (api_net errtext) \<lparr>gmethod = MethodPut, gurl = key_path addr key, gpayload = print_object [(''value'', v)]\<rparr> w = (r, w')"
  from api_request [OF this(1,2,4)] decode_value_object [OF this(3)]
  show "(\<exists>reply. r = Some reply \<and> StatusCode reply = 200) \<and> api_contents w' = (api_contents w)(addr \<mapsto> m(key \<mapsto> v))"
    by (auto simp: api_spec_def api_reply_def)
next
  fix w addr m key r w'
  assume c: "api_contents w addr = Some m" and "plain_segment key"
    "do_request (api_net errtext) \<lparr>gmethod = MethodGet, gurl = key_path addr key, gpayload = []\<rparr> w = (r, w')"
  from api_request [OF this] c
  show "(\<exists>reply. r = Some reply \<and> (case m key of None \<Rightarrow> StatusCode reply = 404
      | Some v \<Rightarrow> StatusCode reply = 200 \<and> decode_reply (Body reply) = Some (to_valid v, True))) \<and> api_contents w' = api_contents w"
    by (cases "m key") (auto simp: api_spec_def api_reply_def decode_key_response fun_upd_idem)
next
  fix w addr m key r w'
  assume "api_contents w addr = Some m" "plain_segment key"
    "do_request (api_net errtext) \<lparr>gmethod = MethodDelete, gurl = key_path addr key, gpayload = []\<rparr> w = (r, w')"
  from api_request [OF this]
  show "(\<exists>reply. r = Some reply \<and> StatusCode reply = 204) \<and> api_contents w' = (api_contents w)(addr \<mapsto> m(key := None))"
    by (auto simp: api_spec_def api_reply_def)
qed

text \<open>
  The map that the stores behind the first addresses of the shards hold together, and that
  every key has such a store.
\<close>

definition sharded_map :: "Router \<Rightarrow> (string \<Rightarrow> Store option) \<Rightarrow> (string \<rightharpoonup> string)" where
  "sharded_map r w key =
     (case route r key of
        Inl _ \<Rightarrow> None
      | Inr s \<Rightarrow> (case api_contents w (hd (Addrs s)) of None \<Rightarrow> None | Some m \<Rightarrow> m key))"

definition sharded_ok :: "Router \<Rightarrow> (string \<Rightarrow> Store option) \<Rightarrow> bool" where
  "sharded_ok r w \<longleftrightarrow>
     (\<forall>key. \<exists>s. route r key = Inr s \<and> Addrs s \<noteq> [] \<and> api_contents w (hd (Addrs s)) \<noteq> None)"

lemma sharded_whole: "sharded_map r w = simplekvs.whole r w" "sharded_ok r w = simplekvs.serves r w"
  by (simp_all add: sharded_map_def [abs_def] simplekvs.whole_def [abs_def] sharded_ok_def simplekvs.serves_def)

text \<open>
  C9. Sharding is invisible. With a single-node store behind the first address of every shard,
  whose writes succeed, the router, the HTTP interface and the stores together implement one
  map: a put of a valid UTF-8 value succeeds and updates the map at its key alone, a delete
  removes its key alone, and a get returns what the map holds, for every plain key.
\<close>

theorem router_refines_map:
  assumes "sharded_ok r w" and "plain_segment key"
  shows "(valid_utf8 v \<longrightarrow> (case router_Put (api_net errtext) r key v w of (res, w') \<Rightarrow>
        res = Inr None \<and> sharded_map r w' = (sharded_map r w)(key \<mapsto> v) \<and> sharded_ok r w')) \<and>
    (case router_Delete (api_net errtext) r key w of (res, w') \<Rightarrow>
        res = Inr None \<and> sharded_map r w' = (sharded_map r w)(key := None) \<and> sharded_ok r w') \<and>
    (case router_Get (api_net errtext) r key w of (res, w') \<Rightarrow>
        res = Inr (Inr (case sharded_map r w key of None \<Rightarrow> ([], False) | Some x \<Rightarrow> (to_valid x, True))) \<and>
        sharded_map r w' = sharded_map r w \<and> sharded_ok r w')"
  using simplekvs.router_put [of r w key v errtext] simplekvs.router_delete [of r w key errtext]
    simplekvs.router_get [of r w key errtext] assms
  unfolding sharded_whole by (auto split: prod.split)

theorem router_refines_map_witness:
  "fst (router_Get (api_net (\<lambda>_. [])) (NewRouter [\<lparr>ShardID = 0, Addrs = [''http://a:1'']\<rparr>] 1) ''k''
     (snd (router_Put (api_net (\<lambda>_. [])) (NewRouter [\<lparr>ShardID = 0, Addrs = [''http://a:1'']\<rparr>] 1) ''k'' ''x''
        [''http://a:1'' \<mapsto> NewStore None None]))) = Inr (Inr (''x'', True))"
proof -
  let ?r = "NewRouter [\<lparr>ShardID = 0, Addrs = [''http://a:1'']\<rparr>] 1" and ?w = "[''http://a:1'' \<mapsto> NewStore None None]"
  have "route ?r key = Inr \<lparr>ShardID = 0, Addrs = [''http://a:1'']\<rparr>" for key
    by (simp add: route_def NewRouter_def KeyToShard_pos)
  then have ok: "sharded_ok ?r ?w"
    by (simp add: sharded_ok_def api_contents_def plain_addr_def plain_char_def is_digit_def NewStore_def)
  have k: "plain_segment ''k''" "valid_utf8 ''x''"
    by (simp_all add: plain_segment_def plain_char_def valid_utf8.simps [of "[]"])
  obtain a w1 where p: "router_Put (api_net (\<lambda>_. [])) ?r ''k'' ''x'' ?w = (a, w1)"
    by (metis surj_pair)
  from router_refines_map [OF ok k(1), of "''x''" "\<lambda>_. []"] p k(2)
  have w1: "sharded_ok ?r w1" "sharded_map ?r w1 ''k'' = Some ''x''"
    by auto
  from router_refines_map [OF w1(1) k(1), of "''x''" "\<lambda>_. []"] w1(2) p to_valid_id [OF k(2)]
  show ?thesis by (auto split: prod.splits)
qed

end
