(* ===== verification/Raft_Server.thy ===== *)
theory Raft_Server
  imports Raft_Election_Safety Shard_Router
begin

text \<open>
  The HTTP server of a Raft node, \<^verbatim>\<open>rpc/server.go\<close>: the status and metrics pages, reads from the
  local store, and writes that go through the replicated log. A handler is not one atomic step:
  between two of its locked sections other goroutines run. The routing and the body binding of
  the gin package are outside: a handler gets the key, and the result of \<^verbatim>\<open>ShouldBindJSON\<close> is an
  argument (\<^const>\<open>Inl\<close> the text of its error).
\<close>

subsection \<open>The machine around a handler\<close>

text \<open>
  The cluster, the store of every node, how many commands each apply loop has taken from its
  channel, and what the scheduler will do: a burst of turns for every point where a handler
  can be interrupted. A turn is an action of the cluster or one round of the apply loop of a
  node, with the outcomes of its file operations; a turn that is not enabled does nothing.
  The map of a node's store is never nil (\<^verbatim>\<open>NewStoreFromDisk\<close>), so no round panics.
\<close>

datatype turn =
    Turn action
  | Consume string write_outcome save_outcome

record host =
  members :: "string list"
  cl :: cluster
  stores :: "string \<Rightarrow> Store"
  taken :: "string \<Rightarrow> nat"
  sched :: "turn list list"

definition channel :: "Node \<Rightarrow> string list" where
  "channel n = (case applyCh n of None \<Rightarrow> [] | Some cs \<Rightarrow> cs)"

text \<open>A goroutine that still has to do the task \<open>t\<close> itself does not lose it to another turn.\<close>

definition holds_task :: "task option \<Rightarrow> cluster \<Rightarrow> bool" where
  "holds_task own c = (case own of None \<Rightarrow> True | Some t \<Rightarrow> t \<in> set (tasks c))"

definition run_turn :: "task option \<Rightarrow> turn \<Rightarrow> host \<Rightarrow> host" where
  "run_turn own x h =
     (case x of
        Turn a \<Rightarrow>
          (if members_only (members h) [a] then
             (case exec a (cl h) of
                None \<Rightarrow> h
              | Some c \<Rightarrow> if holds_task own c then h\<lparr>cl := c\<rparr> else h)
           else h)
      | Consume i wo so \<Rightarrow>
          (case drop (taken h i) (channel (node (cl h) i)) of
             [] \<Rightarrow> h
           | cmd # _ \<Rightarrow>
               h\<lparr>stores := (stores h)(i := snd (RunApplyLoop [(wo, so, cmd)] (stores h i))),
                 taken := (taken h)(i := taken h i + 1)\<rparr>))"

definition yield :: "task option \<Rightarrow> host \<Rightarrow> host" where
  "yield own h =
     (case sched h of
        [] \<Rightarrow> h
      | burst # rest \<Rightarrow> fold (run_turn own) burst (h\<lparr>sched := rest\<rparr>))"

definition perform :: "action \<Rightarrow> host \<Rightarrow> host" where
  "perform a h = (case exec a (cl h) of None \<Rightarrow> h | Some c \<Rightarrow> h\<lparr>cl := c\<rparr>)"

subsection \<open>Pages\<close>

text \<open>
  \<^verbatim>\<open>gin.H\<close> is a map, so the encoder writes its members in the order of their names; the calls
  that compute them run in the order of the source, each on its own.
\<close>

definition num :: "int \<Rightarrow> gojson" where
  "num i = GNum (if i < 0 then CHR ''-'' # itoa (nat (- i)) else itoa (nat i))"

definition server_handleHealth :: go_response where
  "server_handleHealth = writeJSON 200 (GObj [(''status'', GStr ''ok'')])"

definition handleStatus :: "string \<Rightarrow> host \<Rightarrow> go_response \<times> host" where
  "handleStatus i h =
     (let ident = nid (node (cl h) i);
          state = NodeState_String (nstate (node (cl h) i)); h = yield None h;
          isLeader = IsLeader (node (cl h) i); h = yield None h;
          leaderID = LeaderID (node (cl h) i); h = yield None h;
          term = currentTerm (node (cl h) i)
      in (writeJSON 200 (GObj [(''isLeader'', GBool isLeader), (''leaderID'', GStr leaderID), (''nodeID'', GStr ident),
            (''state'', GStr state), (''term'', num (uint term))]), h))"

definition handleMetrics :: "string \<Rightarrow> host \<Rightarrow> go_response \<times> host" where
  "handleMetrics i h =
     (let m = Metrics (node (cl h) i); ident = nid (node (cl h) i); h = yield None h;
          state = NodeState_String (nstate (node (cl h) i)); h = yield None h;
          term = currentTerm (node (cl h) i)
      in (writeJSON 200 (GObj [(''currentLeaderID'', GStr (CurrentLeaderID m)),
            (''electionsStarted'', num (ElectionsStarted m)), (''heartbeatsRecvd'', num (HeartbeatsRecvd m)),
            (''heartbeatsSent'', num (HeartbeatsSent m)), (''nodeID'', GStr ident), (''state'', GStr state),
            (''term'', num (uint term)), (''votesGranted'', num (VotesGranted m))]), h))"

subsection \<open>Remote procedure calls\<close>

definition server_handleRequestVote ::
    "string + RequestVoteArgs \<Rightarrow> Node \<Rightarrow> (go_response + RequestVoteReply) \<times> Node" where
  "server_handleRequestVote bound n =
     (case bound of
        Inl err \<Rightarrow> (Inl (writeError 400 err), n)
      | Inr args \<Rightarrow> (let (reply, n) = HandleRequestVote args n in (Inr reply, n)))"

definition server_handleAppendEntries ::
    "string + AppendEntriesArgs \<Rightarrow> Node \<Rightarrow> (go_response + AppendEntriesReply) \<times> Node \<times> bool" where
  "server_handleAppendEntries bound n =
     (case bound of
        Inl err \<Rightarrow> (Inl (writeError 400 err), n, False)
      | Inr args \<Rightarrow> (let (reply, n, go) = HandleAppendEntries args n in (Inr reply, n, go)))"

subsection \<open>The rest of Replicate\<close>

text \<open>
  The error of a node that is not the leader names the leader it knows. A node that is being
  stopped is not modelled: the process ends with its server.
\<close>

datatype replicate_error = ErrNotLeader string | ErrReplicationTimeout

definition replicate_text :: "replicate_error \<Rightarrow> string" where
  "replicate_text e =
     (case e of
        ErrNotLeader l \<Rightarrow> ''not the leader: try '' @ l
      | ErrReplicationTimeout \<Rightarrow> ''replication timed out: no majority'')"

text \<open>The next value in the channel of acknowledgements: they arrive in the order the goroutines finish.\<close>

fun next_ack :: "string \<Rightarrow> LogEntry \<Rightarrow> string list \<Rightarrow> task list \<Rightarrow> (string \<times> bool) option" where
  "next_ack i e waiting [] = None"
| "next_ack i e waiting (t # ts) =
     (case t of
        RepDone j p e' ok \<Rightarrow>
          if j = i \<and> e' = e \<and> p \<in> set waiting then Some (p, ok) else next_ack i e waiting ts
      | _ \<Rightarrow> next_ack i e waiting ts)"

text \<open>The caller's own \<^verbatim>\<open>applyCommitted\<close>: one locked section, then one send after the other.\<close>

fun send_commands :: "string \<Rightarrow> string list \<Rightarrow> host \<Rightarrow> host" where
  "send_commands i [] h = perform (SendCommand i []) h"
| "send_commands i (cmd # cmds) h =
     send_commands i cmds (perform (SendCommand i (cmd # cmds)) (yield (Some (ApplySend i (cmd # cmds))) h))"

definition caller_applies :: "string \<Rightarrow> host \<Rightarrow> host" where
  "caller_applies i h =
     (let h = yield (Some (ApplyStart i)) h
      in send_commands i (fst (applyCommitted (node (cl h) i))) (perform (ApplyNext i) h))"

text \<open>
  The loop over the peers. While it waits the others run; when the burst ends without a value in
  the channel, the timer of two seconds fires.
\<close>

fun collect_acks ::
    "string \<Rightarrow> LogEntry \<Rightarrow> nat \<Rightarrow> string list \<Rightarrow> nat \<Rightarrow> host \<Rightarrow> replicate_error option \<times> host" where
  "collect_acks i e acks waiting 0 h = (Some ErrReplicationTimeout, perform (ClientTimeout i e acks waiting) h)"
| "collect_acks i e acks waiting (Suc n) h =
     (let h = yield (Some (Client i e acks waiting)) h
      in case next_ack i e waiting (tasks (cl h)) of
           None \<Rightarrow> (Some ErrReplicationTimeout, perform (ClientTimeout i e acks waiting) h)
         | Some (p, ok) \<Rightarrow>
             (let h' = perform (TakeAck i e acks waiting p ok) h
              in if ok \<and> majority (node (cl h) i) \<le> acks + 1 then (None, caller_applies i h')
                 else collect_acks i e (if ok then acks + 1 else acks) (remove1 p waiting) n h'))"

text \<open>\<^const>\<open>Replicate\<close> is enabled exactly on a leader, as long as the index space is not used up.\<close>

definition call_Replicate :: "string \<Rightarrow> string \<Rightarrow> host \<Rightarrow> replicate_error option \<times> host" where
  "call_Replicate i command h =
     (case exec (Replicate i command) (cl h) of
        None \<Rightarrow> (Some (ErrNotLeader (LeaderID (node (cl h) i))), h)
      | Some c \<Rightarrow>
          (let ps = peers (node (cl h) i)
           in collect_acks i (last (nlog (node c i))) 1 ps (length ps) (h\<lparr>cl := c\<rparr>)))"

subsection \<open>Keys\<close>

definition handleGet :: "string \<Rightarrow> string \<Rightarrow> host \<Rightarrow> go_response" where
  "handleGet i key h =
     (case Get key (stores h i) of
        Inl _ \<Rightarrow> writeError 400 ''key cannot be empty''
      | Inr (v, found) \<Rightarrow>
          if \<not> found then writeError 404 ''key not found''
          else writeJSON 200 (GObj [(''found'', GBool True), (''key'', GStr key), (''value'', GStr v)]))"

text \<open>The leader is looked up after the test of the state.\<close>

definition refuse :: "string \<Rightarrow> host \<Rightarrow> go_response \<times> host" where
  "refuse i h =
     (let h = yield None h
      in (writeJSON 503 (GObj [(''error'', GStr ''not the leader''), (''leaderID'', GStr (LeaderID (node (cl h) i)))]), h))"

definition handlePut :: "string \<Rightarrow> string \<Rightarrow> string + string \<Rightarrow> host \<Rightarrow> go_response \<times> host" where
  "handlePut i key bound h =
     (if \<not> IsLeader (node (cl h) i) then refuse i h
      else case bound of
             Inl _ \<Rightarrow> (writeError 400 ''invalid request body'', h)
           | Inr v \<Rightarrow>
               (case call_Replicate i (marshal_entry \<lparr>Op = OpUpsert, Key = key, Value = v\<rparr>) (yield None h) of
                  (Some err, h) \<Rightarrow> (writeError 503 (replicate_text err), h)
                | (None, h) \<Rightarrow> (writeJSON 200 (GObj [(''key'', GStr key), (''value'', GStr v)]), h)))"

definition handleDelete :: "string \<Rightarrow> string \<Rightarrow> host \<Rightarrow> go_response \<times> host" where
  "handleDelete i key h =
     (if \<not> IsLeader (node (cl h) i) then refuse i h
      else case call_Replicate i (marshal_entry \<lparr>Op = OpDelete, Key = key, Value = []\<rparr>) (yield None h) of
             (Some err, h) \<Rightarrow> (writeError 503 (replicate_text err), h)
           | (None, h) \<Rightarrow> (\<lparr>gstatus = 204, gbody = None\<rparr>, h))"

subsection \<open>Handlers are runs of the cluster\<close>

definition host_ok :: "host \<Rightarrow> bool" where
  "host_ok h \<longleftrightarrow> reachable (members h) (cl h)"

definition later :: "host \<Rightarrow> host \<Rightarrow> bool" where
  "later h h' \<longleftrightarrow> members h' = members h \<and> (host_ok h \<longrightarrow> host_ok h') \<and>
     (\<forall>j. currentTerm (node (cl h) j) \<le> currentTerm (node (cl h') j)) \<and>
     set (elected (cl h)) \<subseteq> set (elected (cl h'))"

lemma later_refl [simp]: "later h h"
  by (simp add: later_def)

lemma later_trans:
  assumes "later a b" "later b c"
  shows "later a c"
  unfolding later_def
proof (intro conjI allI)
  fix j
  show "currentTerm (node (cl a) j) \<le> currentTerm (node (cl c) j)"
    by (rule order.trans [of _ "currentTerm (node (cl b) j)"]) (use assms in \<open>simp_all add: later_def\<close>)
  show "set (elected (cl a)) \<subseteq> set (elected (cl c))"
    by (rule order.trans [of _ "set (elected (cl b))"]) (use assms in \<open>simp_all add: later_def\<close>)
qed (use assms in \<open>simp_all add: later_def\<close>)

lemma later_sched [simp]: "later (h\<lparr>sched := x\<rparr>) h' = later h h'" "later h (h\<lparr>sched := x\<rparr>)"
  "later h (h\<lparr>stores := y, taken := z\<rparr>)"
  by (simp_all add: later_def host_ok_def)

lemma later_exec:
  assumes "exec a (cl h) = Some c" "\<forall>i. actor a = Some i \<longrightarrow> i \<in> set (members h)"
  shows "later h (h\<lparr>cl := c\<rparr>)"
  unfolding later_def host_ok_def
  using exec_forward [OF assms(1)] reachable.step [OF _ assms(2,1)] by simp

lemma later_run_turn: "later h (run_turn own x h)"
proof (cases x)
  case (Turn a)
  then show ?thesis
    by (auto simp: run_turn_def intro!: later_exec simp del: exec.simps split: option.split)
qed (simp add: run_turn_def split: list.split)

lemma later_fold: "later h (fold (run_turn own) burst h)"
  by (induction burst arbitrary: h) (simp_all, rule later_trans [OF later_run_turn])

lemma later_yield: "later h (yield own h)"
proof (cases "sched h")
  case (Cons burst rest)
  then show ?thesis
    using later_fold [of "h\<lparr>sched := rest\<rparr>" own burst] by (simp add: yield_def)
qed (simp add: yield_def)

lemma later_perform: "actor a = None \<Longrightarrow> later h (perform a h)"
  by (auto simp: perform_def intro!: later_exec simp del: exec.simps split: option.split)

lemma later_send_commands: "later h (send_commands i cmds h)"
proof (induction cmds arbitrary: h)
  case Nil
  then show ?case by (simp add: later_perform)
next
  case (Cons cmd cmds)
  have "later h (perform (SendCommand i (cmd # cmds)) (yield (Some (ApplySend i (cmd # cmds))) h))"
    by (rule later_trans [OF later_yield later_perform]) simp
  from later_trans [OF this Cons] show ?case
    by simp
qed

lemma later_caller_applies: "later h (caller_applies i h)"
  unfolding caller_applies_def Let_def
  by (rule later_trans [OF later_yield later_trans [OF later_perform later_send_commands]]) simp

lemma later_collect_acks: "later h (snd (collect_acks i e acks waiting n h))"
proof (induction n arbitrary: acks waiting h)
  case 0
  then show ?case by (simp add: later_perform)
next
  case (Suc n)
  let ?h = "yield (Some (Client i e acks waiting)) h"
  have y: "later h ?h"
    by (rule later_yield)
  have p: "later h (perform a ?h)" if "actor a = None" for a
    by (rule later_trans [OF y later_perform [OF that]])
  show ?case
  proof (cases "next_ack i e waiting (tasks (cl ?h))")
    case None
    then show ?thesis by (simp add: Let_def p)
  next
    case (Some x)
    obtain q ok where x: "x = (q, ok)"
      by fastforce
    have t: "later h (perform (TakeAck i e acks waiting q ok) ?h)"
      by (rule p) simp
    show ?thesis
      using later_trans [OF t later_caller_applies [of _ i]] later_trans [OF t Suc]
      by (cases ok) (simp_all add: Let_def Some x)
  qed
qed

lemma later_call_Replicate:
  assumes "i \<in> set (members h)"
  shows "later h (snd (call_Replicate i command h))"
proof (cases "exec (Replicate i command) (cl h)")
  case (Some c)
  have "later h (h\<lparr>cl := c\<rparr>)"
    by (rule later_exec [OF Some]) (use assms in simp)
  from later_trans [OF this later_collect_acks] Some show ?thesis
    by (simp add: call_Replicate_def Let_def del: exec.simps)
qed (simp add: call_Replicate_def del: exec.simps)

lemma yield_members [simp]: "members (yield own h) = members h"
  using later_yield [of h own] by (simp add: later_def)

lemma later_refuse: "later h (snd (refuse i h))"
  by (simp add: refuse_def Let_def later_yield)

lemma later_handlers:
  assumes "i \<in> set (members h)"
  shows "later h (snd (handlePut i key bound h))" "later h (snd (handleDelete i key h))"
    "later h (snd (handleStatus i h))" "later h (snd (handleMetrics i h))"
proof -
  have call: "later h (snd (call_Replicate i command (yield None h)))" for command
    by (rule later_trans [OF later_yield later_call_Replicate]) (use assms in simp)
  have put: "later h (snd (case call_Replicate i command (yield None h) of
      (Some err, h) \<Rightarrow> (f err, h) | (None, h) \<Rightarrow> (r, h)))" for command f and r :: go_response
    using call [of command] by (auto split: prod.split option.split)
  show "later h (snd (handlePut i key bound h))" "later h (snd (handleDelete i key h))"
    by (auto simp: handlePut_def handleDelete_def later_refuse put split: sum.split)
  show "later h (snd (handleStatus i h))" "later h (snd (handleMetrics i h))"
    using later_trans [OF later_yield later_yield] later_trans [OF later_yield later_trans [OF later_yield later_yield]]
    by (simp_all add: handleStatus_def handleMetrics_def Let_def)
qed

subsection \<open>What the status page says\<close>

definition status_page :: "bool \<Rightarrow> string \<Rightarrow> string \<Rightarrow> string \<Rightarrow> uint64 \<Rightarrow> go_response" where
  "status_page lead l x s t =
     writeJSON 200 (GObj [(''isLeader'', GBool lead), (''leaderID'', GStr l), (''nodeID'', GStr x),
       (''state'', GStr s), (''term'', num (uint t))])"

lemma leader_elected:
  assumes "reachable ms c" "distinct ms" "[] \<notin> set ms" "IsLeader (node c i)"
  shows "(currentTerm (node c i), i) \<in> set (elected c)"
  using reachable_voting [OF assms(1-3)] assms(4) by (simp add: voting_inv_def elected_inv_def IsLeader_def)

lemma decimal_itoa: "decimal (itoa n) = int n"
proof (induction n rule: nat_digits.induct)
  case (1 n)
  have d: "int (code (char_of (48 + m)) - 48) = int m" if "m < 10" for m :: nat
    using that by simp
  show ?case
  proof (cases "n < 10")
    case True
    then show ?thesis
      by (subst itoa_def, subst nat_digits.simps) (simp add: decimal_def d)
  next
    case False
    then have "itoa n = itoa (n div 10) @ [char_of (48 + n mod 10)]"
      by (subst itoa_def, subst nat_digits.simps) (simp add: itoa_def)
    moreover have "10 * int (n div 10) + int (n mod 10) = int n"
      by presburger
    ultimately show ?thesis
      using 1 False by (simp add: decimal_def d)
  qed
qed

lemma num_uint_inject: "num (uint t) = num (uint t') \<Longrightarrow> t = t'"
  using decimal_itoa [of "nat (uint t)"] decimal_itoa [of "nat (uint t')"] by (simp add: num_def word_uint_eq_iff)

text \<open>
  C11. A status page that says \<^verbatim>\<open>isLeader\<close> comes from a node that has been elected, in the term on
  the page or in an earlier one; in the term on the page when no other goroutine runs while the
  page is made. This holds in every reachable cluster and for every schedule.
\<close>

theorem status_leader_was_elected:
  assumes "reachable (members h) (cl h)" and "distinct (members h)" and "[] \<notin> set (members h)"
    and "handleStatus i h = (status_page True l x s t, h')"
  shows "\<exists>t'. t' \<le> t \<and> (t', i) \<in> set (elected (cl h')) \<and> (sched h = [] \<longrightarrow> t' = t)"
proof -
  let ?h1 = "yield None h"
  let ?h2 = "yield None ?h1"
  let ?h3 = "yield None ?h2"
  let ?t = "currentTerm (node (cl ?h1) i)"
  have page: "IsLeader (node (cl ?h1) i)" "num (uint (currentTerm (node (cl ?h3) i))) = num (uint t)" "h' = ?h3"
    using assms(4) by (auto simp: handleStatus_def status_page_def writeJSON_def Let_def)
  have l: "later h ?h1" "later ?h1 ?h3"
    using later_yield later_trans [OF later_yield later_yield] by blast+
  have "reachable (members h) (cl ?h1)"
    using l(1) assms(1) by (simp add: later_def host_ok_def)
  from leader_elected [OF this assms(2,3) page(1)] have "(?t, i) \<in> set (elected (cl h'))"
    using l(2) page(3) by (auto simp: later_def)
  moreover have "?t \<le> t"
    using l(2) num_uint_inject [OF page(2)] by (auto simp: later_def)
  moreover have "?t = t" if "sched h = []"
    using that num_uint_inject [OF page(2)] by (simp add: yield_def)
  ultimately show ?thesis
    by blast
qed



text \<open>A burst that executes a run of the cluster.\<close>

lemma run_turns:
  "\<lbrakk>run_actions as (cl h) = Some c; members_only (members h) as\<rbrakk> \<Longrightarrow>
     fold (run_turn None) (map Turn as) h = h\<lparr>cl := c\<rparr>"
proof (induction "as" arbitrary: h)
  case Nil
  then show ?case by simp
next
  case (Cons a "as")
  then obtain c1 where "exec a (cl h) = Some c1" "run_actions as c1 = Some c"
    by (auto split: option.splits simp del: exec.simps)
  with Cons.IH [of "h\<lparr>cl := c1\<rparr>"] Cons.prems(2) show ?case
    by (simp add: run_turn_def holds_task_def del: exec.simps)
qed

definition succession :: "action list" where
  "succession = elect_with ''B'' ''C'' 2 0 0 @
     [Top ''B'', HbSend ''B'' ''A'', Deliver (AppReq ''A'' (append_request 2 ''B'' [] 0))]"

definition host_at :: "cluster \<Rightarrow> turn list list \<Rightarrow> host" where
  "host_at c bursts = \<lparr>members = members3, cl = c, stores = (\<lambda>_. NewStore None None), taken = (\<lambda>_. 0), sched = bursts\<rparr>"

lemma cl_host_at [simp]: "cl (host_at c bursts) = c" "members (host_at c bursts) = members3" "sched (host_at c bursts) = bursts"
  by (simp_all add: host_at_def)

lemma succession_run:
  "\<exists>c. run_actions (elect_with ''A'' ''B'' 1 0 0) (init_cluster members3) = Some c \<and>
     (\<exists>c'. run_actions succession c = Some c' \<and> nid (node c ''A'') = ''A'' \<and> nstate (node c ''A'') = Leader \<and>
       LeaderID (node c' ''A'') = ''B'' \<and> currentTerm (node c' ''A'') = 2 \<and> nid (node c' ''B'') = ''B'' \<and>
       nstate (node c' ''B'') = Leader \<and> LeaderID (node c' ''B'') = ''B'' \<and> currentTerm (node c' ''B'') = 2)"
  by (simp add: run_simps succession_def LeaderID_def)

text \<open>
  C12. The status page is not a snapshot: its fields are read one after the other. In a cluster of
  three nodes A leads in term 1; while A makes its page, B is elected in term 2 and its heartbeat
  reaches A. The page of A then says that A leads in term 2, under the leader B, and the page of B
  says that B leads in term 2: two nodes report leadership of the same term.
\<close>

theorem status_page_mixes_terms:
  "\<exists>c h h'. reachable members3 c \<and>
     handleStatus ''A'' (host_at c [[], map Turn succession]) = (status_page True ''B'' ''A'' ''Leader'' 2, h) \<and>
     handleStatus ''B'' h = (status_page True ''B'' ''B'' ''Leader'' 2, h')"
proof -
  obtain c c' where c: "reachable members3 c" "run_actions succession c = Some c'"
      "nid (node c ''A'') = ''A''" "nstate (node c ''A'') = Leader"
      "LeaderID (node c' ''A'') = ''B''" "currentTerm (node c' ''A'') = 2" "nid (node c' ''B'') = ''B''"
      "nstate (node c' ''B'') = Leader" "LeaderID (node c' ''B'') = ''B''" "currentTerm (node c' ''B'') = 2"
    using run_reaches [OF succession_run] by (auto simp: run_defs members3_def)
  have "fold (run_turn None) (map Turn succession) (host_at c []) = host_at c' []"
    using run_turns [of succession "host_at c []" c'] c(2) by (simp add: host_at_def succession_def run_defs members3_def)
  then have y: "yield None (host_at c [[], map Turn succession]) = host_at c [map Turn succession]"
      "yield None (host_at c [map Turn succession]) = host_at c' []" "yield None (host_at c' []) = host_at c' []"
    by (simp_all add: yield_def host_at_def)
  have "handleStatus ''A'' (host_at c [[], map Turn succession]) = (status_page True ''B'' ''A'' ''Leader'' 2, host_at c' [])"
    using c by (simp add: handleStatus_def y Let_def status_page_def NodeState_String_def IsLeader_def)
  moreover have "handleStatus ''B'' (host_at c' []) = (status_page True ''B'' ''B'' ''Leader'' 2, host_at c' [])"
    using c by (simp add: handleStatus_def y Let_def status_page_def NodeState_String_def IsLeader_def)
  ultimately show ?thesis
    using c(1) by blast
qed

theorem status_leader_was_elected_witness:
  "\<exists>c l t h' t'. reachable members3 c \<and>
     handleStatus ''A'' (host_at c []) = (status_page True l ''A'' ''Leader'' t, h') \<and> (t', ''A'') \<in> set (elected (cl h')) \<and> t' = t"
proof -
  obtain c where c: "reachable members3 c" "nstate (node c ''A'') = Leader" "nid (node c ''A'') = ''A''"
    using run_reaches [OF succession_run] by (auto simp: run_defs members3_def)
  have "handleStatus ''A'' (host_at c []) =
      (status_page True (LeaderID (node c ''A'')) ''A'' ''Leader'' (currentTerm (node c ''A'')), host_at c [])"
    using c by (simp add: handleStatus_def yield_def Let_def status_page_def NodeState_String_def IsLeader_def)
  with status_leader_was_elected [OF _ _ _ this] c(1) members3_ok show ?thesis
    by (intro exI [of _ c]) auto
qed

subsection \<open>Acknowledged writes\<close>

lemma next_ack_Some:
  "next_ack i e waiting ts = Some (p, ok) \<Longrightarrow> RepDone i p e ok \<in> set ts \<and> p \<in> set waiting"
  by (induction ts) (auto split: task.splits if_splits)

lemma yield_holds:
  assumes "t \<in> set (tasks (cl h))"
  shows "t \<in> set (tasks (cl (yield (Some t) h)))"
proof -
  have "t \<in> set (tasks (cl (run_turn (Some t) x g)))" if "t \<in> set (tasks (cl g))" for x g
    using that by (auto simp: run_turn_def holds_task_def simp del: exec.simps split: turn.split option.split list.split)
  then have "t \<in> set (tasks (cl (fold (run_turn (Some t)) burst g)))" if "t \<in> set (tasks (cl g))" for burst g
    using that by (induction burst arbitrary: g) simp_all
  with assms show ?thesis
    by (simp add: yield_def split: list.split)
qed

text \<open>
  The caller of \<^verbatim>\<open>Replicate\<close> took, in a reachable state, the acknowledgement that completed a
  majority for its entry, and the commit index covers the entry then.
\<close>

definition completed :: "string list \<Rightarrow> string \<Rightarrow> LogEntry \<Rightarrow> bool" where
  "completed ms i e \<longleftrightarrow> (\<exists>c c' acks waiting p. reachable ms c \<and> exec (TakeAck i e acks waiting p True) c = Some c' \<and>
     majority (node c i) \<le> acks + 1 \<and> Index e \<le> commitIndex (node c' i))"

lemma collect_acks_completed:
  assumes "host_ok h" "Client i e acks waiting \<in> set (tasks (cl h))" "fst (collect_acks i e acks waiting n h) = None"
  shows "completed (members h) i e"
  using assms
proof (induction n arbitrary: acks waiting h)
  case 0
  then show ?case by simp
next
  case (Suc n)
  define g where "g = yield (Some (Client i e acks waiting)) h"
  have g: "host_ok g" "members g = members h" "Client i e acks waiting \<in> set (tasks (cl g))"
    using Suc.prems(1,2) later_yield [of h "Some (Client i e acks waiting)"] by (auto simp: g_def later_def yield_holds)
  obtain p ok where a: "next_ack i e waiting (tasks (cl g)) = Some (p, ok)"
    using Suc.prems(3) by (auto simp: g_def [symmetric] Let_def split: option.splits)
  define ts where "ts = remove1 (Client i e acks waiting) (remove1 (RepDone i p e ok) (tasks (cl g)))"
  have ex: "exec (TakeAck i e acks waiting p ok) (cl g) =
      (if ok \<and> majority (node (cl g) i) \<le> acks + 1
       then Some ((set_node i (replicateCommit e (node (cl g) i)) (cl g))\<lparr>tasks := ts @ [ApplyStart i]\<rparr>)
       else Some ((cl g)\<lparr>tasks := ts @ [Client i e (if ok then acks + 1 else acks) (remove1 p waiting)]\<rparr>))"
    using next_ack_Some [OF a] g(3) by (simp add: act_ack_def ts_def Let_def)
  show ?case
  proof (cases "ok \<and> majority (node (cl g) i) \<le> acks + 1")
    case True
    then have "exec (TakeAck i e acks waiting p True) (cl g) \<noteq> None"
      using ex by auto
    with True ex g show ?thesis
      unfolding completed_def
      by (intro exI [of _ "cl g"] exI [of _ "(set_node i (replicateCommit e (node (cl g) i)) (cl g))\<lparr>tasks := ts @ [ApplyStart i]\<rparr>"]
          exI [of _ acks] exI [of _ waiting] exI [of _ p])
        (auto simp: host_ok_def set_node_def replicateCommit_def simp del: exec.simps)
  next
    case False
    define g' where "g' = perform (TakeAck i e acks waiting p ok) g"
    have "host_ok g'" "members g' = members g"
      using later_perform [of "TakeAck i e acks waiting p ok" g] g(1) by (simp_all add: g'_def later_def)
    moreover have "Client i e (if ok then acks + 1 else acks) (remove1 p waiting) \<in> set (tasks (cl g'))"
      using ex False by (simp add: g'_def perform_def del: exec.simps)
    moreover have "fst (collect_acks i e (if ok then acks + 1 else acks) (remove1 p waiting) n g') = None"
      using Suc.prems(3) a False by (simp add: g_def [symmetric] g'_def Let_def split: if_splits)
    ultimately show ?thesis
      using Suc.IH [of g'] g(2) by metis
  qed
qed

lemma call_Replicate_completed:
  assumes "host_ok h" "i \<in> set (members h)" "fst (call_Replicate i command h) = None"
  shows "\<exists>e. completed (members h) i e \<and> Command e = command"
proof -
  obtain c where c: "exec (Replicate i command) (cl h) = Some c"
    using assms(3) by (auto simp: call_Replicate_def simp del: exec.simps split: option.splits)
  define e where "e = last (nlog (node c i))"
  define g where "g = h\<lparr>cl := c\<rparr>"
  have g: "host_ok g" "members g = members h"
    using later_exec [OF c] assms(1,2) by (auto simp: g_def later_def)
  have cl: "Client i e 1 (peers (node (cl h) i)) \<in> set (tasks (cl g))" and cmd: "Command e = command"
    using c by (auto simp: act_replicate_def replicateStart_def Let_def set_node_def e_def g_def appendEntry_def split: if_splits)
  have "fst (collect_acks i e 1 (peers (node (cl h) i)) (length (peers (node (cl h) i))) g) = None"
    using assms(3) c by (simp add: call_Replicate_def e_def g_def Let_def del: exec.simps)
  from collect_acks_completed [OF g(1) cl this] g(2) cmd show ?thesis
    by auto
qed


text \<open>A burst around a goroutine that keeps its task, for the witness.\<close>

fun run_held :: "task \<Rightarrow> action list \<Rightarrow> cluster \<Rightarrow> cluster option" where
  "run_held own [] c = Some c"
| "run_held own (a # as) c =
     (case exec a c of None \<Rightarrow> None | Some c' \<Rightarrow> if own \<in> set (tasks c') then run_held own as c' else None)"

lemma run_turns_held:
  "\<lbrakk>run_held own as (cl h) = Some c; members_only (members h) as\<rbrakk> \<Longrightarrow>
     fold (run_turn (Some own)) (map Turn as) h = h\<lparr>cl := c\<rparr>"
proof (induction "as" arbitrary: h)
  case Nil
  then show ?case by simp
next
  case (Cons a "as")
  then obtain c1 where "exec a (cl h) = Some c1" "own \<in> set (tasks c1)" "run_held own as c1 = Some c"
    by (auto split: option.splits if_splits simp del: exec.simps)
  with Cons.IH [of "h\<lparr>cl := c1\<rparr>"] Cons.prems(2) show ?case
    by (simp add: run_turn_def holds_task_def del: exec.simps)
qed

definition ack_actions :: "string \<Rightarrow> action list" where
  "ack_actions cmd =
     (let e = mk_entry 1 1 cmd; args = append_request 1 ''A'' [e] 0
      in [RepSend ''A'' ''B'' e 1 0, Deliver (AppReq ''B'' args), RepReply ''A'' ''B'' e 1 0 args (append_ok 1)])"

lemma ack_run:
  "\<exists>c. run_actions (elect_with ''A'' ''B'' 1 0 0) (init_cluster members3) = Some c \<and>
     (\<exists>c1. exec (Replicate ''A'' cmd) c = Some c1 \<and>
       (\<exists>c2. run_held (Client ''A'' (mk_entry 1 1 cmd) 1 [''B'', ''C'']) (ack_actions cmd) c1 = Some c2 \<and>
         nstate (node c ''A'') = Leader \<and> peers (node c ''A'') = [''B'', ''C''] \<and> last (nlog (node c1 ''A'')) = mk_entry 1 1 cmd \<and>
         next_ack ''A'' (mk_entry 1 1 cmd) [''B'', ''C''] (tasks c2) = Some (''B'', True) \<and> majority (node c2 ''A'') = 2))"
  by (simp add: run_simps ack_actions_def)

lemma call_Replicate_None:
  assumes "exec (Replicate ''A'' cmd) c = Some c1" "last (nlog (node c1 ''A'')) = mk_entry 1 1 cmd"
    "peers (node c ''A'') = [''B'', ''C'']"
    "run_held (Client ''A'' (mk_entry 1 1 cmd) 1 [''B'', ''C'']) (ack_actions cmd) c1 = Some c2"
    "next_ack ''A'' (mk_entry 1 1 cmd) [''B'', ''C''] (tasks c2) = Some (''B'', True)" "majority (node c2 ''A'') = 2"
  shows "fst (call_Replicate ''A'' cmd (host_at c [map Turn (ack_actions cmd)])) = None"
proof -
  have "members_only members3 (ack_actions cmd)"
    by (simp add: ack_actions_def Let_def)
  with run_turns_held [of _ _ "host_at c1 []"] assms(4)
  have "yield (Some (Client ''A'' (mk_entry 1 1 cmd) 1 [''B'', ''C''])) (host_at c1 [map Turn (ack_actions cmd)]) = host_at c2 []"
    by (simp add: yield_def host_at_def)
  moreover have "(host_at c [map Turn (ack_actions cmd)])\<lparr>cl := c1\<rparr> = host_at c1 [map Turn (ack_actions cmd)]"
    by (simp add: host_at_def)
  ultimately show ?thesis
    using assms(1,2,3,5,6) by (simp add: call_Replicate_def Let_def numeral_2_eq_2 del: exec.simps)
qed

lemma put_run:
  "\<exists>c. reachable members3 c \<and> nstate (node c ''A'') = Leader \<and>
     fst (call_Replicate ''A'' cmd (host_at c [map Turn (ack_actions cmd)])) = None"
proof -
  have "members_only members3 (elect_with ''A'' ''B'' 1 0 0)"
    by (simp add: run_defs members3_def)
  from run_reaches [OF ack_run this] show ?thesis
    using call_Replicate_None by blast
qed


end
