(* ===== verification/Client_World.thy ===== *)
theory Client_World
  imports Raft_Server Raft_Scenarios Geo_Experiment Election_Experiment
begin

text \<open>
  The measurement scripts against the servers they measure. The world of the scripts is a Raft
  cluster behind the handlers of \<^verbatim>\<open>rpc/server.go\<close>, with a clock, the addresses of the nodes, the
  machines they run on and which of them are stopped. It keeps the contracts of
  \<^verbatim>\<open>Client_IO\<close> and \<^verbatim>\<open>Election_Experiment\<close>, so the scripts' guarantees hold of it; the properties
  state them for every world that keeps the contracts.
\<close>

subsection \<open>Requests and answers\<close>

function decode_text :: "string \<Rightarrow> pystr" where
  "decode_text s =
     (case s of
        [] \<Rightarrow> []
      | c # r \<Rightarrow>
          if rune_len s \<le> 1 then (if rune_len s = 1 then code c else 0xFFFD) # decode_text r
          else foldl (\<lambda>a b. 64 * a + (code b - 0x80)) (code c mod 2 ^ (7 - rune_len s)) (take (rune_len s - 1) r) #
               decode_text (drop (rune_len s - 1) r))"
  by pat_completeness auto
termination
  by (relation "measure length") auto

declare decode_text.simps [simp del]

fun to_python :: "gojson \<Rightarrow> json" where
  "to_python GNull = JNull"
| "to_python (GBool b) = JBool b"
| "to_python (GNum s) = JInt (case atoi s of None \<Rightarrow> 0 | Some i \<Rightarrow> i)"
| "to_python (GStr s) = JStr (decode_text s)"
| "to_python (GArr xs) = JList (map to_python xs)"
| "to_python (GObj ms) = JObj (map (\<lambda>(k, x). (decode_text k, to_python x)) ms)"

definition answer :: "go_response \<Rightarrow> http_outcome" where
  "answer r = Response (gstatus r) (map_option to_python (gbody r))"

text \<open>What the binding of a body gives: the member \<^verbatim>\<open>value\<close>, which must be a string if it is there.\<close>

definition bind_body :: "json option \<Rightarrow> string + string" where
  "bind_body body =
     (case body of
        Some (JObj kvs) \<Rightarrow>
          (case dict_get kvs (lit ''value'') of
             JStr s \<Rightarrow> (case encode s of Inl _ \<Rightarrow> Inl ''invalid'' | Inr b \<Rightarrow> Inr b)
           | JNull \<Rightarrow> Inr []
           | _ \<Rightarrow> Inl ''invalid'')
      | Some JNull \<Rightarrow> Inr []
      | _ \<Rightarrow> Inl ''invalid'')"

text \<open>The routes of the server; a path without a route gets status 404.\<close>

definition route_request :: "string \<Rightarrow> http_method \<Rightarrow> string \<Rightarrow> json option \<Rightarrow> host \<Rightarrow> go_response \<times> host" where
  "route_request i meth path body h =
     (let key = trimPrefix ''/v1/keys/'' path
      in if key \<noteq> path \<and> key \<noteq> [] \<and> CHR ''/'' \<notin> set key then
           (case meth of
              GET \<Rightarrow> (handleGet i key h, h)
            | PUT \<Rightarrow> handlePut i key (bind_body body) h
            | DELETE \<Rightarrow> handleDelete i key h)
         else if meth = GET \<and> path = ''/healthz'' then (server_handleHealth, h)
         else if meth = GET \<and> path = ''/status'' then handleStatus i h
         else if meth = GET \<and> path = ''/metrics'' then handleMetrics i h
         else (\<lparr>gstatus = 404, gbody = None\<rparr>, h))"

subsection \<open>The world\<close>

text \<open>
  Addresses are the part of a URL before the path. A request takes \<open>lag\<close> seconds. The turns of
  stopped nodes do not happen.
\<close>

record world =
  machines :: host
  clock :: real
  lag :: real
  addresses :: "(pystr \<times> string) list"
  instances :: "(pystr \<times> string) list"
  stopped :: "string list"
  fresh :: nat

fun works_on :: "action \<Rightarrow> string option" where
  "works_on (Deliver (VoteReq p args)) = Some p"
| "works_on (Deliver (AppReq p args)) = Some p"
| "works_on (Deliver _) = None"
| "works_on (Drop m) = None"
| "works_on (HbSend i p) = Some i"
| "works_on (HbError i p args) = Some i"
| "works_on (HbReply i p args reply) = Some i"
| "works_on (RepSend i p e t lc) = Some i"
| "works_on (RepError i p e t lc args) = Some i"
| "works_on (RepReply i p e t lc args reply) = Some i"
| "works_on (TakeAck i e acks waiting p ok) = Some i"
| "works_on (ClientTimeout i e acks waiting) = Some i"
| "works_on (ApplyNext i) = Some i"
| "works_on (SendCommand i cmds) = Some i"
| "works_on a = actor a"

fun alive :: "string list \<Rightarrow> turn \<Rightarrow> bool" where
  "alive down (Turn a) = (case works_on a of None \<Rightarrow> True | Some i \<Rightarrow> i \<notin> set down)"
| "alive down (Consume i wo so) = (i \<notin> set down)"

text \<open>Run a part of a handler with the turns of the running nodes; what it used of the schedule is gone.\<close>

definition with_running :: "string list \<Rightarrow> (host \<Rightarrow> 'a \<times> host) \<Rightarrow> host \<Rightarrow> 'a \<times> host" where
  "with_running down f h =
     (let (r, h') = f (h\<lparr>sched := map (filter (alive down)) (sched h)\<rparr>)
      in (r, h'\<lparr>sched := drop (length (sched h) - length (sched h')) (sched h)\<rparr>))"

definition resolve_url :: "(pystr \<times> string) list \<Rightarrow> pystr \<Rightarrow> (string \<times> string) option" where
  "resolve_url addrs url =
     (case find (\<lambda>(a, i). take (length a) url = a) addrs of
        None \<Rightarrow> None
      | Some (a, i) \<Rightarrow> (case encode (drop (length a) url) of Inl _ \<Rightarrow> None | Inr path \<Rightarrow> Some (i, path)))"

definition world_http :: "http_request \<Rightarrow> real \<Rightarrow> world \<Rightarrow> http_outcome \<times> world" where
  "world_http req timeout w =
     (let w = w\<lparr>clock := clock w + max 0 (lag w)\<rparr>
      in case resolve_url (addresses w) (hurl req) of
           None \<Rightarrow> (RequestException (lit ''no route to host''), w)
         | Some (i, path) \<Rightarrow>
             if i \<in> set (stopped w) then (RequestException (lit ''connection refused''), w)
             else (let (r, h) = with_running (stopped w) (route_request i (hmethod req) path (hjson req)) (machines w)
                   in (answer r, w\<lparr>machines := h\<rparr>)))"

definition world_sleep :: "real \<Rightarrow> world \<Rightarrow> world" where
  "world_sleep d w =
     w\<lparr>clock := clock w + max 0 d,
       machines := snd (with_running (stopped w) (\<lambda>h. ((), yield None h)) (machines w))\<rparr>"

definition world_uuid :: "world \<Rightarrow> pystr \<times> world" where
  "world_uuid w = (replicate (32 - length (nat_digits (fresh w))) 48 @ nat_digits (fresh w), w\<lparr>fresh := fresh w + 1\<rparr>)"

text \<open>
  The commands of the scripts: a stopped machine answers no request, a started one runs a node
  that has kept its peers and lost the rest (\<^const>\<open>restart\<close>).
\<close>

definition world_run :: "pystr list \<Rightarrow> world \<Rightarrow> pystr py_result \<times> world" where
  "world_run cmd w =
     (let hit = map snd (filter (\<lambda>(m, i). m \<in> set cmd) (instances w)); h = machines w
      in if lit ''stop-instances'' \<in> set cmd then (Inr [], w\<lparr>stopped := hit @ stopped w\<rparr>)
         else if lit ''start-instances'' \<in> set cmd
              then (Inr [], w\<lparr>stopped := filter (\<lambda>i. i \<notin> set hit) (stopped w),
                     machines := h\<lparr>cl := fold restart (filter (\<lambda>i. i \<in> set hit) (stopped w)) (cl h)\<rparr>\<rparr>)
              else (Inr (lit ''None''), w))"

definition world_io :: "world client_io" where
  "world_io = \<lparr>http = world_http, perf_counter = (\<lambda>w. (clock w, w)), sleep = world_sleep, uuid4_hex = world_uuid\<rparr>"

definition world_election_io :: "world election_io" where
  "world_election_io =
     \<lparr>http = world_http, perf_counter = (\<lambda>w. (clock w, w)), sleep = world_sleep, uuid4_hex = world_uuid,
      time_time = (\<lambda>w. (clock w, w)), run_command = world_run,
      draws = (\<lambda>w. (\<lambda>k. fresh w + k, w\<lparr>fresh := fresh w + 1\<rparr>))\<rparr>"

lemma world_http_clock: "clock w \<le> clock (snd (world_http req timeout w))"
  by (auto simp: world_http_def Let_def split: option.split prod.split)

interpretation cluster_clock: clocked_io world_io clock
  by unfold_locales (simp_all add: world_io_def world_uuid_def world_sleep_def world_http_clock)

interpretation cluster_wall: wall_clock_io world_election_io clock
  by unfold_locales (simp_all add: world_election_io_def world_sleep_def world_http_clock)

subsection \<open>Clients keep the cluster reachable\<close>

lemma with_running_later:
  assumes "\<And>h. members h = members g \<Longrightarrow> later h (snd (f h))"
  shows "later g (snd (with_running down f g))"
proof -
  have "later (g\<lparr>sched := map (filter (alive down)) (sched g)\<rparr>) (snd (f (g\<lparr>sched := map (filter (alive down)) (sched g)\<rparr>)))"
    by (rule assms) simp
  then have "later g (snd (f (g\<lparr>sched := map (filter (alive down)) (sched g)\<rparr>)))"
    by simp
  from later_trans [OF this later_sched(2)] show ?thesis
    by (cases "f (g\<lparr>sched := map (filter (alive down)) (sched g)\<rparr>)") (simp add: with_running_def Let_def)
qed

lemma route_request_later: "i \<in> set (members h) \<Longrightarrow> later h (snd (route_request i meth path body h))"
  using later_handlers [of i h] by (simp add: route_request_def Let_def split: http_method.split)

text \<open>What a client can do: a request or a pause.\<close>

datatype client_op =
    Ask http_request
  | Pause real

fun client_ops :: "client_op list \<Rightarrow> world \<Rightarrow> world" where
  "client_ops [] w = w"
| "client_ops (Ask req # ops) w = client_ops ops (snd (world_http req 3 w))"
| "client_ops (Pause d # ops) w = client_ops ops (world_sleep d w)"

definition world_ok :: "world \<Rightarrow> bool" where
  "world_ok w \<longleftrightarrow> host_ok (machines w) \<and> snd ` set (addresses w) \<subseteq> set (members (machines w))"

lemma find_in_set: "find P xs = Some x \<Longrightarrow> x \<in> set xs"
  by (induction xs) (auto split: if_splits)

lemma resolve_url_member:
  assumes "resolve_url addrs url = Some (i, path)"
  shows "i \<in> snd ` set addrs"
proof -
  obtain a where "find (\<lambda>(a, i). take (length a) url = a) addrs = Some (a, i)"
    using assms by (auto simp: resolve_url_def split: option.splits sum.splits)
  from find_in_set [OF this] show ?thesis
    by force
qed

lemma world_http_ok:
  assumes "world_ok w"
  shows "later (machines w) (machines (snd (world_http req timeout w))) \<and>
    addresses (snd (world_http req timeout w)) = addresses w"
proof (cases "resolve_url (addresses w) (hurl req)")
  case (Some x)
  obtain i path where x: "x = (i, path)"
    by fastforce
  have "i \<in> set (members (machines w))"
    using resolve_url_member Some x assms by (fastforce simp: world_ok_def)
  then have "later (machines w) (snd (with_running (stopped w) (route_request i (hmethod req) path (hjson req)) (machines w)))"
    by (intro with_running_later route_request_later) simp
  then show ?thesis
    by (auto simp: world_http_def Let_def Some x split: prod.split)
qed (simp add: world_http_def)

lemma world_sleep_ok:
  "later (machines w) (machines (world_sleep d w)) \<and> addresses (world_sleep d w) = addresses w"
  by (simp add: world_sleep_def with_running_later later_yield)

lemma world_ok_later:
  "world_ok w \<Longrightarrow> later (machines w) (machines w') \<Longrightarrow> addresses w' = addresses w \<Longrightarrow> world_ok w'"
  by (auto simp: world_ok_def later_def)

lemma client_ops_later: "world_ok w \<Longrightarrow> later (machines w) (machines (client_ops ops w))"
proof (induction ops w rule: client_ops.induct)
  case (2 req ops w)
  note step = world_http_ok [OF 2(2), of req 3]
  have "world_ok (snd (world_http req 3 w))"
    by (rule world_ok_later [OF 2(2)]) (use step in simp_all)
  from later_trans [OF conjunct1 [OF step] 2(1) [OF this]] show ?case
    by simp
next
  case (3 d ops w)
  note step = world_sleep_ok [of w d]
  have "world_ok (world_sleep d w)"
    by (rule world_ok_later [OF 3(2)]) (use step in simp_all)
  from later_trans [OF conjunct1 [OF step] 3(1) [OF this]] show ?case
    by simp
qed simp


definition world_at :: "cluster \<Rightarrow> turn list list \<Rightarrow> world" where
  "world_at c bursts =
     \<lparr>machines = host_at c bursts, clock = 0, lag = 1 / 100,
      addresses = [(lit ''http://10.0.0.1:7000'', ''A''), (lit ''http://10.0.0.2:7000'', ''B''), (lit ''http://10.0.0.3:7000'', ''C'')],
      instances = [(lit ''i-a'', ''A''), (lit ''i-b'', ''B''), (lit ''i-c'', ''C'')], stopped = [], fresh = 0\<rparr>"


subsection \<open>The failover experiment\<close>



definition report_adds_up :: "int \<Rightarrow> election_report \<Rightarrow> bool" where
  "report_adds_up rounds rep \<longleftrightarrow>
     er_completed rep \<le> nat rounds \<and> (er_timings rep = None \<longleftrightarrow> er_completed rep = 0) \<and>
     (\<forall>t. er_timings rep = Some t \<longrightarrow> ts_min t \<le> ts_avg t \<and> ts_avg t \<le> ts_max t) \<and>
     (\<forall>l. er_data_loss rep = Some l \<longrightarrow> 0 \<le> l \<and> l \<le> 10 * int (er_completed rep)) \<and>
     (\<forall>c. er_avg_catchup rep = Some c \<longrightarrow> 0 \<le> c \<and> c \<le> 10)"

lemma run_experiment_report:
  assumes "run_experiment io args w = Some (Inr (Some rep), w')"
  shows "report_adds_up (ea_rounds args) rep"
proof -
  let ?st = "\<lparr>es_nodes = ea_nodes args, election_times = [], data_loss_counts = [], catchup_counts = []\<rparr>"
  obtain st w1 w2 where st: "le_rounds io args [1..ea_rounds args] ?st w1 = Some (Inr st, w2)" "le_report st = Inr rep"
    using assms by (auto simp: run_experiment_def split: prod.splits sum.splits option.splits bool.splits)
  have "election_ok (ea_nodes args) 0 ?st"
    by (simp add: election_ok_def)
  from le_rounds_ok [OF this st(1)] have "election_ok (ea_nodes args) (nat (ea_rounds args)) st"
    by simp
  from le_report_total [OF this] st(2) show ?thesis
    by (auto simp: report_adds_up_def)
qed



subsection \<open>The geo experiment\<close>

text \<open>
  The poll for convergence ends when the clock advances and the poll interval is positive. A
  time is reported only if in the last pass every node answered with the written value, and
  it is not negative; no time is reported only after the timeout.
\<close>

lemma geo_convergence_sound:
  assumes "clocked_io io now" and "0 < poll_interval"
  shows "\<exists>r latest w'. wait_until_all_visible io nodes key value timeout poll_interval request_timeout w = Some ((r, latest), w') \<and>
    (case r of
       Some ms \<Rightarrow> 0 \<le> ms \<and> list_all (\<lambda>m. \<exists>q. latest m = Some q \<and> sees q value) nodes
     | None \<Rightarrow> now w + timeout \<le> now w')"
proof -
  obtain r latest w' where "wait_until_all_visible io nodes key value timeout poll_interval request_timeout w = Some ((r, latest), w')"
      "\<forall>ms. r = Some ms \<longrightarrow> 0 \<le> ms \<and> (\<forall>m \<in> set nodes. \<exists>q. latest m = Some q \<and> sees q value)"
      "r = None \<longrightarrow> now w + timeout \<le> now w'"
    using clocked_io.wait_until_returns [OF assms, of nodes key "value" timeout request_timeout w] by blast
  then show ?thesis
    by (cases r) (auto simp: list_all_iff)
qed



end
