(* ===== verification/Raft_Transport.thy ===== *)
theory Raft_Transport
  imports Raft_Runs Shard_Router
begin

text \<open>
  How requests travel between nodes. \<^verbatim>\<open>raft/cluster.go\<close> connects nodes inside one process, for
  tests: a table of nodes and a set of isolated ones. \<^verbatim>\<open>rpc/client.go\<close> sends them over HTTP, to the
  addresses that \<^verbatim>\<open>cmd/node/main.go\<close> reads from its environment. A call is one delivery of
  \<^verbatim>\<open>Raft_Cluster\<close>, and an error is a message that is lost.
\<close>

subsection \<open>The cluster in one process\<close>

datatype transport_error =
    ErrNotReachable string
  | PeerReturned string int
  | DecodeFailed

record SimCluster =
  sim_nodes :: "string \<Rightarrow> Node option"
  isolated :: "string \<Rightarrow> bool"
  latency :: int

text \<open>The node names of \<^verbatim>\<open>NewCluster\<close>; these clusters have no channel of commands.\<close>

definition sim_id :: "nat \<Rightarrow> string" where
  "sim_id i = ''node'' @ encode_rune (65 + i)"

definition sim_ids :: "nat \<Rightarrow> string list" where
  "sim_ids n = map sim_id [0..<n]"

definition NewCluster :: "nat \<Rightarrow> int \<Rightarrow> SimCluster \<times> Node list" where
  "NewCluster n lat =
     (let ids = sim_ids n; nodes = map (\<lambda>i. NewNode i (filter (\<lambda>p. p \<noteq> i) ids) False) ids
      in (\<lparr>sim_nodes = fold (\<lambda>nd m. m(nid nd \<mapsto> nd)) nodes Map.empty, isolated = (\<lambda>_. False), latency = lat\<rparr>, nodes))"

definition Isolate :: "string \<Rightarrow> SimCluster \<Rightarrow> SimCluster" where
  "Isolate i c = c\<lparr>isolated := (isolated c)(i := True)\<rparr>"

definition Restore :: "string \<Rightarrow> SimCluster \<Rightarrow> SimCluster" where
  "Restore i c = c\<lparr>isolated := (isolated c)(i := False)\<rparr>"

definition AddNode :: "Node \<Rightarrow> SimCluster \<Rightarrow> SimCluster" where
  "AddNode nd c = c\<lparr>sim_nodes := (sim_nodes c)(nid nd \<mapsto> nd)\<rparr>"

definition resolve :: "string \<Rightarrow> string \<Rightarrow> SimCluster \<Rightarrow> transport_error + Node" where
  "resolve sender peerID c =
     (if isolated c sender \<or> isolated c peerID then Inl (ErrNotReachable peerID)
      else case sim_nodes c peerID of
             None \<Rightarrow> Inl (ErrNotReachable peerID)
           | Some peer \<Rightarrow> Inr peer)"

definition sim_SendRequestVote ::
    "string \<Rightarrow> string \<Rightarrow> RequestVoteArgs \<Rightarrow> SimCluster \<Rightarrow> (transport_error + RequestVoteReply) \<times> SimCluster" where
  "sim_SendRequestVote sender peerID args c =
     (case resolve sender peerID c of
        Inl err \<Rightarrow> (Inl err, c)
      | Inr peer \<Rightarrow>
          (let (reply, peer) = HandleRequestVote args peer
           in (Inr reply, c\<lparr>sim_nodes := (sim_nodes c)(peerID \<mapsto> peer)\<rparr>)))"

text \<open>The flag says whether the handler started \<^verbatim>\<open>applyCommitted\<close>.\<close>

definition sim_SendAppendEntries ::
    "string \<Rightarrow> string \<Rightarrow> AppendEntriesArgs \<Rightarrow> SimCluster \<Rightarrow> (transport_error + AppendEntriesReply) \<times> SimCluster \<times> bool" where
  "sim_SendAppendEntries sender peerID args c =
     (case resolve sender peerID c of
        Inl err \<Rightarrow> (Inl err, c, False)
      | Inr peer \<Rightarrow>
          (let (reply, peer, go) = HandleAppendEntries args peer
           in (Inr reply, c\<lparr>sim_nodes := (sim_nodes c)(peerID \<mapsto> peer)\<rparr>, go)))"

subsection \<open>Over HTTP\<close>

text \<open>
  The HTTP client is an argument: no answer within its timeout, or a status and what the body
  decodes to.
\<close>

definition http_post ::
    "(string \<rightharpoonup> string) \<Rightarrow> (string \<Rightarrow> 'a \<Rightarrow> (int \<times> 'b option) option) \<Rightarrow> string \<Rightarrow> string \<Rightarrow> 'a \<Rightarrow> transport_error + 'b" where
  "http_post addrs post peerID path body =
     (case addrs peerID of
        None \<Rightarrow> Inl (ErrNotReachable peerID)
      | Some base \<Rightarrow>
          (case post (base @ path) body of
             None \<Rightarrow> Inl (ErrNotReachable peerID)
           | Some (status, reply) \<Rightarrow>
               if status \<noteq> 200 then Inl (PeerReturned peerID status)
               else (case reply of None \<Rightarrow> Inl DecodeFailed | Some r \<Rightarrow> Inr r)))"

definition http_SendRequestVote ::
    "(string \<rightharpoonup> string) \<Rightarrow> (string \<Rightarrow> RequestVoteArgs \<Rightarrow> (int \<times> RequestVoteReply option) option) \<Rightarrow>
       string \<Rightarrow> RequestVoteArgs \<Rightarrow> transport_error + RequestVoteReply" where
  "http_SendRequestVote addrs post peerID args = http_post addrs post peerID ''/raft/request-vote'' args"

definition http_SendAppendEntries ::
    "(string \<rightharpoonup> string) \<Rightarrow> (string \<Rightarrow> AppendEntriesArgs \<Rightarrow> (int \<times> AppendEntriesReply option) option) \<Rightarrow>
       string \<Rightarrow> AppendEntriesArgs \<Rightarrow> transport_error + AppendEntriesReply" where
  "http_SendAppendEntries addrs post peerID args = http_post addrs post peerID ''/raft/append-entries'' args"

text \<open>The peers from the environment; \<^const>\<open>None\<close> when an entry has no \<^verbatim>\<open>@\<close> and the process ends.\<close>

definition node_getEnv :: "(string \<rightharpoonup> string) \<Rightarrow> string \<Rightarrow> string \<Rightarrow> string" where
  "node_getEnv env key fallback =
     (case env key of None \<Rightarrow> fallback | Some v \<Rightarrow> if v \<noteq> [] then v else fallback)"

fun parse_peers :: "string list \<Rightarrow> (string list \<times> (string \<rightharpoonup> string)) \<Rightarrow> (string list \<times> (string \<rightharpoonup> string)) option" where
  "parse_peers [] acc = Some acc"
| "parse_peers (e # es) (ids, addrs) =
     (let entry = trimSpace e
      in if entry = [] then parse_peers es (ids, addrs)
         else if CHR ''@'' \<notin> set entry then None
         else (let i = takeWhile (\<lambda>c. c \<noteq> CHR ''@'') entry; hostport = tl (dropWhile (\<lambda>c. c \<noteq> CHR ''@'') entry)
               in parse_peers es (ids @ [i], addrs(i \<mapsto> ''http://'' @ hostport))))"

definition parsePeers :: "string \<Rightarrow> (string list \<times> (string \<rightharpoonup> string)) option" where
  "parsePeers raw = parse_peers (splitComma raw) ([], Map.empty)"

subsection \<open>Properties\<close>

lemma sim_id_inject: "i < 63 \<Longrightarrow> j < 63 \<Longrightarrow> sim_id i = sim_id j \<longleftrightarrow> i = j"
  by (auto simp: sim_id_def encode_rune_def dest: arg_cong [where f = "code \<circ> last"])

lemma distinct_sim_ids: "n \<le> 63 \<Longrightarrow> distinct (sim_ids n)"
  by (auto simp: sim_ids_def distinct_map inj_on_def sim_id_inject)

lemma table_lookup:
  "fold (\<lambda>nd m. m(nid nd \<mapsto> nd)) (map f is) m i =
     (if i \<in> set is then Some (f i) else m i)" if "\<And>i. nid (f i) = i" for f :: "string \<Rightarrow> Node"
  using that by (induction "is" arbitrary: m) auto

text \<open>
  The clusters of the tests satisfy what the safety results assume: \<^verbatim>\<open>NewCluster\<close> gives up to 63
  nodes distinct, non-empty names, and each node starts as in the initial state of
  \<^verbatim>\<open>Raft_Cluster\<close>, with all other nodes as its peers, only without a channel of commands.
\<close>

lemma new_cluster_is_initial:
  assumes "n \<le> 63"
  shows "distinct (sim_ids n) \<and> [] \<notin> set (sim_ids n) \<and> map nid (snd (NewCluster n lat)) = sim_ids n \<and>
    (\<forall>i. sim_nodes (fst (NewCluster n lat)) i =
      (if i \<in> set (sim_ids n) then Some ((node (init_cluster (sim_ids n)) i)\<lparr>applyCh := None\<rparr>) else None))"
proof -
  have d: "distinct (sim_ids n)"
    by (rule distinct_sim_ids [OF assms])
  have "NewNode i (filter (\<lambda>p. p \<noteq> i) (sim_ids n)) False = (node (init_cluster (sim_ids n)) i)\<lparr>applyCh := None\<rparr>" for i
    using d by (simp add: init_cluster_def NewNode_def distinct_remove1_removeAll removeAll_filter_not_eq eq_commute)
  moreover have "map nid (snd (NewCluster n lat)) = sim_ids n"
    by (simp add: NewCluster_def Let_def NewNode_def comp_def)
  moreover have "[] \<notin> set (sim_ids n)"
    by (auto simp: sim_ids_def sim_id_def)
  moreover have "sim_nodes (fst (NewCluster n lat)) i =
      (if i \<in> set (sim_ids n) then Some (NewNode i (filter (\<lambda>p. p \<noteq> i) (sim_ids n)) False) else None)" for i
    using table_lookup [of "\<lambda>i. NewNode i (filter (\<lambda>p. p \<noteq> i) (sim_ids n)) False" "sim_ids n" Map.empty i]
    by (simp add: NewCluster_def Let_def NewNode_def)
  ultimately show ?thesis
    using d by simp
qed



end
