(* ===== verification/Spec2Isabelle.thy ===== *)
theory Spec2Isabelle
  imports Load_Clients Compare_Geo Geo_Experiment Kv_Store Election_Experiment Raft_Completeness Router_Service Client_World
    Raft_Transport
begin

text \<open>
  \<^bold>\<open>A replicated key-value store on Raft: verification development.\<close>

  \<^bold>\<open>The program.\<close> A store of string keys (\<^verbatim>\<open>kv/\<close>) keeps a map in memory, a log of writes and a
  snapshot on disk (\<^verbatim>\<open>storage/\<close>). It is served alone over HTTP (\<^verbatim>\<open>api/http.go\<close>, \<^verbatim>\<open>cmd/simplekvs\<close>) or by a
  Raft node (\<^verbatim>\<open>raft/\<close>, \<^verbatim>\<open>rpc/\<close>, \<^verbatim>\<open>cmd/node\<close>): a write is appended to the leader's log, replicated, committed
  by a majority and handed to the store of every node through a channel. A client-side router
  (\<^verbatim>\<open>config/\<close>, \<^verbatim>\<open>shard/\<close>, \<^verbatim>\<open>cmd/client\<close>) spreads keys over shards by a hash. Python scripts under
  \<^verbatim>\<open>infrastructure/\<close> load and measure such deployments.

  \<^bold>\<open>Conventions.\<close> Go strings are byte strings, Python strings lists of code points, \<^verbatim>\<open>uint64\<close> is a 64-bit
  word, floating point numbers are reals. Errors and panics are values. What the
  environment decides (outcomes of writes, random draws, the scheduler, the network) is an
  argument. Code outside the repository (gin, net/http, requests, locust, the AWS tools) is a record of
  functions, and the contracts assumed of it are locales, each interpreted on the model.

  \<^bold>\<open>Theories.\<close>
  \<^item> \<^verbatim>\<open>Prelude\<close>, \<^verbatim>\<open>Py_Builtins\<close>, \<^verbatim>\<open>Py_Numbers\<close>: results, UTF-8, numbers and statistics of the Python library.
  \<^item> \<^verbatim>\<open>Shard_Hash\<close>: the FNV hash of \<^verbatim>\<open>shard/hashing.go\<close> and of the load client; they agree on every key.
  \<^item> \<^verbatim>\<open>Load_Clients\<close>: \<^verbatim>\<open>horizontal_scaling/experiment.py\<close> and \<^verbatim>\<open>replication_overhead/experiment.py\<close>: writes
    go to the shard of the key, reads only ask for keys whose write was acknowledged.
  \<^item> \<^verbatim>\<open>Compare_Geo\<close>: \<^verbatim>\<open>compare_geo_results.py\<close>: percentiles and summaries are ordered, the report is total.
  \<^item> \<^verbatim>\<open>Client_IO\<close>, \<^verbatim>\<open>Geo_Experiment\<close>, \<^verbatim>\<open>Election_Experiment\<close>: the measurement scripts
    (\<^verbatim>\<open>geo_colocated/experiment.py\<close>, \<^verbatim>\<open>leader_election/experiment.py\<close>,
    \<^verbatim>\<open>raft_leader_election_infra/experiment.py\<close> and \<^verbatim>\<open>plot_results.py\<close>) on a world of HTTP, clocks and commands.
  \<^item> \<^verbatim>\<open>Go_Json\<close>, \<^verbatim>\<open>Storage\<close>: \<^verbatim>\<open>encoding/json\<close> as the program uses it, and \<^verbatim>\<open>storage/\<close>: the log and the
    snapshot file with torn and unsynced writes; what is appended is loaded again.
  \<^item> \<^verbatim>\<open>Kv_Store\<close>: \<^verbatim>\<open>kv/store.go\<close> and \<^verbatim>\<open>kv/apply.go\<close>: refinement of an abstract map, recovery after a restart,
    atomicity of a crash inside an operation, determinism of the apply loop.
  \<^item> \<^verbatim>\<open>Http_Api\<close>: \<^verbatim>\<open>api/http.go\<close>: the interface refines the map; a value put is read back.
  \<^item> \<^verbatim>\<open>Shard_Router\<close>, \<^verbatim>\<open>Router_Service\<close>: \<^verbatim>\<open>config/config.go\<close>, \<^verbatim>\<open>shard/router.go\<close>, \<^verbatim>\<open>cmd/client\<close>: a configuration
    that loads has a shard for every key, and the router over \<^verbatim>\<open>api/http.go\<close> servers is one map.
  \<^item> \<^verbatim>\<open>Raft_Log\<close>, \<^verbatim>\<open>Raft_Node\<close>, \<^verbatim>\<open>Raft_Handlers\<close>: \<^verbatim>\<open>raft/log.go\<close> and every section of code under a node's
    mutex, with the effect of each handler on every branch.
  \<^item> \<^verbatim>\<open>Raft_Cluster\<close>, \<^verbatim>\<open>Raft_Runs\<close>: the main loops, goroutines and messages of \<^verbatim>\<open>raft/election.go\<close> and
    \<^verbatim>\<open>raft/replication.go\<close> as actions of a scheduler; messages may be lost, delayed and reordered.
  \<^item> \<^verbatim>\<open>Raft_Election_Safety\<close>, \<^verbatim>\<open>Raft_Log_Safety\<close>: at most one node is elected per term; logs stay well
    formed and the index loops end, in every reachable state.
  \<^item> \<^verbatim>\<open>Raft_Scenarios\<close>: runs that show where the program departs from Raft.
  \<^item> \<^verbatim>\<open>Raft_Log_Matching\<close>: in the runs in which a heartbeat is only sent while its node leads, logs with
    an entry of the same index and term agree up to it. The log of the leader of each term is carried
    beside the state.
  \<^item> \<^verbatim>\<open>Raft_History\<close>, \<^verbatim>\<open>Raft_Completeness\<close>: in the same runs, with a history of votes and accepted entries,
    what a majority has accepted is in the log of every later leader, so a command acknowledged by
    \<^verbatim>\<open>Replicate\<close> is never lost. An entry committed on the answers to heartbeats can be.
  \<^item> \<^verbatim>\<open>Raft_Transport\<close>: \<^verbatim>\<open>raft/cluster.go\<close>, \<^verbatim>\<open>rpc/client.go\<close> and the peer list of \<^verbatim>\<open>cmd/node\<close>: a call is a
    delivery or a loss, and the clusters of the tests start in the initial state.
  \<^item> \<^verbatim>\<open>Raft_Server\<close>: \<^verbatim>\<open>rpc/server.go\<close> and the rest of \<^verbatim>\<open>Replicate\<close>, with the points where other goroutines
    run: an acknowledged write was committed; what a status page is worth.
  \<^item> \<^verbatim>\<open>Client_World\<close>: the scripts against the servers: clients keep the cluster safe, and the
    experiments end with reports that add up.

  \<^bold>\<open>Bounds and fuel.\<close> The JSON parser takes fuel of twice the length of the text plus two, which
  is shown to be enough. Loops over 64-bit indices and polling loops are partial functions, and
  that they return is proved. Runs assume that terms and log indices do not reach
  the largest 64-bit value.

  \<^bold>\<open>What the runs show.\<close> A heartbeat can commit entries that were never compared, so replicas
  can apply different commands; the heartbeat of a deposed leader can overwrite the log of the
  leader of the term, after which two entries have the same index and term; a late answer to an
  entry of an earlier term counts for the current one, and a command is committed that too few nodes
  have; goroutines can deliver commands out of order; a
  node that restarts votes again in the same term, since neither term nor vote is on disk; a
  cluster of one node never elects a leader; a status page can mix two terms.

  \<^bold>\<open>Not modelled.\<close> Stopping a node (the process ends with it); the random length of
  election timeouts and all other durations, which are choices of the scheduler; the sleep that
  simulates latency; HTTP framing, the routing and binding of gin, the JSON text of calls between
  nodes; command line parsing, log output and drawing; \<^verbatim>\<open>cmd/simplekvs\<close> and the rest of \<^verbatim>\<open>cmd/node\<close>, which
  only open files, read the environment and call modelled parts; \<^verbatim>\<open>locust_election.py\<close>, two
  stateless random requests; \<^verbatim>\<open>geo_distributed/experiment.py\<close>, line for line the co-located script;
  \<^verbatim>\<open>util/\<close> and \<^verbatim>\<open>rpc/types.go\<close>, which hold comments only; Terraform, shell and container files.
\<close>

end
